(* ===== verification/Prelude.thy ===== *)
theory Prelude
  imports Main "HOL-Library.Word"
begin

unbundle bit_operations_syntax

text \<open>
  Shared vocabulary of the development: names for the C integer types, the outcome type of
  kernel functions with its sequencing operator, the little-endian byte encoding of machine
  words, byte arrays (disk blocks, local buffers) as lists, and byte-addressed physical memory
  as a function from addresses to bytes.  Every component theory imports this one.
\<close>

named_theorems kstep \<open>equations that run a kernel function forwards\<close>
named_theorems bytes_simps \<open>reading back what was written to memory and to byte arrays\<close>

section \<open>C integer types (kernel/types.h)\<close>

type_synonym byte = "8 word"
type_synonym ushort = "16 word"
type_synonym uint = "32 word"
type_synonym uint64 = "64 word"

section \<open>Outcomes of kernel code\<close>

text \<open>
  A kernel function either returns a result with the new state (\<open>Done\<close>) or stops on the way:
  it called \<open>panic\<close>, it went to sleep inside \<open>sched\<close> (the process is no longer running and
  the state is the one it left behind), it followed a null or wild pointer, or it is in a loop
  that its data structure never lets it leave.  \<open>bnd\<close> runs the second part of a function only
  when the first has returned.
\<close>

datatype stop = Panic string | Asleep | Fault string | Diverge

datatype ('a, 's) res = Done 'a 's | Stop stop 's

definition bnd :: "('a, 's) res \<Rightarrow> ('a \<Rightarrow> 's \<Rightarrow> ('b, 's) res) \<Rightarrow> ('b, 's) res" where
  "bnd r f = (case r of Done a s \<Rightarrow> f a s | Stop e s \<Rightarrow> Stop e s)"

lemma bnd_Done [simp, kstep]: "bnd (Done a s) f = f a s"
  by (simp add: bnd_def)

lemma bnd_Stop [simp, kstep]: "bnd (Stop e s) f = Stop e s"
  by (simp add: bnd_def)

lemma bnd_eq_Done:
  "bnd r f = Done b s' \<longleftrightarrow> (\<exists>a s. r = Done a s \<and> f a s = Done b s')"
  by (cases r) auto

lemma bnd_assoc: "bnd (bnd r f) g = bnd r (\<lambda>a s. bnd (f a s) g)"
  by (cases r) auto

lemma bnd_cong [fundef_cong]:
  "r = r' \<Longrightarrow> (\<And>a s. r' = Done a s \<Longrightarrow> f a s = f' a s) \<Longrightarrow> bnd r f = bnd r' f'"
  by (cases r') (auto simp: bnd_def)

text \<open>A \<open>for\<close> loop whose body returns nothing and does not leave the loop.\<close>

primrec foreach :: "('x \<Rightarrow> 's \<Rightarrow> (unit, 's) res) \<Rightarrow> 'x list \<Rightarrow> 's \<Rightarrow> (unit, 's) res" where
  "foreach f [] s = Done () s"
| "foreach f (x # xs) s = bnd (f x s) (\<lambda>_ s. foreach f xs s)"

lemma foreach_append: "foreach f (xs @ ys) s = bnd (foreach f xs s) (\<lambda>_ s. foreach f ys s)"
  by (induction xs arbitrary: s) (simp_all add: bnd_assoc)

lemma foreach_cong [fundef_cong]:
  "xs = ys \<Longrightarrow> s = t \<Longrightarrow> (\<And>x s. x \<in> set ys \<Longrightarrow> f x s = g x s) \<Longrightarrow> foreach f xs s = foreach g ys t"
  by (induction xs arbitrary: ys s t) (auto intro!: bnd_cong)

text \<open>A loop that keeps an invariant and never stops does its work.\<close>

lemma foreach_inv:
  assumes "P [] s"
    and "\<And>ys x zs s. xs = ys @ x # zs \<Longrightarrow> P ys s \<Longrightarrow> \<exists>t. f x s = Done () t \<and> P (ys @ [x]) t"
  shows "\<exists>t. foreach f xs s = Done () t \<and> P xs t"
proof -
  have "\<exists>t. foreach f zs s = Done () t \<and> P xs t" if "xs = ys @ zs" "P ys s" for ys zs s
    using that
  proof (induction zs arbitrary: ys s)
    case (Cons z zs)
    obtain t where t: "f z s = Done () t" "P (ys @ [z]) t" using assms(2) Cons.prems by blast
    then show ?case using Cons.IH [of "ys @ [z]" t] Cons.prems by simp
  qed simp
  then show ?thesis using assms(1) by fastforce
qed

lemma find_SomeD: "find P xs = Some x \<Longrightarrow> x \<in> set xs \<and> P x"
  by (auto simp: find_Some_iff)

section \<open>Little-endian encoding of words\<close>

definition byte_of :: "nat \<Rightarrow> 'a::len word \<Rightarrow> byte" where
  "byte_of k w = ucast (drop_bit (8 * k) w)"

definition bytes_of :: "nat \<Rightarrow> 'a::len word \<Rightarrow> byte list" where
  "bytes_of n w = map (\<lambda>k. byte_of k w) [0..<n]"

fun of_bytes :: "byte list \<Rightarrow> 'a::len word" where
  "of_bytes [] = 0"
| "of_bytes (b # bs) = ucast b OR push_bit 8 (of_bytes bs)"

lemma length_bytes_of [simp]: "length (bytes_of n w) = n"
  by (simp add: bytes_of_def)

lemma bit_byte_of: "bit (byte_of k w) n \<longleftrightarrow> n < 8 \<and> bit w (8 * k + n)"
  by (auto simp: byte_of_def bit_simps)

lemma bit_of_bytes:
  "bit (of_bytes bs :: 'a::len word) n \<longleftrightarrow>
     n < LENGTH('a) \<and> n div 8 < length bs \<and> bit (bs ! (n div 8)) (n mod 8)"
proof (induction bs arbitrary: n)
  case Nil
  then show ?case by simp
next
  case (Cons b bs)
  show ?case
  proof (cases "n < 8")
    case True
    then show ?thesis by (auto simp: bit_simps)
  next
    case False
    then have "n div 8 = Suc ((n - 8) div 8)" "n mod 8 = (n - 8) mod 8"
      by (simp_all add: le_div_geq le_mod_geq)
    moreover have "\<not> bit (ucast b :: 'a word) n"
      using False bit_imp_le_length [of b n] by (auto simp: bit_simps)
    ultimately show ?thesis
      using False Cons.IH [of "n - 8"] by (auto simp: bit_simps)
  qed
qed

lemma of_bytes_bytes_of [simp]:
  fixes w :: "'a::len word"
  assumes "LENGTH('a) \<le> 8 * n"
  shows "of_bytes (bytes_of n w) = w"
proof (rule bit_word_eqI)
  fix k
  assume "k < LENGTH('a)"
  then have "k div 8 < n" using assms by (simp add: less_mult_imp_div_less mult.commute)
  then show "bit (of_bytes (bytes_of n w) :: 'a word) k \<longleftrightarrow> bit w k"
    using \<open>k < LENGTH('a)\<close> by (simp add: bit_of_bytes bytes_of_def bit_byte_of)
qed

lemma bytes_of_of_bytes:
  assumes "8 * length bs \<le> LENGTH('a)"
  shows "bytes_of (length bs) (of_bytes bs :: 'a::len word) = bs"
proof (rule nth_equalityI)
  fix i
  assume "i < length (bytes_of (length bs) (of_bytes bs :: 'a word))"
  then have i: "i < length bs" by simp
  show "bytes_of (length bs) (of_bytes bs :: 'a word) ! i = bs ! i"
  proof (rule bit_word_eqI)
    fix k
    assume "k < LENGTH(8)"
    then have k: "k < 8" by simp
    have "8 * i + k < 8 * length bs" using i k by simp
    then have "8 * i + k < LENGTH('a)" using assms by simp
    then show "bit (bytes_of (length bs) (of_bytes bs :: 'a word) ! i) k \<longleftrightarrow> bit (bs ! i) k"
      using i k by (simp add: bytes_of_def bit_byte_of bit_of_bytes)
  qed
qed simp

section \<open>Byte arrays\<close>

text \<open>
  A fixed-size C array of bytes is a list.  \<open>slice b off n\<close> reads \<open>n\<close> bytes at \<open>off\<close>;
  \<open>splice b off bs\<close> overwrites the bytes at \<open>off\<close>, as \<open>memmove\<close> into the array does.
\<close>

definition slice :: "'a list \<Rightarrow> nat \<Rightarrow> nat \<Rightarrow> 'a list" where
  "slice b off n = take n (drop off b)"

definition splice :: "'a list \<Rightarrow> nat \<Rightarrow> 'a list \<Rightarrow> 'a list" where
  "splice b off bs = take off b @ bs @ drop (off + length bs) b"

definition get16 :: "byte list \<Rightarrow> nat \<Rightarrow> ushort" where
  "get16 b off = of_bytes (slice b off 2)"

definition get32 :: "byte list \<Rightarrow> nat \<Rightarrow> uint" where
  "get32 b off = of_bytes (slice b off 4)"

definition get64 :: "byte list \<Rightarrow> nat \<Rightarrow> uint64" where
  "get64 b off = of_bytes (slice b off 8)"

definition put16 :: "byte list \<Rightarrow> nat \<Rightarrow> ushort \<Rightarrow> byte list" where
  "put16 b off v = splice b off (bytes_of 2 v)"

definition put32 :: "byte list \<Rightarrow> nat \<Rightarrow> uint \<Rightarrow> byte list" where
  "put32 b off v = splice b off (bytes_of 4 v)"

lemma length_slice [simp]: "length (slice b off n) = min n (length b - off)"
  by (simp add: slice_def)

lemma length_splice [simp]: "off + length bs \<le> length b \<Longrightarrow> length (splice b off bs) = length b"
  by (simp add: splice_def)

lemma nth_splice:
  "off + length bs \<le> length b \<Longrightarrow> i < length b \<Longrightarrow>
   splice b off bs ! i = (if off \<le> i \<and> i < off + length bs then bs ! (i - off) else b ! i)"
  by (auto simp: splice_def nth_append)

lemma nth_slice: "off + n \<le> length b \<Longrightarrow> i < n \<Longrightarrow> slice b off n ! i = b ! (off + i)"
  by (simp add: slice_def)

lemma slice_splice_same [bytes_simps]:
  "off + length bs \<le> length b \<Longrightarrow> n = length bs \<Longrightarrow> slice (splice b off bs) off n = bs"
  by (rule nth_equalityI) (auto simp: nth_slice nth_splice)

lemma slice_splice_disj [bytes_simps]:
  assumes "off + length bs \<le> length b" "o2 + n \<le> length b"
    and "o2 + n \<le> off \<or> off + length bs \<le> o2"
  shows "slice (splice b off bs) o2 n = slice b o2 n"
  using assms by (intro nth_equalityI) (auto simp: nth_slice nth_splice)

lemma slice_whole [simp]: "length b = n \<Longrightarrow> slice b 0 n = b"
  by (simp add: slice_def)

lemma splice_whole [simp]: "length b = length bs \<Longrightarrow> splice b 0 bs = bs"
  by (simp add: splice_def)

lemma splice_eq_iff:
  assumes "off + length bs \<le> length b"
  shows "splice b off bs = b \<longleftrightarrow> slice b off (length bs) = bs"
proof
  assume "splice b off bs = b"
  then show "slice b off (length bs) = bs"
    using slice_splice_same [OF assms refl] by simp
next
  assume "slice b off (length bs) = bs"
  then show "splice b off bs = b"
    using assms by (metis append_take_drop_id drop_drop splice_def slice_def add.commute)
qed

lemma length_put16 [simp]: "off + 2 \<le> length b \<Longrightarrow> length (put16 b off v) = length b"
  by (simp add: put16_def)

lemma length_put32 [simp]: "off + 4 \<le> length b \<Longrightarrow> length (put32 b off v) = length b"
  by (simp add: put32_def)

lemma get32_put32_same [bytes_simps]: "off + 4 \<le> length b \<Longrightarrow> get32 (put32 b off v) off = v"
  by (simp add: get32_def put32_def slice_splice_same)

lemma get32_put32_other [bytes_simps]:
  "off + 4 \<le> length b \<Longrightarrow> o2 + 4 \<le> length b \<Longrightarrow> o2 + 4 \<le> off \<or> off + 4 \<le> o2 \<Longrightarrow>
   get32 (put32 b off v) o2 = get32 b o2"
  by (simp add: get32_def put32_def slice_splice_disj)

lemma get16_put16_same [bytes_simps]: "off + 2 \<le> length b \<Longrightarrow> get16 (put16 b off v) off = v"
  by (simp add: get16_def put16_def slice_splice_same)

lemma get16_put16_other [bytes_simps]:
  "off + 2 \<le> length b \<Longrightarrow> o2 + 2 \<le> length b \<Longrightarrow> o2 + 2 \<le> off \<or> off + 2 \<le> o2 \<Longrightarrow>
   get16 (put16 b off v) o2 = get16 b o2"
  by (simp add: get16_def put16_def slice_splice_disj)

section \<open>Physical memory\<close>

text \<open>
  Physical memory maps an address to a byte.  The kernel runs with physical memory mapped one
  to one, so a kernel pointer \<open>p\<close> reads the bytes at \<open>unat p\<close>.
\<close>

type_synonym pmem = "nat \<Rightarrow> byte"

definition rd :: "pmem \<Rightarrow> nat \<Rightarrow> nat \<Rightarrow> byte list" where
  "rd m a n = map (\<lambda>i. m (a + i)) [0..<n]"

definition wr :: "pmem \<Rightarrow> nat \<Rightarrow> byte list \<Rightarrow> pmem" where
  "wr m a bs = (\<lambda>x. if a \<le> x \<and> x < a + length bs then bs ! (x - a) else m x)"

definition load64 :: "pmem \<Rightarrow> nat \<Rightarrow> uint64" where
  "load64 m a = of_bytes (rd m a 8)"

definition store64 :: "pmem \<Rightarrow> nat \<Rightarrow> uint64 \<Rightarrow> pmem" where
  "store64 m a v = wr m a (bytes_of 8 v)"

lemma length_rd [simp]: "length (rd m a n) = n"
  by (simp add: rd_def)

lemma nth_rd [simp]: "i < n \<Longrightarrow> rd m a n ! i = m (a + i)"
  by (simp add: rd_def)

lemma rd_eqI: "(\<And>i. i < n \<Longrightarrow> m (a + i) = m' (a + i)) \<Longrightarrow> rd m a n = rd m' a n"
  by (simp add: rd_def)

lemma rd_wr_same [bytes_simps]: "n = length bs \<Longrightarrow> rd (wr m a bs) a n = bs"
  by (rule nth_equalityI) (auto simp: wr_def)

lemma rd_wr_disj [bytes_simps]:
  "a + n \<le> b \<or> b + length bs \<le> a \<Longrightarrow> rd (wr m b bs) a n = rd m a n"
  by (rule rd_eqI) (auto simp: wr_def)

lemma wr_Nil [simp]: "wr m a [] = m"
  by (auto simp: wr_def fun_eq_iff)

lemma wr_rd_id [simp]: "wr m a (rd m a n) = m"
  by (auto simp: wr_def fun_eq_iff)

lemma wr_append: "wr (wr m a bs) (a + length bs) cs = wr m a (bs @ cs)"
  by (auto simp: wr_def fun_eq_iff nth_append)

lemma wr_wr_same: "length bs = length cs \<Longrightarrow> wr (wr m a bs) a cs = wr m a cs"
  by (auto simp: wr_def fun_eq_iff)

lemma wr_other: "x < a \<or> a + length bs \<le> x \<Longrightarrow> wr m a bs x = m x"
  by (auto simp: wr_def)

lemma rd_add: "rd m a (n + k) = rd m a n @ rd m (a + n) k"
  by (rule nth_equalityI) (auto simp: nth_append)

lemma load64_store64_same [bytes_simps]: "load64 (store64 m a v) a = v"
  by (simp add: load64_def store64_def rd_wr_same)

lemma load64_store64_disj [bytes_simps]:
  "a + 8 \<le> b \<or> b + 8 \<le> a \<Longrightarrow> load64 (store64 m b v) a = load64 m a"
  by (simp add: load64_def store64_def rd_wr_disj)

lemma load64_wr_disj [bytes_simps]:
  "a + 8 \<le> b \<or> b + length bs \<le> a \<Longrightarrow> load64 (wr m b bs) a = load64 m a"
  by (simp add: load64_def rd_wr_disj)

lemma rd_store64_disj [bytes_simps]:
  "a + n \<le> b \<or> b + 8 \<le> a \<Longrightarrow> rd (store64 m b v) a n = rd m a n"
  by (simp add: store64_def rd_wr_disj)

lemma load64_cong: "(\<And>i. i < 8 \<Longrightarrow> m (a + i) = m' (a + i)) \<Longrightarrow> load64 m a = load64 m' a"
  by (simp add: load64_def rd_eqI [of 8 m a m'])

lemma of_bytes_replicate_0 [simp]: "of_bytes (replicate n 0) = (0 :: 'a::len word)"
  by (induction n) simp_all

lemma load64_wr_zero:
  assumes "a \<le> x" "x + 8 \<le> a + n"
  shows "load64 (wr m a (replicate n 0)) x = 0"
proof -
  have "rd (wr m a (replicate n 0)) x 8 = replicate 8 0"
    using assms by (intro nth_equalityI) (auto simp: wr_def)
  then show ?thesis by (simp add: load64_def)
qed

section \<open>Words read as naturals\<close>

lemma div_mod_eqI: "a div k = b div k \<Longrightarrow> a mod k = b mod k \<Longrightarrow> a = (b :: nat)"
  by (metis div_mult_mod_eq)

lemma unat_add_lt:
  fixes a b :: "'a::len word"
  shows "unat a + unat b < 2 ^ LENGTH('a) \<Longrightarrow> unat (a + b) = unat a + unat b"
  by (simp add: unat_word_ariths)

lemma unat_sub_le:
  fixes a b :: "'a::len word"
  shows "b \<le> a \<Longrightarrow> unat (a - b) = unat a - unat b"
  by (simp add: unat_sub)

lemma unat_lt64 [simp]: "unat (x :: uint64) < 18446744073709551616"
  using unsigned_less [of x] by simp

lemma unat_lt32 [simp]: "unat (x :: uint) < 4294967296"
  using unsigned_less [of x] by simp

lemma unat_lt8 [simp]: "unat (x :: byte) < 256"
  using unsigned_less [of x] by simp

lemma unat_and_mask: "unat (x AND mask n) = unat x mod 2 ^ n"
  by (simp only: take_bit_eq_mask [symmetric] unsigned_take_bit_eq
      take_bit_eq_mod [of n "unat x"])

lemma unat_and_not_mask: "unat (x AND NOT (mask n)) = unat x - unat x mod 2 ^ n"
proof -
  have "x AND NOT (mask n) = x - (x AND mask n)"
    by (subst disjunctive_diff_eq_and_not) (auto intro!: bit_word_eqI simp: bit_simps)
  moreover have "x AND mask n \<le> x" by (rule word_and_le2)
  ultimately show ?thesis by (simp add: unat_sub_le unat_and_mask)
qed

end
