(* ===== verification/Ring.thy ===== *)
theory Ring
  imports Prelude
begin

text \<open>
  Byte rings with free-running 32-bit counters, as pipes and the console use them: the byte of counter
  value \<open>k\<close> is at index \<open>k\<close> modulo the size, and the counters wrap at \<open>2 ^ 32\<close>.  The locale gives the
  operations at both ends as operations on the list of bytes in the ring, for every size that divides \<open>2 ^ 32\<close>.
\<close>

definition ring_list :: "nat \<Rightarrow> byte list \<Rightarrow> uint \<Rightarrow> uint \<Rightarrow> byte list" where
  "ring_list N buf r w = map (\<lambda>k. buf ! (unat (r + of_nat k) mod N)) [0..<unat (w - r)]"

locale byte_ring =
  fixes N :: nat
  assumes size_dvd: "N dvd 2 ^ 32" and size_pos: "0 < N" and size_le: "N < 2 ^ 32"
begin

lemma length_ring: "length (ring_list N buf r w) = unat (w - r)"
  by (simp add: ring_list_def)

lemma empty_iff: "ring_list N buf r w = [] \<longleftrightarrow> r = w"
proof -
  have "ring_list N buf r w = [] \<longleftrightarrow> unat (w - r) = 0" using length_ring [of buf r w] by (metis length_0_conv)
  then show ?thesis by (auto simp: unsigned_eq_0_iff)
qed

lemma full_iff: "unat (w - r) \<le> N \<Longrightarrow> w = r + of_nat N \<longleftrightarrow> length (ring_list N buf r w) = N"
proof -
  assume "unat (w - r) \<le> N"
  have n: "unat (of_nat N :: uint) = N" using size_le by (simp add: unsigned_of_nat take_bit_nat_eq_self)
  have "w = r + of_nat N \<longleftrightarrow> w - r = of_nat N" by (auto simp: algebra_simps)
  also have "\<dots> \<longleftrightarrow> unat (w - r) = N" using n by (simp only: word_unat_eq_iff)
  finally show ?thesis by (simp add: length_ring)
qed

text \<open>Counters whose distance is less than the size have different indices.\<close>

lemma index_inj:
  assumes "unat (r + of_nat i :: uint) mod N = unat (r + of_nat j :: uint) mod N" "i < j" "j < 2 ^ 32"
  shows "N \<le> j - i"
proof -
  have m: "unat (r + of_nat k :: uint) mod N = (unat r + k) mod N" for k
  proof -
    have "unat (r + of_nat k :: uint) = (unat r + k) mod 2 ^ 32" by (simp add: unat_word_ariths unsigned_of_nat take_bit_eq_mod mod_simps)
    then show ?thesis using size_dvd by (simp add: mod_mod_cancel)
  qed
  have "(unat r + i) mod N = (unat r + j) mod N" using assms(1) by (simp add: m)
  then have "N dvd (unat r + j) - (unat r + i)" using assms(2) by (metis mod_eq_dvd_iff_nat add_left_mono less_imp_le)
  then show ?thesis using assms(2) by (auto dest: dvd_imp_le)
qed

lemma next_count: "unat (w - r :: uint) < 2 ^ 32 - 1 \<Longrightarrow> unat (w + 1 - r) = unat (w - r) + 1"
proof -
  assume "unat (w - r :: uint) < 2 ^ 32 - 1"
  then have "unat ((w - r) + 1) = unat (w - r) + 1" by (subst unat_add_lt) auto
  then show ?thesis by (simp add: algebra_simps)
qed

lemma count_back: "r + of_nat (unat (w - r)) = (w :: uint)"
  by simp

lemma put:
  assumes "length buf = N" "unat (w - r) < N"
  shows "ring_list N (buf[unat w mod N := c]) r (w + 1) = ring_list N buf r w @ [c]"
proof -
  let ?d = "unat (w - r)"
  have d: "unat (w + 1 - r) = ?d + 1" using assms(2) size_le by (intro next_count) simp
  have "buf[unat w mod N := c] ! (unat (r + of_nat k) mod N) = buf ! (unat (r + of_nat k) mod N)" if "k < ?d" for k
  proof -
    have "unat (r + of_nat k) mod N \<noteq> unat (r + of_nat ?d) mod N"
    proof
      assume "unat (r + of_nat k) mod N = unat (r + of_nat ?d) mod N"
      then have "N \<le> ?d - k" using that assms(2) size_le by (intro index_inj [of r]) simp_all
      then show False using assms(2) by linarith
    qed
    then show ?thesis by (simp add: nth_list_update)
  qed
  moreover have "buf[unat w mod N := c] ! (unat (r + of_nat ?d) mod N) = c"
    using assms(1) size_pos by simp
  ultimately show ?thesis unfolding ring_list_def d by simp
qed

lemma get:
  assumes "r \<noteq> w"
  shows "ring_list N buf r w = buf ! (unat r mod N) # ring_list N buf (r + 1) w"
proof -
  have z: "unat (w - r) \<noteq> 0" using assms by (simp add: unsigned_eq_0_iff)
  have "unat (w - (r + 1)) = unat (w - r) - 1" using unat_minus_one [of "w - r"] assms by (simp add: diff_diff_eq)
  then have d: "unat (w - r) = Suc (unat (w - (r + 1)))" using z by simp
  show ?thesis unfolding ring_list_def d
    by (simp add: upt_conv_Cons map_Suc_upt [symmetric] del: upt_Suc) (simp add: algebra_simps)
qed

lemma unput:
  assumes "w \<noteq> r"
  shows "ring_list N buf r (w - 1) = butlast (ring_list N buf r w)"
proof -
  have z: "unat (w - r) \<noteq> 0" using assms by (simp add: unsigned_eq_0_iff)
  have d: "unat (w - 1 - r) = unat (w - r) - 1"
    using unat_minus_one [of "w - r"] assms by (simp add: diff_right_commute [of w 1 r])
  obtain n where n: "unat (w - r) = Suc n" using z by (cases "unat (w - r)") auto
  show ?thesis unfolding ring_list_def d n by simp
qed

text \<open>A counter in between splits the list.\<close>

lemma split:
  assumes "unat (m - r) \<le> unat (w - r)"
  shows "ring_list N buf r w = ring_list N buf r m @ ring_list N buf m w"
proof -
  have d: "unat (w - m) = unat (w - r) - unat (m - r)"
  proof -
    have "w - m = (w - r) - (m - r)" by simp
    then show ?thesis using assms by (simp only: unat_sub_le word_le_nat_alt)
  qed
  have "ring_list N buf m w = map (\<lambda>k. buf ! (unat (r + of_nat k) mod N)) [unat (m - r)..<unat (w - r)]"
    unfolding ring_list_def d
    by (rule nth_equalityI) (simp_all add: algebra_simps)
  then show ?thesis
    unfolding ring_list_def using assms upt_add_eq_append [of 0 "unat (m - r)" "unat (w - r) - unat (m - r)"] by simp
qed

end

end
