(* ===== verification/Riscv.thy ===== *)
theory Riscv
  imports Prelude
begin

unbundle bit_operations_syntax

text \<open>
  The machine as the kernel's headers describe it: the configuration constants of
  \<^verbatim>\<open>kernel/param.h\<close> (this tree is built with \<^verbatim>\<open>LAB=util\<close>, so \<open>LAB_UTIL\<close> is defined and the
  other lab switches are not), the memory layout of \<^verbatim>\<open>kernel/memlayout.h\<close>, and the page,
  page-table-entry and control-register macros of \<^verbatim>\<open>kernel/riscv.h\<close>.  A hart's control and
  status registers are a record; every \<open>r_x\<close> and \<open>w_x\<close> accessor reads or writes one field.
  The lemmas give the arithmetic meaning of the bit-level macros.
\<close>

section \<open>Configuration (kernel/param.h)\<close>

definition NPROC :: nat where "NPROC = 64"
definition NCPU :: nat where "NCPU = 8"
definition NOFILE :: nat where "NOFILE = 16"
definition NFILE :: nat where "NFILE = 100"
definition NINODE :: nat where "NINODE = 50"
definition NDEV :: nat where "NDEV = 10"
definition ROOTDEV :: uint where "ROOTDEV = 1"
definition MAXARG :: nat where "MAXARG = 32"
definition MAXOPBLOCKS :: nat where "MAXOPBLOCKS = 10"
definition LOGBLOCKS :: nat where "LOGBLOCKS = MAXOPBLOCKS * 3"
definition NBUF :: nat where "NBUF = MAXOPBLOCKS * 3"
definition FSSIZE :: nat where "FSSIZE = 2000"
definition MAXPATH :: nat where "MAXPATH = 128"
definition USERSTACK :: nat where "USERSTACK = 2"

section \<open>Pages and page-table entries (kernel/riscv.h)\<close>

definition PGSIZE :: uint64 where "PGSIZE = 4096"
definition PGSHIFT :: nat where "PGSHIFT = 12"

definition PGROUNDUP :: "uint64 \<Rightarrow> uint64" where
  "PGROUNDUP sz = (sz + PGSIZE - 1) AND NOT (PGSIZE - 1)"

definition PGROUNDDOWN :: "uint64 \<Rightarrow> uint64" where
  "PGROUNDDOWN a = a AND NOT (PGSIZE - 1)"

definition PTE_V :: uint64 where "PTE_V = 1"
definition PTE_R :: uint64 where "PTE_R = 2"
definition PTE_W :: uint64 where "PTE_W = 4"
definition PTE_X :: uint64 where "PTE_X = 8"
definition PTE_U :: uint64 where "PTE_U = 16"

definition PA2PTE :: "uint64 \<Rightarrow> uint64" where
  "PA2PTE pa = push_bit 10 (drop_bit 12 pa)"

definition PTE2PA :: "uint64 \<Rightarrow> uint64" where
  "PTE2PA pte = push_bit 12 (drop_bit 10 pte)"

definition PTE_FLAGS :: "uint64 \<Rightarrow> uint64" where
  "PTE_FLAGS pte = pte AND 0x3FF"

definition PXMASK :: uint64 where "PXMASK = 0x1FF"

definition PXSHIFT :: "nat \<Rightarrow> nat" where
  "PXSHIFT level = PGSHIFT + 9 * level"

definition PX :: "nat \<Rightarrow> uint64 \<Rightarrow> uint64" where
  "PX level va = drop_bit (PXSHIFT level) va AND PXMASK"

definition MAXVA :: uint64 where
  "MAXVA = push_bit (9 + 9 + 9 + 12 - 1) 1"

definition SATP_SV39 :: uint64 where "SATP_SV39 = push_bit 60 8"

definition MAKE_SATP :: "uint64 \<Rightarrow> uint64" where
  "MAKE_SATP pagetable = SATP_SV39 OR drop_bit 12 pagetable"

section \<open>Physical and virtual memory layout (kernel/memlayout.h)\<close>

definition UART0 :: uint64 where "UART0 = 0x10000000"
definition UART0_IRQ :: nat where "UART0_IRQ = 10"
definition VIRTIO0 :: uint64 where "VIRTIO0 = 0x10001000"
definition VIRTIO0_IRQ :: nat where "VIRTIO0_IRQ = 1"
definition PLIC :: uint64 where "PLIC = 0x0c000000"

definition PLIC_SENABLE :: "nat \<Rightarrow> uint64" where
  "PLIC_SENABLE hart = PLIC + 0x2080 + of_nat hart * 0x100"

definition PLIC_SPRIORITY :: "nat \<Rightarrow> uint64" where
  "PLIC_SPRIORITY hart = PLIC + 0x201000 + of_nat hart * 0x2000"

definition PLIC_SCLAIM :: "nat \<Rightarrow> uint64" where
  "PLIC_SCLAIM hart = PLIC + 0x201004 + of_nat hart * 0x2000"

definition KERNBASE :: uint64 where "KERNBASE = 0x80000000"
definition PHYSTOP :: uint64 where "PHYSTOP = KERNBASE + 128 * 1024 * 1024"
definition TRAMPOLINE :: uint64 where "TRAMPOLINE = MAXVA - PGSIZE"

definition KSTACK :: "nat \<Rightarrow> uint64" where
  "KSTACK p = TRAMPOLINE - of_nat (p + 1) * 2 * PGSIZE"

definition TRAPFRAME :: uint64 where "TRAPFRAME = TRAMPOLINE - PGSIZE"

lemmas param_defs =
  NPROC_def NCPU_def NOFILE_def NFILE_def NINODE_def NDEV_def ROOTDEV_def MAXARG_def
  MAXOPBLOCKS_def LOGBLOCKS_def NBUF_def FSSIZE_def MAXPATH_def USERSTACK_def

lemmas pte_bits = PTE_V_def PTE_R_def PTE_W_def PTE_X_def PTE_U_def

lemma MAXVA_val: "MAXVA = 0x4000000000"
  by (simp add: MAXVA_def)

lemma TRAMPOLINE_val: "TRAMPOLINE = 0x3FFFFFF000"
  by (simp add: TRAMPOLINE_def MAXVA_val PGSIZE_def)

lemma TRAPFRAME_val: "TRAPFRAME = 0x3FFFFFE000"
  by (simp add: TRAPFRAME_def TRAMPOLINE_val PGSIZE_def)

lemma PHYSTOP_val: "PHYSTOP = 0x88000000"
  by (simp add: PHYSTOP_def KERNBASE_def)

lemmas layout_vals = MAXVA_val TRAMPOLINE_val TRAPFRAME_val PHYSTOP_val PGSIZE_def

section \<open>Control and status registers\<close>

text \<open>
  One hart's registers.  \<open>time\<close> and \<open>mhartid\<close> are only read by the kernel, \<open>scause\<close>,
  \<open>stval\<close> and \<open>sip\<close> are set by the hardware.  \<open>tp\<close> is the thread pointer, in which xv6 keeps
  the hart number.
\<close>

record csrs =
  csr_mhartid :: uint64
  csr_mstatus :: uint64
  csr_mepc :: uint64
  csr_sstatus :: uint64
  csr_sip :: uint64
  csr_sie :: uint64
  csr_mie :: uint64
  csr_sepc :: uint64
  csr_medeleg :: uint64
  csr_mideleg :: uint64
  csr_stvec :: uint64
  csr_stimecmp :: uint64
  csr_menvcfg :: uint64
  csr_pmpcfg0 :: uint64
  csr_pmpaddr0 :: uint64
  csr_satp :: uint64
  csr_scause :: uint64
  csr_stval :: uint64
  csr_mcounteren :: uint64
  csr_time :: uint64
  csr_tp :: uint64

definition r_mhartid :: "csrs \<Rightarrow> uint64" where "r_mhartid c = csr_mhartid c"
definition r_mstatus :: "csrs \<Rightarrow> uint64" where "r_mstatus c = csr_mstatus c"
definition w_mstatus :: "uint64 \<Rightarrow> csrs \<Rightarrow> csrs" where "w_mstatus x c = c\<lparr>csr_mstatus := x\<rparr>"
definition w_mepc :: "uint64 \<Rightarrow> csrs \<Rightarrow> csrs" where "w_mepc x c = c\<lparr>csr_mepc := x\<rparr>"
definition r_sstatus :: "csrs \<Rightarrow> uint64" where "r_sstatus c = csr_sstatus c"
definition w_sstatus :: "uint64 \<Rightarrow> csrs \<Rightarrow> csrs" where "w_sstatus x c = c\<lparr>csr_sstatus := x\<rparr>"
definition r_sip :: "csrs \<Rightarrow> uint64" where "r_sip c = csr_sip c"
definition w_sip :: "uint64 \<Rightarrow> csrs \<Rightarrow> csrs" where "w_sip x c = c\<lparr>csr_sip := x\<rparr>"
definition r_sie :: "csrs \<Rightarrow> uint64" where "r_sie c = csr_sie c"
definition w_sie :: "uint64 \<Rightarrow> csrs \<Rightarrow> csrs" where "w_sie x c = c\<lparr>csr_sie := x\<rparr>"
definition r_mie :: "csrs \<Rightarrow> uint64" where "r_mie c = csr_mie c"
definition w_mie :: "uint64 \<Rightarrow> csrs \<Rightarrow> csrs" where "w_mie x c = c\<lparr>csr_mie := x\<rparr>"
definition r_sepc :: "csrs \<Rightarrow> uint64" where "r_sepc c = csr_sepc c"
definition w_sepc :: "uint64 \<Rightarrow> csrs \<Rightarrow> csrs" where "w_sepc x c = c\<lparr>csr_sepc := x\<rparr>"
definition r_medeleg :: "csrs \<Rightarrow> uint64" where "r_medeleg c = csr_medeleg c"
definition w_medeleg :: "uint64 \<Rightarrow> csrs \<Rightarrow> csrs" where "w_medeleg x c = c\<lparr>csr_medeleg := x\<rparr>"
definition r_mideleg :: "csrs \<Rightarrow> uint64" where "r_mideleg c = csr_mideleg c"
definition w_mideleg :: "uint64 \<Rightarrow> csrs \<Rightarrow> csrs" where "w_mideleg x c = c\<lparr>csr_mideleg := x\<rparr>"
definition r_stvec :: "csrs \<Rightarrow> uint64" where "r_stvec c = csr_stvec c"
definition w_stvec :: "uint64 \<Rightarrow> csrs \<Rightarrow> csrs" where "w_stvec x c = c\<lparr>csr_stvec := x\<rparr>"
definition r_stimecmp :: "csrs \<Rightarrow> uint64" where "r_stimecmp c = csr_stimecmp c"
definition w_stimecmp :: "uint64 \<Rightarrow> csrs \<Rightarrow> csrs" where "w_stimecmp x c = c\<lparr>csr_stimecmp := x\<rparr>"
definition r_menvcfg :: "csrs \<Rightarrow> uint64" where "r_menvcfg c = csr_menvcfg c"
definition w_menvcfg :: "uint64 \<Rightarrow> csrs \<Rightarrow> csrs" where "w_menvcfg x c = c\<lparr>csr_menvcfg := x\<rparr>"
definition w_pmpcfg0 :: "uint64 \<Rightarrow> csrs \<Rightarrow> csrs" where "w_pmpcfg0 x c = c\<lparr>csr_pmpcfg0 := x\<rparr>"
definition w_pmpaddr0 :: "uint64 \<Rightarrow> csrs \<Rightarrow> csrs" where "w_pmpaddr0 x c = c\<lparr>csr_pmpaddr0 := x\<rparr>"
definition r_satp :: "csrs \<Rightarrow> uint64" where "r_satp c = csr_satp c"
definition w_satp :: "uint64 \<Rightarrow> csrs \<Rightarrow> csrs" where "w_satp x c = c\<lparr>csr_satp := x\<rparr>"
definition r_scause :: "csrs \<Rightarrow> uint64" where "r_scause c = csr_scause c"
definition r_stval :: "csrs \<Rightarrow> uint64" where "r_stval c = csr_stval c"
definition r_mcounteren :: "csrs \<Rightarrow> uint64" where "r_mcounteren c = csr_mcounteren c"
definition w_mcounteren :: "uint64 \<Rightarrow> csrs \<Rightarrow> csrs" where "w_mcounteren x c = c\<lparr>csr_mcounteren := x\<rparr>"
definition r_time :: "csrs \<Rightarrow> uint64" where "r_time c = csr_time c"
definition r_tp :: "csrs \<Rightarrow> uint64" where "r_tp c = csr_tp c"
definition w_tp :: "uint64 \<Rightarrow> csrs \<Rightarrow> csrs" where "w_tp x c = c\<lparr>csr_tp := x\<rparr>"

lemmas csr_defs =
  r_mhartid_def r_mstatus_def w_mstatus_def w_mepc_def r_sstatus_def
  w_sstatus_def r_sip_def w_sip_def r_sie_def w_sie_def
  r_mie_def w_mie_def r_sepc_def w_sepc_def r_medeleg_def
  w_medeleg_def r_mideleg_def w_mideleg_def r_stvec_def w_stvec_def
  r_stimecmp_def w_stimecmp_def r_menvcfg_def w_menvcfg_def w_pmpcfg0_def
  w_pmpaddr0_def r_satp_def w_satp_def r_scause_def r_stval_def
  r_mcounteren_def w_mcounteren_def r_time_def r_tp_def w_tp_def

definition MSTATUS_MPP_MASK :: uint64 where "MSTATUS_MPP_MASK = push_bit 11 3"
definition MSTATUS_MPP_S :: uint64 where "MSTATUS_MPP_S = push_bit 11 1"
definition SSTATUS_SPP :: uint64 where "SSTATUS_SPP = push_bit 8 1"
definition SSTATUS_SPIE :: uint64 where "SSTATUS_SPIE = push_bit 5 1"
definition SSTATUS_SIE :: uint64 where "SSTATUS_SIE = push_bit 1 1"
definition SIE_SEIE :: uint64 where "SIE_SEIE = push_bit 9 1"
definition SIE_STIE :: uint64 where "SIE_STIE = push_bit 5 1"
definition MIE_STIE :: uint64 where "MIE_STIE = push_bit 5 1"

lemmas status_bits =
  MSTATUS_MPP_MASK_def MSTATUS_MPP_S_def SSTATUS_SPP_def SSTATUS_SPIE_def SSTATUS_SIE_def
  SIE_SEIE_def SIE_STIE_def MIE_STIE_def

definition intr_on :: "csrs \<Rightarrow> csrs" where
  "intr_on c = w_sstatus (r_sstatus c OR SSTATUS_SIE) c"

definition intr_off :: "csrs \<Rightarrow> csrs" where
  "intr_off c = w_sstatus (r_sstatus c AND NOT SSTATUS_SIE) c"

definition intr_get :: "csrs \<Rightarrow> bool" where
  "intr_get c \<longleftrightarrow> r_sstatus c AND SSTATUS_SIE \<noteq> 0"

lemma and_push_bit_1: "w AND push_bit n 1 \<noteq> 0 \<longleftrightarrow> bit w n"
  for w :: "'a::len word"
proof -
  have "w AND push_bit n 1 = (if bit w n then push_bit n 1 else 0)"
    by (rule bit_word_eqI) (auto simp: bit_simps)
  moreover have "push_bit n 1 \<noteq> (0 :: 'a word)" if "bit w n"
  proof
    assume "push_bit n 1 = (0 :: 'a word)"
    then show False using bit_imp_le_length [OF that] by simp
  qed
  ultimately show ?thesis by auto
qed

lemma intr_get_bit: "intr_get c \<longleftrightarrow> bit (csr_sstatus c) 1"
  by (simp only: intr_get_def r_sstatus_def SSTATUS_SIE_def and_push_bit_1)

lemma intr_get_on [simp]: "intr_get (intr_on c)"
  by (simp add: intr_get_bit intr_on_def w_sstatus_def SSTATUS_SIE_def bit_simps)

lemma intr_get_off [simp]: "\<not> intr_get (intr_off c)"
  by (simp add: intr_get_bit intr_off_def w_sstatus_def SSTATUS_SIE_def bit_simps)

section \<open>Arithmetic of the page macros\<close>

lemma mask12: "PGSIZE - 1 = mask 12"
  by (simp add: PGSIZE_def mask_eq_exp_minus_1)

lemma unat_PGROUNDDOWN: "unat (PGROUNDDOWN a) = unat a - unat a mod 4096"
  unfolding PGROUNDDOWN_def mask12 unat_and_not_mask by simp

lemma PGROUNDDOWN_le: "PGROUNDDOWN a \<le> a"
  unfolding PGROUNDDOWN_def by (rule word_and_le2)

lemma PGROUNDDOWN_aligned [simp]: "unat (PGROUNDDOWN a) mod 4096 = 0"
  by (simp add: unat_PGROUNDDOWN)

lemma PGROUNDDOWN_id: "unat a mod 4096 = 0 \<Longrightarrow> PGROUNDDOWN a = a"
  by (simp add: word_unat_eq_iff unat_PGROUNDDOWN)

lemma unat_PGROUNDUP:
  assumes "unat sz + 4095 < 2 ^ 64"
  shows "unat (PGROUNDUP sz) = (unat sz + 4095) div 4096 * 4096"
proof -
  have e: "sz + PGSIZE - 1 = sz + 4095"
    by (simp add: PGSIZE_def)
  have u: "unat (sz + 4095) = unat sz + 4095"
    using assms by (subst unat_add_lt) simp_all
  have "unat (PGROUNDUP sz) = unat sz + 4095 - (unat sz + 4095) mod 2 ^ 12"
    unfolding PGROUNDUP_def mask12 unat_and_not_mask e u ..
  then show ?thesis by (simp add: minus_mod_eq_div_mult)
qed

lemma PGROUNDUP_0 [simp]: "PGROUNDUP 0 = 0"
  by (simp add: PGROUNDUP_def PGSIZE_def)

lemma unat_PX: "unat (PX l va) = unat va div 2 ^ (12 + 9 * l) mod 512"
proof -
  have m: "PXMASK = mask 9" by (simp add: PXMASK_def mask_eq_exp_minus_1)
  have "unat (PX l va) = unat (drop_bit (12 + 9 * l) va) mod 2 ^ 9"
    by (simp only: PX_def PXSHIFT_def PGSHIFT_def m unat_and_mask)
  also have "unat (drop_bit (12 + 9 * l) va) = drop_bit (12 + 9 * l) (unat va)"
    by (rule unat_drop_bit_eq)
  finally show ?thesis by (simp add: drop_bit_eq_div)
qed

lemma unat_PX_lt [simp]: "unat (PX l va) < 512"
  by (simp add: unat_PX)

text \<open>Below \<open>MAXVA\<close> the three indices determine the page.\<close>

lemma PX_inj:
  assumes "va < MAXVA" "vb < MAXVA"
    and "PX 0 va = PX 0 vb" "PX 1 va = PX 1 vb" "PX 2 va = PX 2 vb"
  shows "unat va div 4096 = unat vb div 4096"
proof -
  define a b where "a = unat va div 4096" and "b = unat vb div 4096"
  have lt: "a < 2 ^ 26" "b < 2 ^ 26"
    using assms(1,2) by (auto simp: a_def b_def MAXVA_val word_less_nat_alt)
  have split: "x div 2 ^ 21 = x div 4096 div 512" "x div 2 ^ 30 = x div 4096 div 512 div 512"
    for x :: nat
    by (simp_all flip: div_mult2_eq)
  have "unat (PX 0 va) = a mod 512" "unat (PX 0 vb) = b mod 512"
    "unat (PX 1 va) = a div 512 mod 512" "unat (PX 1 vb) = b div 512 mod 512"
    "unat (PX 2 va) = a div 512 div 512 mod 512" "unat (PX 2 vb) = b div 512 div 512 mod 512"
    unfolding unat_PX a_def b_def by (simp_all add: split [simplified])
  then have eq: "a mod 512 = b mod 512" "a div 512 mod 512 = b div 512 mod 512"
    "a div 512 div 512 mod 512 = b div 512 div 512 mod 512"
    using assms(3-5) by metis+
  have "a div 512 div 512 < 512" "b div 512 div 512 < 512"
    using lt by (simp_all flip: div_mult2_eq add: less_mult_imp_div_less)
  then have "a div 512 div 512 = b div 512 div 512"
    using eq(3) by simp
  then have "a div 512 = b div 512" by (rule div_mod_eqI [OF _ eq(2)])
  then have "a = b" by (rule div_mod_eqI [OF _ eq(1)])
  then show ?thesis by (simp add: a_def b_def)
qed

lemma PTE_FLAGS_mask: "PTE_FLAGS pte = pte AND mask 10"
  by (simp add: PTE_FLAGS_def mask_eq_exp_minus_1)

lemma aligned_bits: "unat (pa :: uint64) mod 4096 = 0 \<Longrightarrow> n < 12 \<Longrightarrow> \<not> bit pa n"
proof -
  assume "unat pa mod 4096 = 0" and n: "n < 12"
  then have "pa AND mask 12 = 0"
    by (simp add: word_unat_eq_iff unat_and_mask)
  then have "\<not> bit (pa AND mask 12) n" by simp
  then show ?thesis using n by (simp add: bit_simps)
qed

lemma small_bits: "f < 1024 \<Longrightarrow> bit (f :: uint64) n \<Longrightarrow> n < 10"
proof (rule ccontr)
  assume f: "f < 1024" and b: "bit f n" and "\<not> n < 10"
  then have "2 ^ 10 \<le> (2::nat) ^ n" by (intro power_increasing) auto
  moreover have "2 ^ n \<le> unat f"
  proof (rule ccontr)
    assume "\<not> 2 ^ n \<le> unat f"
    then have "unat f div 2 ^ n = 0" by simp
    moreover have "odd (unat f div 2 ^ n)"
      using b by (simp add: bit_iff_odd [symmetric] bit_unsigned_iff)
    ultimately show False by simp
  qed
  ultimately show False using f by (simp add: word_less_nat_alt)
qed

lemma PTE2PA_PA2PTE:
  assumes "unat pa mod 4096 = 0" "f < 1024"
  shows "PTE2PA (PA2PTE pa OR f) = pa"
proof (rule bit_word_eqI)
  fix n assume "n < LENGTH(64)"
  then show "bit (PTE2PA (PA2PTE pa OR f)) n = bit pa n"
    using aligned_bits [OF assms(1), of n] small_bits [OF assms(2), of "10 + (n - 12)"]
    by (cases "n < 12") (auto simp: PTE2PA_def PA2PTE_def bit_simps)
qed

lemma PTE_FLAGS_PA2PTE: "f < 1024 \<Longrightarrow> PTE_FLAGS (PA2PTE pa OR f) = f"
  by (rule bit_word_eqI) (auto simp: PTE_FLAGS_mask PA2PTE_def bit_simps dest: small_bits)

lemma PTE2PA_aligned [simp]: "unat (PTE2PA pte) mod 4096 = 0"
proof -
  have "PTE2PA pte AND mask 12 = 0"
    by (rule bit_word_eqI) (auto simp: PTE2PA_def bit_simps)
  then have "unat (PTE2PA pte) mod 2 ^ 12 = 0" by (simp only: unat_and_mask [symmetric] unsigned_0)
  then show ?thesis by simp
qed

text \<open>The kernel stacks lie below the trapframe page, two pages apart.\<close>

lemma unat_KSTACK:
  assumes "p < NPROC"
  shows "unat (KSTACK p) = 0x3FFFFFF000 - 8192 * (p + 1)"
proof -
  define k :: uint64 where "k = of_nat (8192 * (p + 1))"
  have u: "unat k = 8192 * (p + 1)"
    unfolding k_def using assms by (simp add: NPROC_def unat_of_nat del: of_nat_mult of_nat_add)
  then have "k \<le> TRAMPOLINE"
    using assms by (simp add: word_le_nat_alt TRAMPOLINE_val NPROC_def)
  moreover have "KSTACK p = TRAMPOLINE - k"
    by (simp add: KSTACK_def k_def PGSIZE_def algebra_simps)
  ultimately show ?thesis
    by (simp add: unat_sub_le u TRAMPOLINE_val)
qed

lemma KSTACK_guarded:
  assumes "p < NPROC" "q < NPROC" "p \<noteq> q"
  shows "unat (KSTACK p) + 8192 \<le> unat (KSTACK q) \<or> unat (KSTACK q) + 8192 \<le> unat (KSTACK p)"
  using assms by (auto simp: unat_KSTACK NPROC_def)

end
