(* ===== verification/Strings.thy ===== *)
theory Strings
  imports Prelude
begin

text \<open>
  The kernel's byte and string routines (\<^verbatim>\<open>kernel/string.c\<close>), each loop translated over
  physical memory: pointers are addresses, \<open>*p\<close> is the byte at \<open>p\<close>.  The lemmas relate every
  loop to what it computes: \<open>memset\<close> and \<open>memmove\<close> to one write of a byte list (also when the
  two areas overlap), \<open>memcmp\<close> and \<open>strncmp\<close> to equality of the compared bytes, \<open>strncpy\<close> and
  \<open>safestrcpy\<close> to the padded or cut string they leave.  The contract of a move is the locale
  \<open>byte_mover\<close>, which the kernel's and the user library's \<open>memmove\<close> both satisfy.
\<close>

section \<open>The routines\<close>

fun memset_loop :: "pmem \<Rightarrow> nat \<Rightarrow> byte \<Rightarrow> nat \<Rightarrow> nat \<Rightarrow> pmem" where
  "memset_loop m cdst c i 0 = m"
| "memset_loop m cdst c i (Suc left) = memset_loop (m(cdst + i := c)) cdst c (i + 1) left"

definition memset :: "pmem \<Rightarrow> nat \<Rightarrow> uint \<Rightarrow> nat \<Rightarrow> pmem" where
  "memset m dst c n = memset_loop m dst (ucast c) 0 n"

fun memcmp :: "pmem \<Rightarrow> nat \<Rightarrow> nat \<Rightarrow> nat \<Rightarrow> int" where
  "memcmp m s1 s2 0 = 0"
| "memcmp m s1 s2 (Suc n) =
     (if m s1 \<noteq> m s2 then int (unat (m s1)) - int (unat (m s2))
      else memcmp m (s1 + 1) (s2 + 1) n)"

fun copy_up :: "pmem \<Rightarrow> nat \<Rightarrow> nat \<Rightarrow> nat \<Rightarrow> pmem" where
  "copy_up m d s 0 = m"
| "copy_up m d s (Suc n) = copy_up (m(d := m s)) (d + 1) (s + 1) n"

fun copy_down :: "pmem \<Rightarrow> nat \<Rightarrow> nat \<Rightarrow> nat \<Rightarrow> pmem" where
  "copy_down m d s 0 = m"
| "copy_down m d s (Suc n) = copy_down (m(d - 1 := m (s - 1))) (d - 1) (s - 1) n"

definition memmove :: "pmem \<Rightarrow> nat \<Rightarrow> nat \<Rightarrow> nat \<Rightarrow> pmem" where
  "memmove m dst src n =
     (if n = 0 then m
      else if src < dst \<and> src + n > dst then copy_down m (dst + n) (src + n) n
      else copy_up m dst src n)"

definition memcpy :: "pmem \<Rightarrow> nat \<Rightarrow> nat \<Rightarrow> nat \<Rightarrow> pmem" where
  "memcpy m dst src n = memmove m dst src n"

fun strncmp :: "pmem \<Rightarrow> nat \<Rightarrow> nat \<Rightarrow> nat \<Rightarrow> int" where
  "strncmp m p q 0 = 0"
| "strncmp m p q (Suc n) =
     (if m p \<noteq> 0 \<and> m p = m q then strncmp m (p + 1) (q + 1) n
      else int (unat (m p)) - int (unat (m q)))"

fun zero_fill :: "pmem \<Rightarrow> nat \<Rightarrow> nat \<Rightarrow> pmem" where
  "zero_fill m s 0 = m"
| "zero_fill m s (Suc n) = zero_fill (m(s := 0)) (s + 1) n"

fun strncpy_loop :: "pmem \<Rightarrow> nat \<Rightarrow> nat \<Rightarrow> nat \<Rightarrow> pmem" where
  "strncpy_loop m s t 0 = m"
| "strncpy_loop m s t (Suc n) =
     (let c = m t; m1 = m(s := c) in
      if c \<noteq> 0 then strncpy_loop m1 (s + 1) (t + 1) n else zero_fill m1 (s + 1) n)"

definition strncpy :: "pmem \<Rightarrow> nat \<Rightarrow> nat \<Rightarrow> int \<Rightarrow> pmem" where
  "strncpy m s t n = strncpy_loop m s t (nat n)"

text \<open>\<open>k\<close> is the value of \<open>n\<close> after the decrement in the loop test of \<open>safestrcpy\<close>.\<close>

fun safestrcpy_loop :: "pmem \<Rightarrow> nat \<Rightarrow> nat \<Rightarrow> nat \<Rightarrow> pmem" where
  "safestrcpy_loop m s t 0 = m(s := 0)"
| "safestrcpy_loop m s t (Suc k) =
     (let c = m t; m1 = m(s := c) in
      if c \<noteq> 0 then safestrcpy_loop m1 (s + 1) (t + 1) k else m1(s + 1 := 0))"

definition safestrcpy :: "pmem \<Rightarrow> nat \<Rightarrow> nat \<Rightarrow> int \<Rightarrow> pmem" where
  "safestrcpy m s t n = (if n \<le> 0 then m else safestrcpy_loop m s t (nat (n - 1)))"

partial_function (option) strlen_from :: "pmem \<Rightarrow> nat \<Rightarrow> nat \<Rightarrow> nat option" where
  "strlen_from m s n = (if m (s + n) = 0 then Some n else strlen_from m s (n + 1))"

definition strlen :: "pmem \<Rightarrow> nat \<Rightarrow> nat option" where
  "strlen m s = strlen_from m s 0"

section \<open>C strings in byte lists\<close>

text \<open>\<open>cstr bs\<close> is the string held by an array: its bytes up to the first NUL.\<close>

definition cstr :: "byte list \<Rightarrow> byte list" where
  "cstr bs = takeWhile (\<lambda>b. b \<noteq> 0) bs"

lemma cstr_Nil [simp]: "cstr [] = []"
  by (simp add: cstr_def)

lemma cstr_Cons [simp]: "cstr (b # bs) = (if b = 0 then [] else b # cstr bs)"
  by (simp add: cstr_def)

lemma cstr_no_zero: "0 \<notin> set (cstr bs)"
  unfolding cstr_def by (metis (full_types) set_takeWhileD)

lemma length_cstr_le: "length (cstr bs) \<le> length bs"
  by (simp add: cstr_def length_takeWhile_le)

lemma cstr_id: "0 \<notin> set bs \<Longrightarrow> cstr bs = bs"
  unfolding cstr_def by (subst takeWhile_eq_all_conv) auto

lemma cstr_append_zero [simp]: "0 \<notin> set bs \<Longrightarrow> cstr (bs @ 0 # cs) = bs"
  by (induction bs) auto

lemma cstr_append_replicate: "0 \<notin> set bs \<Longrightarrow> cstr (bs @ replicate k 0) = bs"
  by (cases k) (auto simp: cstr_id)

section \<open>The loops and what they compute\<close>

lemma wr_Cons: "wr m a (b # bs) = wr (m(a := b)) (a + 1) bs"
  by (auto simp: wr_def fun_eq_iff nth_Cons')

lemma rd_Suc: "rd m a (Suc n) = m a # rd m (a + 1) n"
  by (simp add: rd_def upt_conv_Cons map_Suc_upt [symmetric] del: upt_Suc)

lemma rd_Suc_snoc: "rd m a (Suc n) = rd m a n @ [m (a + n)]"
  by (simp add: rd_def)

lemma memset_loop_wr: "memset_loop m d c i n = wr m (d + i) (replicate n c)"
  by (induction n arbitrary: m i) (auto simp: wr_Cons add.assoc)

lemma memset_wr [bytes_simps]: "memset m d c n = wr m d (replicate n (ucast c))"
  by (simp add: memset_def memset_loop_wr)

lemma copy_up_wr: "d \<le> s \<or> s + n \<le> d \<Longrightarrow> copy_up m d s n = wr m d (rd m s n)"
proof (induction n arbitrary: m d s)
  case 0
  then show ?case by (simp add: rd_def)
next
  case (Suc n)
  define m1 where "m1 = m(d := m s)"
  have "rd m1 (s + 1) n = rd m (s + 1) n"
    using Suc.prems unfolding m1_def by (intro rd_eqI) auto
  moreover have "d + 1 \<le> s + 1 \<or> s + 1 + n \<le> d + 1" using Suc.prems by auto
  ultimately have "copy_up m1 (d + 1) (s + 1) n = wr m1 (d + 1) (rd m (s + 1) n)"
    using Suc.IH [of "d + 1" "s + 1" m1] by simp
  then show ?case by (simp add: rd_Suc wr_Cons m1_def)
qed

lemma copy_down_wr: "s \<le> d \<Longrightarrow> copy_down m (d + n) (s + n) n = wr m d (rd m s n)"
proof (induction n arbitrary: m)
  case 0
  then show ?case by (simp add: rd_def)
next
  case (Suc n)
  define m1 where "m1 = m(d + n := m (s + n))"
  have "rd m1 s n = rd m s n" using Suc.prems unfolding m1_def by (intro rd_eqI) auto
  then have "copy_down m1 (d + n) (s + n) n = wr m1 d (rd m s n)"
    using Suc.IH [OF Suc.prems, of m1] by simp
  then have "copy_down m (d + Suc n) (s + Suc n) (Suc n) = wr m1 d (rd m s n)"
    by (simp add: m1_def)
  also have "\<dots> = wr m d (rd m s n @ [m (s + n)])"
    by (auto simp: wr_def fun_eq_iff nth_append m1_def)
  finally show ?case by (simp only: rd_Suc_snoc)
qed

text \<open>The contract of a routine that moves \<open>n\<close> bytes from \<open>s\<close> to \<open>d\<close>.\<close>

locale byte_mover =
  fixes mover :: "pmem \<Rightarrow> nat \<Rightarrow> nat \<Rightarrow> nat \<Rightarrow> pmem"
  assumes mover_wr: "mover m d s n = wr m d (rd m s n)"
begin

lemma mover_dest: "rd (mover m d s n) d n = rd m s n"
  by (simp add: mover_wr rd_wr_same)

lemma mover_frame: "x < d \<or> d + n \<le> x \<Longrightarrow> mover m d s n x = m x"
  by (simp add: mover_wr wr_other)

lemma mover_self: "mover m d d n = m"
  by (simp add: mover_wr)

lemma mover_back: "d + n \<le> s \<or> s + n \<le> d \<Longrightarrow> mover (mover m d s n) s d n = mover m d s n"
  by (metis mover_wr rd_wr_same rd_wr_disj wr_rd_id length_rd)

end

interpretation kmove: byte_mover memmove
  by unfold_locales (auto simp: memmove_def copy_up_wr copy_down_wr rd_def)

interpretation kcpy: byte_mover memcpy
  by unfold_locales (simp add: memcpy_def kmove.mover_wr)

lemma byte_uint_eq: "uint (a :: byte) = uint b \<Longrightarrow> a = b"
  by (simp add: word_uint_eq_iff)

lemma byte_uint_0: "uint (a :: byte) = 0 \<Longrightarrow> a = 0"
  by (simp add: word_uint_eq_iff)

lemma memcmp_0_iff: "memcmp m p q n = 0 \<longleftrightarrow> rd m p n = rd m q n"
proof (induction n arbitrary: p q)
  case 0
  then show ?case by (simp add: rd_def)
next
  case (Suc n)
  then show ?case by (auto simp: rd_Suc dest: byte_uint_eq)
qed

lemma strncmp_0_iff: "strncmp m p q n = 0 \<longleftrightarrow> cstr (rd m p n) = cstr (rd m q n)"
proof (induction n arbitrary: p q)
  case 0
  then show ?case by (simp add: rd_def)
next
  case (Suc n)
  then show ?case by (auto simp: rd_Suc dest: byte_uint_0 byte_uint_eq)
qed

lemma zero_fill_wr: "zero_fill m s n = wr m s (replicate n 0)"
  by (induction n arbitrary: m s) (auto simp: wr_Cons)

text \<open>\<open>strncpy\<close> leaves the string and pads the rest of the field with NULs.\<close>

definition padded :: "byte list \<Rightarrow> nat \<Rightarrow> byte list" where
  "padded bs n = cstr (take n bs) @ replicate (n - length (cstr (take n bs))) 0"

lemma length_padded [simp]: "length (padded bs n) = n"
  using length_cstr_le [of "take n bs"] by (simp add: padded_def)

lemma cstr_padded [simp]: "cstr (padded bs n) = cstr (take n bs)"
  by (simp add: padded_def cstr_append_replicate cstr_no_zero)

lemma strncpy_loop_wr:
  "s + n \<le> t \<or> t + n \<le> s \<Longrightarrow> strncpy_loop m s t n = wr m s (padded (rd m t n) n)"
proof (induction n arbitrary: m s t)
  case 0
  then show ?case by (simp add: padded_def)
next
  case (Suc n)
  show ?case
  proof (cases "m t = 0")
    case True
    then show ?thesis by (simp add: rd_Suc padded_def zero_fill_wr wr_Cons)
  next
    case False
    define m1 where "m1 = m(s := m t)"
    have "rd m1 (t + 1) n = rd m (t + 1) n"
      using Suc.prems unfolding m1_def by (intro rd_eqI) auto
    moreover have "s + 1 + n \<le> t + 1 \<or> t + 1 + n \<le> s + 1" using Suc.prems by auto
    ultimately have "strncpy_loop m1 (s + 1) (t + 1) n = wr m1 (s + 1) (padded (rd m (t + 1) n) n)"
      using Suc.IH [of "s + 1" "t + 1" m1] by simp
    then show ?thesis
      using False by (simp add: rd_Suc padded_def wr_Cons m1_def)
  qed
qed

lemma strlen_from_le:
  assumes "m (s + k) = 0" "\<forall>j. n \<le> j \<and> j < k \<longrightarrow> m (s + j) \<noteq> 0" "n \<le> k"
  shows "strlen_from m s n = Some k"
  using assms(3,2)
proof (induction "k - n" arbitrary: n)
  case 0
  then show ?case using assms(1) by (simp add: strlen_from.simps)
next
  case (Suc d)
  then have "m (s + n) \<noteq> 0" by simp
  moreover have "strlen_from m s (n + 1) = Some k" using Suc by (intro Suc.hyps) auto
  ultimately show ?case by (subst strlen_from.simps) simp
qed

lemma safestrcpy_loop_spec:
  assumes "s + k + 1 \<le> t \<or> t + k \<le> s"
  shows "cstr (rd (safestrcpy_loop m s t k) s (k + 1)) = cstr (rd m t k)"
    and "x < s \<or> s + k + 1 \<le> x \<Longrightarrow> safestrcpy_loop m s t k x = m x"
    and "\<exists>j \<le> k. safestrcpy_loop m s t k (s + j) = 0"
proof -
  have "cstr (rd (safestrcpy_loop m s t k) s (k + 1)) = cstr (rd m t k) \<and>
    (\<forall>x. x < s \<or> s + k + 1 \<le> x \<longrightarrow> safestrcpy_loop m s t k x = m x) \<and>
    (\<exists>j \<le> k. safestrcpy_loop m s t k (s + j) = 0)"
    using assms
  proof (induction k arbitrary: m s t)
    case 0
    then show ?case by (simp add: rd_def)
  next
    case (Suc k)
    define m1 where "m1 = m(s := m t)"
    show ?case
    proof (cases "m t = 0")
      case True
      then show ?thesis by (auto simp: rd_Suc)
    next
      case False
      have disj: "s + 1 + k + 1 \<le> t + 1 \<or> t + 1 + k \<le> s + 1" using Suc.prems by auto
      have rd: "rd m1 (t + 1) k = rd m (t + 1) k"
        using Suc.prems unfolding m1_def by (intro rd_eqI) auto
      note IH = Suc.IH [OF disj, of m1]
      let ?r = "safestrcpy_loop m1 (s + 1) (t + 1) k"
      have step: "safestrcpy_loop m s t (Suc k) = ?r" using False by (simp add: m1_def)
      have "?r s = m1 s" using IH by simp
      then have s: "?r s = m t" by (simp add: m1_def)
      obtain j where "j \<le> k" "?r (s + 1 + j) = 0"
        using IH by blast
      then have ex: "\<exists>j \<le> Suc k. ?r (s + j) = 0"
        by (intro exI [of _ "Suc j"]) simp
      have fr: "?r x = m x" if "x < s \<or> s + Suc k + 1 \<le> x" for x
      proof -
        have "?r x = m1 x" using IH that by auto
        then show ?thesis using that by (auto simp: m1_def)
      qed
      have "cstr (rd ?r s (Suc k + 1)) = cstr (rd m t (Suc k))"
        using IH False s rd by (simp add: rd_Suc)
      then show ?thesis unfolding step using fr ex by blast
    qed
  qed
  then show "cstr (rd (safestrcpy_loop m s t k) s (k + 1)) = cstr (rd m t k)"
    and "x < s \<or> s + k + 1 \<le> x \<Longrightarrow> safestrcpy_loop m s t k x = m x"
    and "\<exists>j \<le> k. safestrcpy_loop m s t k (s + j) = 0" by auto
qed

text \<open>Two local arrays laid out one after the other, for routines called on stack buffers.\<close>

definition two_arrays :: "byte list \<Rightarrow> byte list \<Rightarrow> pmem" where
  "two_arrays s t = wr (wr (\<lambda>_. 0) 0 s) (length s) t"

lemma two_arrays_rd:
  assumes "n \<le> length s" "n \<le> length t"
  shows "rd (two_arrays s t) 0 n = take n s" "rd (two_arrays s t) (length s) n = take n t"
  using assms by (auto intro!: nth_equalityI simp: two_arrays_def wr_def)

section \<open>Properties\<close>

text \<open>C32: \<open>memmove\<close> is right for every overlap of source and destination: the memory it leaves is the
  old one with the destination range holding the bytes the source range held before the call, and
  nothing else changed.\<close>

theorem memmove_correct: "memmove m d s n = wr m d (rd m s n)"
  by (rule kmove.mover_wr)

text \<open>C33: \<open>safestrcpy\<close> with \<open>n > 0\<close> always leaves a NUL-terminated string inside the \<open>n\<close> bytes of the
  destination, that string is the source string cut to \<open>n - 1\<close> bytes, and no byte outside the
  destination changes.\<close>

theorem safestrcpy_terminates_and_bounds:
  assumes "0 < n" "s + nat n \<le> t \<or> t + nat n \<le> s"
  shows "cstr (rd (safestrcpy m s t n) s (nat n)) = cstr (rd m t (nat n - 1))
    \<and> 0 \<in> set (rd (safestrcpy m s t n) s (nat n))
    \<and> (\<forall>x. x < s \<or> s + nat n \<le> x \<longrightarrow> safestrcpy m s t n x = m x)"
proof -
  define k where "k = nat n - 1"
  have n: "nat n = k + 1" using assms(1) by (simp add: k_def)
  have disj: "s + k + 1 \<le> t \<or> t + k + 1 \<le> s" using assms(2) n by auto
  have def: "safestrcpy m s t n = safestrcpy_loop m s t k"
    using assms(1) by (simp add: safestrcpy_def k_def nat_diff_distrib)
  have disj': "s + k + 1 \<le> t \<or> t + k \<le> s" using disj by auto
  note spec = safestrcpy_loop_spec [OF disj', where m = m]
  obtain j where j: "j \<le> k" "safestrcpy_loop m s t k (s + j) = 0"
    using spec(3) by auto
  then have "0 \<in> set (rd (safestrcpy_loop m s t k) s (k + 1))"
    by (force simp: rd_def image_iff simp del: upt_Suc intro!: bexI [of _ j])
  then show ?thesis using spec(1,2) unfolding def n by auto
qed

theorem safestrcpy_terminates_and_bounds_witness:
  "cstr (rd (safestrcpy (two_arrays [9,9,9] [104,105,106,0]) 0 3 3) 0 3) = [104,105]"
proof -
  have "rd (two_arrays [9,9,9] [104,105,106,0]) 3 2 = [104,105]"
    using two_arrays_rd(2) [of 2 "[9,9,9]" "[104,105,106,0]"]
    by (simp add: eval_nat_numeral)
  then show ?thesis
    using safestrcpy_terminates_and_bounds [of 3 0 3 "two_arrays [9,9,9] [104,105,106,0]"] by simp
qed

end
