(* ===== verification/Spinlock.thy ===== *)
theory Spinlock
  imports Prelude Riscv
begin

text \<open>
  Spin locks and interrupt nesting (\<open>kernel/spinlock.c\<close>, with \<open>struct cpu\<close>, \<open>cpuid\<close> and \<open>mycpu\<close> of
  \<open>kernel/proc.c\<close>), on a machine of several harts.  The type of lock names is a parameter \<open>'l\<close>.
  The routines are cut at their atomic memory accesses, once composed to the sequential \<open>acquire\<close>
  and \<open>release\<close> and once interleaved by a step relation in which every hart runs its own code.
  The lemmas show mutual exclusion, that a lock holder runs with interrupts off, and that the two
  panics can only be provoked by acquiring twice or releasing a lock that is not held.
\<close>

section \<open>Locks, cpus and harts\<close>

record spinlock =
  sl_locked :: uint
  sl_name :: string
  sl_cpu :: "nat option"

record cpu =
  c_proc :: "nat option"
  c_noff :: int
  c_intena :: bool

record 'l smp =
  locks :: "'l \<Rightarrow> spinlock"
  cpus :: "nat \<Rightarrow> cpu"
  harts :: "nat \<Rightarrow> csrs"

definition cpuid :: "nat \<Rightarrow> 'l smp \<Rightarrow> nat" where
  "cpuid h s = unat (r_tp (harts s h))"

definition mycpu :: "nat \<Rightarrow> 'l smp \<Rightarrow> nat" where
  "mycpu h s = cpuid h s"

definition upd_lock :: "'l \<Rightarrow> (spinlock \<Rightarrow> spinlock) \<Rightarrow> 'l smp \<Rightarrow> 'l smp" where
  "upd_lock lk f s = s\<lparr>locks := (locks s)(lk := f (locks s lk))\<rparr>"

definition upd_cpu :: "nat \<Rightarrow> (cpu \<Rightarrow> cpu) \<Rightarrow> 'l smp \<Rightarrow> 'l smp" where
  "upd_cpu c f s = s\<lparr>cpus := (cpus s)(c := f (cpus s c))\<rparr>"

definition upd_hart :: "nat \<Rightarrow> (csrs \<Rightarrow> csrs) \<Rightarrow> 'l smp \<Rightarrow> 'l smp" where
  "upd_hart h f s = s\<lparr>harts := (harts s)(h := f (harts s h))\<rparr>"

lemmas upd_defs = upd_lock_def upd_cpu_def upd_hart_def

section \<open>The routines\<close>

definition initlock :: "'l \<Rightarrow> string \<Rightarrow> 'l smp \<Rightarrow> 'l smp" where
  "initlock lk name s =
     upd_lock lk (\<lambda>l. l\<lparr>sl_name := name, sl_locked := 0, sl_cpu := None\<rparr>) s"

definition holding :: "'l \<Rightarrow> nat \<Rightarrow> 'l smp \<Rightarrow> bool" where
  "holding lk h s \<longleftrightarrow> sl_locked (locks s lk) \<noteq> 0 \<and> sl_cpu (locks s lk) = Some (mycpu h s)"

definition push_off :: "nat \<Rightarrow> 'l smp \<Rightarrow> 'l smp" where
  "push_off h s =
    (let old = intr_get (harts s h);
         s = upd_hart h intr_off s;
         s = (if c_noff (cpus s (mycpu h s)) = 0
              then upd_cpu (mycpu h s) (\<lambda>c. c\<lparr>c_intena := old\<rparr>) s else s)
     in upd_cpu (mycpu h s) (\<lambda>c. c\<lparr>c_noff := c_noff c + 1\<rparr>) s)"

definition pop_off :: "nat \<Rightarrow> 'l smp \<Rightarrow> (unit, 'l smp) res" where
  "pop_off h s =
    (let c = mycpu h s in
     if intr_get (harts s h) then Stop (Panic ''pop_off - interruptible'') s
     else if c_noff (cpus s c) < 1 then Stop (Panic ''pop_off'') s
     else let s = upd_cpu c (\<lambda>c. c\<lparr>c_noff := c_noff c - 1\<rparr>) s in
       if c_noff (cpus s c) = 0 \<and> c_intena (cpus s c)
       then Done () (upd_hart h intr_on s) else Done () s)"

text \<open>The atomic pieces of \<open>acquire\<close>: entry with the deadlock check, the swap, the owner note.\<close>

definition acq_enter :: "'l \<Rightarrow> nat \<Rightarrow> 'l smp \<Rightarrow> (unit, 'l smp) res" where
  "acq_enter lk h s =
    (let s = push_off h s in
     if holding lk h s then Stop (Panic ''acquire'') s else Done () s)"

definition test_and_set :: "'l \<Rightarrow> 'l smp \<Rightarrow> uint \<times> 'l smp" where
  "test_and_set lk s = (sl_locked (locks s lk), upd_lock lk (\<lambda>l. l\<lparr>sl_locked := 1\<rparr>) s)"

definition acq_note :: "'l \<Rightarrow> nat \<Rightarrow> 'l smp \<Rightarrow> 'l smp" where
  "acq_note lk h s = upd_lock lk (\<lambda>l. l\<lparr>sl_cpu := Some (mycpu h s)\<rparr>) s"

text \<open>Run by one hart alone, the spin loop either wins at its first swap or never ends.\<close>

definition acquire :: "'l \<Rightarrow> nat \<Rightarrow> 'l smp \<Rightarrow> (unit, 'l smp) res" where
  "acquire lk h s =
    bnd (acq_enter lk h s) (\<lambda>_ s.
    case test_and_set lk s of (old, s) \<Rightarrow>
      if old \<noteq> 0 then Stop Diverge s else Done () (acq_note lk h s))"

definition rel_enter :: "'l \<Rightarrow> nat \<Rightarrow> 'l smp \<Rightarrow> (unit, 'l smp) res" where
  "rel_enter lk h s =
    (if \<not> holding lk h s then Stop (Panic ''release'') s
     else Done () (upd_lock lk (\<lambda>l. l\<lparr>sl_cpu := None\<rparr>) s))"

definition lock_release :: "'l \<Rightarrow> 'l smp \<Rightarrow> 'l smp" where
  "lock_release lk s = upd_lock lk (\<lambda>l. l\<lparr>sl_locked := 0\<rparr>) s"

definition release :: "'l \<Rightarrow> nat \<Rightarrow> 'l smp \<Rightarrow> (unit, 'l smp) res" where
  "release lk h s = bnd (rel_enter lk h s) (\<lambda>_ s. pop_off h (lock_release lk s))"

section \<open>Harts running together\<close>

text \<open>
  Where each hart is: outside the lock code, spinning, between the winning swap and the owner note,
  between the owner reset and the unlock, between the unlock and \<open>pop_off\<close>.  \<open>owned\<close> records the
  locks a hart has acquired and not begun to release: its critical sections.
\<close>

datatype 'l pc = Run | AcqSpin 'l | AcqSet 'l | RelUnlock 'l | RelPop 'l

record 'l mp =
  mach :: "'l smp"
  pcs :: "nat \<Rightarrow> 'l pc"
  owned :: "nat \<Rightarrow> 'l set"

inductive mp_step :: "'l mp \<Rightarrow> 'l mp \<Rightarrow> bool" where
  acq_call: "\<lbrakk>h < NCPU; pcs s h = Run; acq_enter lk h (mach s) = Done () m\<rbrakk>
    \<Longrightarrow> mp_step s (s\<lparr>mach := m, pcs := (pcs s)(h := AcqSpin lk)\<rparr>)"
| acq_spin: "\<lbrakk>h < NCPU; pcs s h = AcqSpin lk; test_and_set lk (mach s) = (old, m); old \<noteq> 0\<rbrakk>
    \<Longrightarrow> mp_step s (s\<lparr>mach := m\<rparr>)"
| acq_win: "\<lbrakk>h < NCPU; pcs s h = AcqSpin lk; test_and_set lk (mach s) = (old, m); old = 0\<rbrakk>
    \<Longrightarrow> mp_step s (s\<lparr>mach := m, pcs := (pcs s)(h := AcqSet lk)\<rparr>)"
| acq_set: "\<lbrakk>h < NCPU; pcs s h = AcqSet lk\<rbrakk>
    \<Longrightarrow> mp_step s (s\<lparr>mach := acq_note lk h (mach s), pcs := (pcs s)(h := Run),
                      owned := (owned s)(h := insert lk (owned s h))\<rparr>)"
| rel_call: "\<lbrakk>h < NCPU; pcs s h = Run; rel_enter lk h (mach s) = Done () m\<rbrakk>
    \<Longrightarrow> mp_step s (s\<lparr>mach := m, pcs := (pcs s)(h := RelUnlock lk),
                      owned := (owned s)(h := owned s h - {lk})\<rparr>)"
| rel_unlock: "\<lbrakk>h < NCPU; pcs s h = RelUnlock lk\<rbrakk>
    \<Longrightarrow> mp_step s (s\<lparr>mach := lock_release lk (mach s), pcs := (pcs s)(h := RelPop lk)\<rparr>)"
| rel_pop: "\<lbrakk>h < NCPU; pcs s h = RelPop lk; pop_off h (mach s) = Done () m\<rbrakk>
    \<Longrightarrow> mp_step s (s\<lparr>mach := m, pcs := (pcs s)(h := Run)\<rparr>)"
| irq_on: "\<lbrakk>h < NCPU; pcs s h = Run; c_noff (cpus (mach s) (mycpu h (mach s))) = 0\<rbrakk>
    \<Longrightarrow> mp_step s (s\<lparr>mach := upd_hart h intr_on (mach s)\<rparr>)"
| irq_off: "\<lbrakk>h < NCPU; pcs s h = Run\<rbrakk> \<Longrightarrow> mp_step s (s\<lparr>mach := upd_hart h intr_off (mach s)\<rparr>)"

inductive_cases mp_stepE: "mp_step s t"

text \<open>The machine after \<open>start\<close> has set every hart's \<open>tp\<close>, with fresh locks and zeroed \<open>cpus\<close>.\<close>

definition mp_boot :: "'l mp \<Rightarrow> bool" where
  "mp_boot s \<longleftrightarrow>
    (\<forall>lk. sl_locked (locks (mach s) lk) = 0 \<and> sl_cpu (locks (mach s) lk) = None) \<and>
    (\<forall>h. pcs s h = Run \<and> owned s h = {}) \<and>
    (\<forall>h < NCPU. r_tp (harts (mach s) h) = of_nat h \<and> c_noff (cpus (mach s) h) = 0)"

inductive mp_reachable :: "'l mp \<Rightarrow> bool" where
  boot: "mp_boot s \<Longrightarrow> mp_reachable s"
| step: "mp_reachable s \<Longrightarrow> mp_step s t \<Longrightarrow> mp_reachable t"

section \<open>What the routines do to one hart\<close>

definition tp_ok :: "nat \<Rightarrow> 'l smp \<Rightarrow> bool" where
  "tp_ok h s \<longleftrightarrow> h < NCPU \<and> r_tp (harts s h) = of_nat h"

lemma mycpu_tp: "tp_ok h s \<Longrightarrow> mycpu h s = h"
  by (auto simp: tp_ok_def mycpu_def cpuid_def NCPU_def unat_of_nat)

lemma r_tp_intr [simp]: "r_tp (intr_on c) = r_tp c" "r_tp (intr_off c) = r_tp c"
  by (simp_all add: intr_on_def intr_off_def csr_defs)

lemma mycpu_upd [simp]:
  "mycpu h (upd_lock lk f s) = mycpu h s" "mycpu h (upd_cpu c g s) = mycpu h s"
  "mycpu h (upd_hart k intr_on s) = mycpu h s" "mycpu h (upd_hart k intr_off s) = mycpu h s"
  by (simp_all add: mycpu_def cpuid_def upd_defs)

lemma push_off_eq:
  assumes "tp_ok h s"
  shows "push_off h s = s\<lparr>harts := (harts s)(h := intr_off (harts s h)),
    cpus := (cpus s)(h := (cpus s h)\<lparr>
      c_intena := (if c_noff (cpus s h) = 0 then intr_get (harts s h) else c_intena (cpus s h)),
      c_noff := c_noff (cpus s h) + 1\<rparr>)\<rparr>"
  using mycpu_tp [OF assms] by (auto simp: push_off_def Let_def) (simp_all add: upd_defs fun_upd_idem_iff)

lemma pop_off_eq:
  assumes "tp_ok h s" "\<not> intr_get (harts s h)" "1 \<le> c_noff (cpus s h)"
  shows "pop_off h s = Done () (s\<lparr>cpus := (cpus s)(h := (cpus s h)\<lparr>c_noff := c_noff (cpus s h) - 1\<rparr>),
    harts := (if c_noff (cpus s h) = 1 \<and> c_intena (cpus s h)
      then (harts s)(h := intr_on (harts s h)) else harts s)\<rparr>)"
  using assms mycpu_tp [OF assms(1)] by (auto simp: pop_off_def Let_def upd_defs)

lemma holding_eq: "tp_ok h s \<Longrightarrow> holding lk h s \<longleftrightarrow> sl_locked (locks s lk) \<noteq> 0 \<and> sl_cpu (locks s lk) = Some h"
  by (simp add: holding_def mycpu_tp)

lemma tp_ok_push [simp]: "tp_ok h s \<Longrightarrow> tp_ok k (push_off h s) = tp_ok k s"
  by (simp add: push_off_eq) (simp add: tp_ok_def)

lemma locks_push_off [simp]: "locks (push_off h s) = locks s"
  by (simp add: push_off_def Let_def upd_defs)

lemma holding_push:
  "tp_ok h s \<Longrightarrow> holding lk h (push_off h s) \<longleftrightarrow> sl_locked (locks s lk) \<noteq> 0 \<and> sl_cpu (locks s lk) = Some h"
  by (simp add: holding_eq)

section \<open>The invariant of the interleaved machine\<close>

primrec busy :: "'l pc \<Rightarrow> int" where
  "busy Run = 0" | "busy (AcqSpin lk) = 1" | "busy (AcqSet lk) = 1" | "busy (RelUnlock lk) = 1"
| "busy (RelPop lk) = 1"

primrec pc_lock :: "'l pc \<Rightarrow> 'l option" where
  "pc_lock Run = None" | "pc_lock (AcqSpin lk) = Some lk" | "pc_lock (AcqSet lk) = Some lk"
| "pc_lock (RelUnlock lk) = Some lk" | "pc_lock (RelPop lk) = Some lk"

definition hart_ok :: "'l mp \<Rightarrow> nat \<Rightarrow> bool" where
  "hart_ok s h \<longleftrightarrow> tp_ok h (mach s) \<and> finite (owned s h)
    \<and> c_noff (cpus (mach s) h) = int (card (owned s h)) + busy (pcs s h)
    \<and> (0 < c_noff (cpus (mach s) h) \<longrightarrow> \<not> intr_get (harts (mach s) h))
    \<and> (\<forall>lk. pc_lock (pcs s h) = Some lk \<longrightarrow> lk \<notin> owned s h)"

definition holder :: "'l mp \<Rightarrow> 'l \<Rightarrow> nat \<Rightarrow> bool" where
  "holder s lk h \<longleftrightarrow> h < NCPU \<and> (lk \<in> owned s h \<or> pcs s h = AcqSet lk \<or> pcs s h = RelUnlock lk)"

definition lock_ok :: "'l mp \<Rightarrow> 'l \<Rightarrow> bool" where
  "lock_ok s lk \<longleftrightarrow> (sl_locked (locks (mach s) lk) \<noteq> 0 \<longleftrightarrow> (\<exists>h. holder s lk h))
    \<and> (\<forall>h k. holder s lk h \<longrightarrow> holder s lk k \<longrightarrow> h = k)
    \<and> (\<forall>h. sl_cpu (locks (mach s) lk) = Some h \<longleftrightarrow> h < NCPU \<and> lk \<in> owned s h)"

definition mp_inv :: "'l mp \<Rightarrow> bool" where
  "mp_inv s \<longleftrightarrow> (\<forall>h < NCPU. hart_ok s h) \<and> (\<forall>lk. lock_ok s lk)"

lemma mp_invD: "mp_inv s \<Longrightarrow> h < NCPU \<Longrightarrow> hart_ok s h" "mp_inv s \<Longrightarrow> lock_ok s lk"
  by (auto simp: mp_inv_def)

lemma mp_inv_boot: "mp_boot s \<Longrightarrow> mp_inv s"
  by (auto simp: mp_boot_def mp_inv_def hart_ok_def lock_ok_def holder_def tp_ok_def)

text \<open>A step of hart \<open>h\<close> leaves the other harts and their registers alone.\<close>

lemma hart_ok_other:
  "\<lbrakk>hart_ok s k; cpus (mach t) k = cpus (mach s) k; harts (mach t) k = harts (mach s) k;
    pcs t k = pcs s k; owned t k = owned s k\<rbrakk> \<Longrightarrow> hart_ok t k"
  by (auto simp: hart_ok_def tp_ok_def)

lemma lock_ok_same:
  "\<lbrakk>lock_ok s lk; locks (mach t) lk = locks (mach s) lk;
    \<And>h. h < NCPU \<Longrightarrow> (lk \<in> owned t h) = (lk \<in> owned s h);
    \<And>h. h < NCPU \<Longrightarrow> (pcs t h = AcqSet lk) = (pcs s h = AcqSet lk);
    \<And>h. h < NCPU \<Longrightarrow> (pcs t h = RelUnlock lk) = (pcs s h = RelUnlock lk)\<rbrakk> \<Longrightarrow> lock_ok t lk"
  by (auto simp: lock_ok_def holder_def)

lemma mp_invI:
  assumes "mp_inv s" "hart_ok t h" "\<And>lk. lock_ok t lk"
    and "\<And>k. k < NCPU \<Longrightarrow> k \<noteq> h \<Longrightarrow> cpus (mach t) k = cpus (mach s) k \<and> harts (mach t) k = harts (mach s) k
      \<and> pcs t k = pcs s k \<and> owned t k = owned s k"
  shows "mp_inv t"
  using assms hart_ok_other unfolding mp_inv_def by metis

lemma inv_acq_call:
  assumes inv: "mp_inv s" and h: "h < NCPU" "pcs s h = Run" and a: "acq_enter lk h (mach s) = Done () m"
  shows "mp_inv (s\<lparr>mach := m, pcs := (pcs s)(h := AcqSpin lk)\<rparr>)" (is "mp_inv ?t")
proof -
  have ok: "hart_ok s h" using mp_invD(1) [OF inv h(1)] .
  then have tp: "tp_ok h (mach s)" by (simp add: hart_ok_def)
  have m: "m = push_off h (mach s)" and nh: "\<not> holding lk h m"
    using a by (auto simp: acq_enter_def Let_def split: if_splits)
  have lks: "locks m = locks (mach s)" using tp m by (simp add: push_off_eq)
  have "lk \<notin> owned s h"
  proof
    assume "lk \<in> owned s h"
    then have "sl_cpu (locks (mach s) lk) = Some h" "sl_locked (locks (mach s) lk) \<noteq> 0"
      using mp_invD(2) [OF inv, of lk] h by (auto simp: lock_ok_def holder_def)
    then show False using nh tp by (simp add: m holding_eq lks [unfolded m])
  qed
  then have "hart_ok ?t h" using ok h tp by (auto simp: hart_ok_def m push_off_eq tp_ok_def)
  moreover have "lock_ok ?t l" for l
    by (rule lock_ok_same [OF mp_invD(2) [OF inv, of l]]) (use h in \<open>auto simp: lks\<close>)
  ultimately show ?thesis by (rule mp_invI [OF inv]) (auto simp: m push_off_eq tp)
qed

lemma inv_acq_spin:
  assumes inv: "mp_inv s" and h: "h < NCPU" "pcs s h = AcqSpin lk"
    and a: "test_and_set lk (mach s) = (old, m)" "old \<noteq> 0"
  shows "mp_inv (s\<lparr>mach := m\<rparr>)" (is "mp_inv ?t")
proof -
  have ok: "hart_ok s h" using mp_invD(1) [OF inv h(1)] .
  have m: "m = upd_lock lk (\<lambda>l. l\<lparr>sl_locked := 1\<rparr>) (mach s)"
    and l: "sl_locked (locks (mach s) lk) \<noteq> 0" using a by (auto simp: test_and_set_def)
  have "hart_ok ?t h" using ok by (simp add: hart_ok_def m upd_defs tp_ok_def)
  moreover have "lock_ok ?t k" for k
    using mp_invD(2) [OF inv, of k] l by (auto simp: lock_ok_def holder_def m upd_defs)
  ultimately show ?thesis by (rule mp_invI [OF inv]) (auto simp: m upd_defs)
qed

lemma inv_acq_win:
  assumes inv: "mp_inv s" and h: "h < NCPU" "pcs s h = AcqSpin lk"
    and a: "test_and_set lk (mach s) = (old, m)" "old = 0"
  shows "mp_inv (s\<lparr>mach := m, pcs := (pcs s)(h := AcqSet lk)\<rparr>)" (is "mp_inv ?t")
proof -
  have ok: "hart_ok s h" using mp_invD(1) [OF inv h(1)] .
  have m: "m = upd_lock lk (\<lambda>l. l\<lparr>sl_locked := 1\<rparr>) (mach s)"
    and l: "sl_locked (locks (mach s) lk) = 0" using a by (auto simp: test_and_set_def)
  have no: "\<not> holder s lk k" for k using mp_invD(2) [OF inv, of lk] l by (auto simp: lock_ok_def)
  have "hart_ok ?t h" using ok h by (simp add: hart_ok_def m upd_defs tp_ok_def)
  moreover have "lock_ok ?t k" for k
  proof (cases "k = lk")
    case True
    have "holder ?t lk j \<longleftrightarrow> j = h" for j using no [of j] h by (auto simp: holder_def)
    then show ?thesis
      using True mp_invD(2) [OF inv, of lk] by (auto simp: lock_ok_def m upd_defs)
  next
    case False
    then show ?thesis
      by (intro lock_ok_same [OF mp_invD(2) [OF inv, of k]]) (use h in \<open>auto simp: m upd_defs\<close>)
  qed
  ultimately show ?thesis by (rule mp_invI [OF inv]) (auto simp: m upd_defs)
qed

lemma inv_acq_set:
  assumes inv: "mp_inv s" and h: "h < NCPU" "pcs s h = AcqSet lk"
  shows "mp_inv (s\<lparr>mach := acq_note lk h (mach s), pcs := (pcs s)(h := Run),
    owned := (owned s)(h := insert lk (owned s h))\<rparr>)" (is "mp_inv ?t")
proof -
  have ok: "hart_ok s h" using mp_invD(1) [OF inv h(1)] .
  then have tp: "tp_ok h (mach s)" by (simp add: hart_ok_def)
  have "hart_ok ?t h" using ok h by (auto simp: hart_ok_def acq_note_def upd_defs tp_ok_def)
  moreover have "lock_ok ?t k" for k
  proof (cases "k = lk")
    case True
    have hs: "holder s lk h" using h by (simp add: holder_def)
    have "holder ?t lk j \<longleftrightarrow> holder s lk j" for j using h by (auto simp: holder_def)
    moreover have "lk \<notin> owned s j" if "j < NCPU" "j \<noteq> h" for j
      using hs that mp_invD(2) [OF inv, of lk] by (auto simp: lock_ok_def holder_def)
    ultimately show ?thesis
      using True h tp mp_invD(2) [OF inv, of lk]
      by (auto simp: lock_ok_def acq_note_def upd_defs mycpu_tp)
  next
    case False
    then show ?thesis
      by (intro lock_ok_same [OF mp_invD(2) [OF inv, of k]]) (use h in \<open>auto simp: acq_note_def upd_defs\<close>)
  qed
  ultimately show ?thesis by (rule mp_invI [OF inv]) (auto simp: acq_note_def upd_defs)
qed

lemma inv_rel_call:
  assumes inv: "mp_inv s" and h: "h < NCPU" "pcs s h = Run" and a: "rel_enter lk h (mach s) = Done () m"
  shows "mp_inv (s\<lparr>mach := m, pcs := (pcs s)(h := RelUnlock lk),
    owned := (owned s)(h := owned s h - {lk})\<rparr>)" (is "mp_inv ?t")
proof -
  have ok: "hart_ok s h" using mp_invD(1) [OF inv h(1)] .
  then have tp: "tp_ok h (mach s)" by (simp add: hart_ok_def)
  have m: "m = upd_lock lk (\<lambda>l. l\<lparr>sl_cpu := None\<rparr>) (mach s)"
    and hold: "sl_cpu (locks (mach s) lk) = Some h"
    using a tp by (auto simp: rel_enter_def holding_eq split: if_splits)
  have own: "lk \<in> owned s h" using hold mp_invD(2) [OF inv, of lk] by (auto simp: lock_ok_def)
  have "0 < card (owned s h)" using own ok by (auto simp: hart_ok_def card_gt_0_iff)
  then have "hart_ok ?t h" using ok h own
    by (auto simp: hart_ok_def m upd_defs tp_ok_def card_Diff_singleton of_nat_diff)
  moreover have "lock_ok ?t k" for k
  proof (cases "k = lk")
    case True
    have "holder s lk h" using own h by (simp add: holder_def)
    then have one: "holder s lk j \<longleftrightarrow> j = h" for j
      using mp_invD(2) [OF inv, of lk] by (auto simp: lock_ok_def)
    then have no: "lk \<notin> owned s j" if "j < NCPU" "j \<noteq> h" for j using that by (auto simp: holder_def)
    have "holder ?t lk j \<longleftrightarrow> j = h" for j using h one [of j] by (auto simp: holder_def)
    then show ?thesis
      using True h no one mp_invD(2) [OF inv, of lk] by (auto simp: lock_ok_def m upd_defs)
  next
    case False
    then show ?thesis
      by (intro lock_ok_same [OF mp_invD(2) [OF inv, of k]]) (use h in \<open>auto simp: m upd_defs\<close>)
  qed
  ultimately show ?thesis by (rule mp_invI [OF inv]) (auto simp: m upd_defs)
qed

lemma inv_rel_unlock:
  assumes inv: "mp_inv s" and h: "h < NCPU" "pcs s h = RelUnlock lk"
  shows "mp_inv (s\<lparr>mach := lock_release lk (mach s), pcs := (pcs s)(h := RelPop lk)\<rparr>)" (is "mp_inv ?t")
proof -
  have ok: "hart_ok s h" using mp_invD(1) [OF inv h(1)] .
  have "hart_ok ?t h" using ok h by (auto simp: hart_ok_def lock_release_def upd_defs tp_ok_def)
  moreover have "lock_ok ?t k" for k
  proof (cases "k = lk")
    case True
    have "holder s lk h" using h by (simp add: holder_def)
    then have one: "holder s lk j \<longleftrightarrow> j = h" for j
      using mp_invD(2) [OF inv, of lk] by (auto simp: lock_ok_def)
    have "\<not> holder ?t lk j" for j using h one [of j] ok by (auto simp: holder_def hart_ok_def)
    then show ?thesis
      using True one mp_invD(2) [OF inv, of lk] by (auto simp: lock_ok_def lock_release_def upd_defs)
  next
    case False
    then show ?thesis
      by (intro lock_ok_same [OF mp_invD(2) [OF inv, of k]])
        (use h in \<open>auto simp: lock_release_def upd_defs\<close>)
  qed
  ultimately show ?thesis by (rule mp_invI [OF inv]) (auto simp: lock_release_def upd_defs)
qed

lemma inv_rel_pop:
  assumes inv: "mp_inv s" and h: "h < NCPU" "pcs s h = RelPop lk" and a: "pop_off h (mach s) = Done () m"
  shows "mp_inv (s\<lparr>mach := m, pcs := (pcs s)(h := Run)\<rparr>)" (is "mp_inv ?t")
proof -
  have ok: "hart_ok s h" using mp_invD(1) [OF inv h(1)] .
  then have tp: "tp_ok h (mach s)" and n: "1 \<le> c_noff (cpus (mach s) h)"
    and off: "\<not> intr_get (harts (mach s) h)" using h by (auto simp: hart_ok_def)
  have m: "Done () m = pop_off h (mach s)" using a by simp
  note m' = m [unfolded pop_off_eq [OF tp off n], simplified]
  have "hart_ok ?t h" using ok h unfolding m' by (auto simp: hart_ok_def tp_ok_def)
  moreover have "lock_ok ?t k" for k
    by (rule lock_ok_same [OF mp_invD(2) [OF inv, of k]]) (use h in \<open>auto simp: m'\<close>)
  ultimately show ?thesis by (rule mp_invI [OF inv]) (auto simp: m')
qed

lemma mp_inv_step: "mp_step s t \<Longrightarrow> mp_inv s \<Longrightarrow> mp_inv t"
proof (induction rule: mp_step.induct)
  case (irq_on h s)
  have ok: "hart_ok s h" using mp_invD(1) [OF irq_on(4,1)] .
  then have "hart_ok (s\<lparr>mach := upd_hart h intr_on (mach s)\<rparr>) h"
    using irq_on by (auto simp: hart_ok_def tp_ok_def upd_defs mycpu_def cpuid_def NCPU_def unat_of_nat)
  moreover have "lock_ok (s\<lparr>mach := upd_hart h intr_on (mach s)\<rparr>) k" for k
    by (rule lock_ok_same [OF mp_invD(2) [OF irq_on(4), of k]]) (auto simp: upd_defs)
  ultimately show ?case by (rule mp_invI [OF irq_on(4)]) (auto simp: upd_defs)
next
  case (irq_off h s)
  have ok: "hart_ok s h" using mp_invD(1) [OF irq_off(3,1)] .
  then have "hart_ok (s\<lparr>mach := upd_hart h intr_off (mach s)\<rparr>) h"
    by (auto simp: hart_ok_def tp_ok_def upd_defs)
  moreover have "lock_ok (s\<lparr>mach := upd_hart h intr_off (mach s)\<rparr>) k" for k
    by (rule lock_ok_same [OF mp_invD(2) [OF irq_off(3), of k]]) (auto simp: upd_defs)
  ultimately show ?case by (rule mp_invI [OF irq_off(3)]) (auto simp: upd_defs)
qed (blast intro: inv_acq_call inv_acq_spin inv_acq_win inv_acq_set inv_rel_call inv_rel_unlock inv_rel_pop)+

lemma mp_reachable_inv: "mp_reachable s \<Longrightarrow> mp_inv s"
  by (induction rule: mp_reachable.induct) (auto intro: mp_inv_boot mp_inv_step)

section \<open>The lock discipline seen by one hart\<close>

text \<open>
  Code that runs on one hart sees its locks as the list of those it holds, the last acquired first;
  the nesting depth is its length.  The rest of the kernel is modelled over this view.
\<close>

definition acq_held :: "'l \<Rightarrow> 'l list \<Rightarrow> (unit, 'l list) res" where
  "acq_held lk hs = (if lk \<in> set hs then Stop (Panic ''acquire'') hs else Done () (lk # hs))"

definition rel_held :: "'l \<Rightarrow> 'l list \<Rightarrow> (unit, 'l list) res" where
  "rel_held lk hs = (if lk \<notin> set hs then Stop (Panic ''release'') hs else Done () (remove1 lk hs))"

definition held_view :: "nat \<Rightarrow> 'l smp \<Rightarrow> 'l list \<Rightarrow> bool" where
  "held_view h s hs \<longleftrightarrow> tp_ok h s \<and> distinct hs \<and> c_noff (cpus s h) = int (length hs)
    \<and> (hs \<noteq> [] \<longrightarrow> \<not> intr_get (harts s h))
    \<and> (\<forall>lk. (sl_locked (locks s lk) \<noteq> 0 \<longleftrightarrow> lk \<in> set hs)
          \<and> (sl_cpu (locks s lk) = Some h \<longleftrightarrow> lk \<in> set hs))"

primrec same_outcome :: "('s \<Rightarrow> 'a \<Rightarrow> bool) \<Rightarrow> ('b, 's) res \<Rightarrow> ('b, 'a) res \<Rightarrow> bool" where
  "same_outcome V (Done x s) r = (case r of Done y t \<Rightarrow> x = y \<and> V s t | Stop _ _ \<Rightarrow> False)"
| "same_outcome V (Stop e s) r = (case r of Done _ _ \<Rightarrow> False | Stop e' _ \<Rightarrow> e = e')"

lemma held_view_acquired:
  assumes v: "held_view h s hs" and lk: "lk \<notin> set hs"
  shows "held_view h (acq_note lk h (upd_lock lk (\<lambda>l. l\<lparr>sl_locked := 1\<rparr>) (push_off h s))) (lk # hs)"
    (is "held_view h ?t _")
proof -
  have tp: "tp_ok h s" using v by (simp add: held_view_def)
  have my: "mycpu h (push_off h s) = h" using tp by (simp add: mycpu_tp)
  have l: "locks ?t = (locks s)(lk := (locks s lk)\<lparr>sl_locked := 1, sl_cpu := Some h\<rparr>)"
    by (simp add: acq_note_def upd_lock_def my [unfolded mycpu_def cpuid_def] mycpu_def cpuid_def)
  have "tp_ok h ?t" "c_noff (cpus ?t h) = c_noff (cpus s h) + 1" "\<not> intr_get (harts ?t h)"
    using tp by (simp_all add: acq_note_def upd_lock_def push_off_eq tp_ok_def)
  then show ?thesis using v lk by (simp add: held_view_def l)
qed

lemma acquire_refines:
  assumes "held_view h s hs"
  shows "same_outcome (held_view h) (acquire lk h s) (acq_held lk hs)"
proof -
  have tp: "tp_ok h s" using assms by (simp add: held_view_def)
  have iff: "holding lk h (push_off h s) \<longleftrightarrow> lk \<in> set hs"
    and free: "sl_locked (locks s lk) = 0 \<longleftrightarrow> lk \<notin> set hs"
    using assms tp by (auto simp: holding_push held_view_def)
  show ?thesis
    using iff free held_view_acquired [OF assms, of lk]
    by (simp add: acquire_def acq_enter_def test_and_set_def acq_held_def Let_def)
qed

lemma release_refines:
  assumes "held_view h s hs"
  shows "same_outcome (held_view h) (release lk h s) (rel_held lk hs)"
proof -
  have tp: "tp_ok h s" using assms by (simp add: held_view_def)
  show ?thesis
  proof (cases "lk \<in> set hs")
    case False
    then show ?thesis
      using assms tp by (auto simp: release_def rel_enter_def rel_held_def held_view_def holding_eq)
  next
    case True
    let ?t = "lock_release lk (upd_lock lk (\<lambda>l. l\<lparr>sl_cpu := None\<rparr>) s)"
    have "holding lk h s" using True assms tp by (auto simp: held_view_def holding_eq)
    then have r: "release lk h s = pop_off h ?t" by (simp add: release_def rel_enter_def)
    have len: "1 \<le> length hs" using True by (cases hs) auto
    have "tp_ok h ?t" "\<not> intr_get (harts ?t h)" "1 \<le> c_noff (cpus ?t h)"
      using True assms len by (auto simp: held_view_def lock_release_def upd_defs tp_ok_def)
    note off = this(2) and pop = pop_off_eq [OF this]
    have e: "remove1 lk hs = [] \<longleftrightarrow> length hs = 1"
      using True len length_remove1 [of lk hs] by (metis One_nat_def diff_is_0_eq le_antisym length_0_conv)
    obtain s' where s': "pop_off h ?t = Done () s'" using pop by blast
    note pop' = s' [unfolded pop, symmetric, simplified]
    have "locks s' = (locks s)(lk := (locks s lk)\<lparr>sl_cpu := None, sl_locked := 0\<rparr>)"
      unfolding pop' by (simp add: lock_release_def upd_lock_def)
    moreover have "tp_ok h s'" "c_noff (cpus s' h) = c_noff (cpus s h) - 1"
      "\<not> intr_get (harts s' h) \<or> c_noff (cpus s h) = 1"
      using tp off unfolding pop'
      by (auto simp: lock_release_def upd_lock_def tp_ok_def)
    moreover have "distinct (remove1 lk hs)" "set (remove1 lk hs) = set hs - {lk}"
      using assms by (auto simp: held_view_def)
    ultimately have "held_view h s' (remove1 lk hs)"
      using assms True len e by (auto simp: held_view_def length_remove1 of_nat_diff)
    then show ?thesis using True r s' by (simp add: rel_held_def)
  qed
qed

section \<open>Properties\<close>

definition mp_init :: "'l mp" where
  "mp_init = \<lparr>mach = \<lparr>locks = \<lambda>_. \<lparr>sl_locked = 0, sl_name = [], sl_cpu = None\<rparr>,
     cpus = \<lambda>_. \<lparr>c_proc = None, c_noff = 0, c_intena = False\<rparr>,
     harts = \<lambda>h. \<lparr>csr_mhartid = of_nat h, csr_mstatus = 0, csr_mepc = 0, csr_sstatus = 2, csr_sip = 0,
       csr_sie = 0, csr_mie = 0, csr_sepc = 0, csr_medeleg = 0, csr_mideleg = 0, csr_stvec = 0,
       csr_stimecmp = 0, csr_menvcfg = 0, csr_pmpcfg0 = 0, csr_pmpaddr0 = 0, csr_satp = 0,
       csr_scause = 0, csr_stval = 0, csr_mcounteren = 0, csr_time = 0, csr_tp = of_nat h\<rparr>\<rparr>,
     pcs = \<lambda>_. Run, owned = \<lambda>_. {}\<rparr>"

lemma mp_init_simps [simp]:
  "locks (mach mp_init) lk = \<lparr>sl_locked = 0, sl_name = [], sl_cpu = None\<rparr>"
  "c_noff (cpus (mach mp_init) h) = 0" "pcs mp_init h = Run" "owned mp_init h = {}"
  "r_tp (harts (mach mp_init) h) = of_nat h"
  by (simp_all add: mp_init_def r_tp_def)

lemma mp_init_boot: "mp_boot mp_init"
  by (simp add: mp_boot_def)

text \<open>A hart that finds the lock free at boot acquires it.\<close>

lemma mp_init_acquire: "\<exists>s. mp_reachable s \<and> owned s 0 = {lk :: nat} \<and> pcs s 0 = Run"
proof -
  define s1 where "s1 = mp_init\<lparr>mach := push_off 0 (mach mp_init), pcs := (pcs mp_init)(0 := AcqSpin lk)\<rparr>"
  have tp: "tp_ok 0 (mach mp_init)" by (simp add: tp_ok_def NCPU_def)
  have "mp_step mp_init s1"
    unfolding s1_def using acq_call [of 0 mp_init lk "push_off 0 (mach mp_init)"] tp
    by (simp add: acq_enter_def Let_def NCPU_def holding_push [OF tp])
  then have r1: "mp_reachable s1" using mp_init_boot boot step by blast
  define s2 where "s2 = s1\<lparr>mach := snd (test_and_set lk (mach s1)), pcs := (pcs s1)(0 := AcqSet lk)\<rparr>"
  have "mp_step s1 s2"
    using acq_win [of 0 s1 lk 0 "snd (test_and_set lk (mach s1))"] tp
    by (simp add: s2_def NCPU_def test_and_set_def s1_def)
  then have r2: "mp_reachable s2" using r1 step by blast
  have "mp_step s2 (s2\<lparr>mach := acq_note lk 0 (mach s2), pcs := (pcs s2)(0 := Run),
    owned := (owned s2)(0 := insert lk (owned s2 0))\<rparr>)"
    by (rule acq_set) (simp_all add: NCPU_def s2_def)
  then show ?thesis using r2 step
    by (intro exI [of _ "s2\<lparr>mach := acq_note lk 0 (mach s2), pcs := (pcs s2)(0 := Run),
      owned := (owned s2)(0 := insert lk (owned s2 0))\<rparr>"]) (auto simp: s2_def s1_def)
qed

text \<open>C12: in every state the harts can reach by running \<open>acquire\<close> and \<open>release\<close> concurrently, a lock is
  in the critical section of at most one hart, and a hart that holds a lock has interrupts off.\<close>

theorem spinlock_mutual_exclusion:
  assumes "mp_reachable s" "h < NCPU" "lk \<in> owned s h"
  shows "(\<forall>k < NCPU. lk \<in> owned s k \<longrightarrow> k = h) \<and> \<not> intr_get (harts (mach s) h)"
proof -
  note inv = mp_reachable_inv [OF assms(1)]
  have "0 < card (owned s h)"
    using mp_invD(1) [OF inv assms(2)] assms(3) by (auto simp: hart_ok_def card_gt_0_iff)
  moreover have "0 \<le> busy (pcs s h)" by (cases "pcs s h") auto
  ultimately have "\<not> intr_get (harts (mach s) h)"
    using mp_invD(1) [OF inv assms(2)] by (simp add: hart_ok_def)
  then show ?thesis using mp_invD(2) [OF inv, of lk] assms by (auto simp: lock_ok_def holder_def)
qed

theorem spinlock_mutual_exclusion_witness:
  "\<exists>s. mp_reachable s \<and> (7 :: nat) \<in> owned s 0
    \<and> (\<forall>k < NCPU. 7 \<in> owned s k \<longrightarrow> k = 0) \<and> \<not> intr_get (harts (mach s) 0)"
proof -
  obtain s where s: "mp_reachable s" "owned s 0 = {7 :: nat}" using mp_init_acquire by blast
  then show ?thesis using spinlock_mutual_exclusion [of s 0 7] by (intro exI [of _ s]) (simp add: NCPU_def)
qed

text \<open>C14: the panics of the lock code are never provoked by another hart.  A hart outside the lock code
  panics in \<open>acquire\<close> exactly when it already holds that lock and in \<open>release\<close> exactly when it does not;
  a hart about to leave \<open>release\<close> never fails in \<open>pop_off\<close>.\<close>

theorem lock_panics_only_on_misuse:
  assumes "mp_reachable s" "h < NCPU"
  shows "(pcs s h = Run \<longrightarrow>
      (acq_enter lk h (mach s) = Stop (Panic ''acquire'') (push_off h (mach s)) \<longleftrightarrow> lk \<in> owned s h)
      \<and> (rel_enter lk h (mach s) = Stop (Panic ''release'') (mach s) \<longleftrightarrow> lk \<notin> owned s h))
    \<and> (pcs s h = RelPop lk \<longrightarrow> (\<exists>m. pop_off h (mach s) = Done () m))"
proof -
  note inv = mp_reachable_inv [OF assms(1)]
  have ok: "hart_ok s h" and lk: "lock_ok s lk" using mp_invD [OF inv] assms(2) by auto
  then have tp: "tp_ok h (mach s)" by (simp add: hart_ok_def)
  have "\<exists>m. pop_off h (mach s) = Done () m" if "pcs s h = RelPop lk"
    using ok that tp pop_off_eq [of h "mach s"] by (auto simp: hart_ok_def)
  then show ?thesis
    using lk tp assms(2)
    by (auto simp: acq_enter_def rel_enter_def Let_def holding_eq lock_ok_def holder_def)
qed

theorem lock_panics_only_on_misuse_witness:
  "\<exists>s. mp_reachable s \<and> (acq_enter (7 :: nat) 0 (mach s) = Stop (Panic ''acquire'') (push_off 0 (mach s)))
    \<and> rel_enter 8 0 (mach s) = Stop (Panic ''release'') (mach s)"
proof -
  obtain s where s: "mp_reachable s" "owned s 0 = {7 :: nat}" "pcs s 0 = Run" using mp_init_acquire by blast
  then show ?thesis
    using lock_panics_only_on_misuse [of s 0 7] lock_panics_only_on_misuse [of s 0 8]
    by (intro exI [of _ s]) (simp add: NCPU_def)
qed

text \<open>C13: on one hart the detailed \<open>acquire\<close> and \<open>release\<close> (swap, owner field, interrupt nesting) refine the
  list of held locks the rest of the kernel model uses: same panics, and the new list describes the new
  lock words, nesting depth and interrupt state.\<close>

theorem locks_refine_held_list:
  assumes "held_view h s hs"
  shows "same_outcome (held_view h) (acquire lk h s) (acq_held lk hs)
    \<and> same_outcome (held_view h) (release lk h s) (rel_held lk hs)"
  using acquire_refines [OF assms] release_refines [OF assms] by blast

theorem locks_refine_held_list_witness:
  "held_view 0 (mach (mp_init :: nat mp)) []
    \<and> same_outcome (held_view 0) (acquire 7 0 (mach mp_init)) (Done () [7 :: nat])"
proof -
  have v: "held_view 0 (mach (mp_init :: nat mp)) []"
    by (simp add: held_view_def tp_ok_def NCPU_def)
  then show ?thesis using locks_refine_held_list [OF v, of 7] by (simp add: acq_held_def)
qed

end
