(* ===== verification/Kstate.thy ===== *)
theory Kstate
  imports Prelude Riscv Spinlock
begin

text \<open>
  The data of the kernel: the structures of \<open>kernel/proc.h\<close>, \<open>file.h\<close>, \<open>fs.h\<close>, \<open>buf.h\<close>, \<open>sleeplock.h\<close>
  and of the files that declare their own (\<open>log.c\<close>, \<open>pipe.c\<close>, \<open>console.c\<close>, \<open>bio.c\<close>), and the record
  \<open>kstate\<close> of all kernel variables.  Kernel functions take and return this record.  A pointer into one of
  the kernel's fixed arrays is the index of the element; a pointer to an allocated page is its
  64-bit address.  A spin lock is its name in \<open>held\<close>, the list of locks the running code holds, which
  theory \<open>Spinlock\<close> shows to be refined by the real lock words.
\<close>

section \<open>Names of locks and wait channels\<close>

datatype lockid = KmemLock | PidLock | WaitLock | ProcLock nat | BcacheLock | LogLock
  | ItableLock | FtableLock | PipeLock uint64 | SleepBufLk nat | SleepInodeLk nat
  | TicksLock | ConsLock | PrLock | TxLock | VdiskLock

datatype chan = ChNull | ChProc nat | ChLog | ChSleepBuf nat | ChSleepInode nat
  | ChPipeR uint64 | ChPipeW uint64 | ChTicks | ChCons | ChTx | ChDiskFree | ChDiskBuf nat

section \<open>Processes\<close>

datatype procstate = UNUSED | USED | SLEEPING | RUNNABLE | RUNNING | ZOMBIE

record kcontext =
  ctx_ra :: uint64
  ctx_sp :: uint64
  ctx_s :: "uint64 list"

record proc =
  p_state :: procstate
  p_chan :: chan
  p_killed :: bool
  p_xstate :: int
  p_pid :: int
  p_parent :: "nat option"
  p_kstack :: uint64
  p_sz :: uint64
  p_pagetable :: uint64
  p_trapframe :: uint64
  p_context :: kcontext
  p_ofile :: "nat option list"
  p_cwd :: "nat option"
  p_name :: "byte list"

section \<open>Buffers, log, inodes, files, pipes\<close>

definition BSIZE :: nat where "BSIZE = 1024"

record sleeplock =
  slk_locked :: bool
  slk_pid :: int

record buf =
  b_valid :: bool
  b_disk :: bool
  b_dev :: uint
  b_blockno :: uint
  b_lock :: sleeplock
  b_refcnt :: uint
  b_prev :: nat
  b_next :: nat
  b_data :: "byte list"

record logheader =
  lh_n :: int
  lh_block :: "int list"

record log =
  l_start :: int
  l_outstanding :: int
  l_committing :: bool
  l_dev :: int
  l_lh :: logheader

record superblock =
  sb_magic :: uint
  sb_size :: uint
  sb_nblocks :: uint
  sb_ninodes :: uint
  sb_nlog :: uint
  sb_logstart :: uint
  sb_inodestart :: uint
  sb_bmapstart :: uint

record inode =
  i_dev :: uint
  i_inum :: uint
  i_ref :: int
  i_lock :: sleeplock
  i_valid :: bool
  i_type :: ushort
  i_major :: ushort
  i_minor :: ushort
  i_nlink :: ushort
  i_size :: uint
  i_addrs :: "uint list"

datatype ftype = FD_NONE | FD_PIPE | FD_INODE | FD_DEVICE

record kfile =
  f_type :: ftype
  f_ref :: int
  f_readable :: bool
  f_writable :: bool
  f_pipe :: uint64
  f_ip :: nat
  f_off :: uint
  f_major :: ushort

record pipe =
  pi_data :: "byte list"
  pi_nread :: uint
  pi_nwrite :: uint
  pi_readopen :: bool
  pi_writeopen :: bool

record cons =
  con_buf :: "byte list"
  con_r :: uint
  con_w :: uint
  con_e :: uint

section \<open>The disk driver's queue (kernel/virtio.h, kernel/virtio_disk.c)\<close>

text \<open>The memory shared with the disk, as the structures it holds; a DMA address is the name of what it points to.\<close>

datatype dma = DmaNull | DmaOps nat | DmaBuf nat | DmaStatus nat

record virtq_desc =
  vq_addr :: dma
  vq_len :: uint
  vq_flags :: ushort
  vq_next :: ushort

record virtq_avail =
  av_idx :: ushort
  av_ring :: "ushort list"

record virtq_used =
  us_idx :: ushort
  us_ring :: "uint list"

record virtio_blk_req =
  rq_type :: uint
  rq_reserved :: uint
  rq_sector :: uint64

record disk =
  dk_desc_pa :: uint64
  dk_avail_pa :: uint64
  dk_used_pa :: uint64
  dk_desc :: "virtq_desc list"
  dk_avail :: virtq_avail
  dk_used :: virtq_used
  dk_free :: "bool list"
  dk_used_idx :: ushort
  dk_info_b :: "nat option list"
  dk_info_status :: "byte list"
  dk_ops :: "virtio_blk_req list"

text \<open>Addresses fixed by the linker script: symbols of the kernel image the C code refers to.\<close>

record linksyms =
  sym_end :: uint64
  sym_etext :: uint64
  sym_trampoline :: uint64
  sym_uservec :: uint64
  sym_userret :: uint64
  sym_usertrap :: uint64
  sym_kernelvec :: uint64
  sym_forkret :: uint64

section \<open>All kernel variables\<close>

text \<open>
  \<open>dsk\<close> is the content of the disk by block number and \<open>dwrites\<close> the sequence of block writes issued
  so far (oldest first), from which the disk after a crash at any point is rebuilt.  Device registers
  answer reads from an arbitrary stream \<open>io_in\<close> of which \<open>io_pos\<close> values are consumed; \<open>io_out\<close> is the
  sequence of register writes.  \<open>sie\<close> is the interrupt-enable state outside critical sections.
\<close>

type_synonym block = "byte list"

record kstate =
  link :: linksyms
  held :: "lockid list"
  sie :: bool
  hart :: csrs
  mem :: pmem
  freelist :: uint64
  kernel_pagetable :: uint64
  procs :: "nat \<Rightarrow> proc"
  curproc :: "nat option"
  initproc :: "nat option"
  nextpid :: int
  ticks :: uint
  bufs :: "nat \<Rightarrow> buf"
  lg :: log
  sb :: superblock
  itable :: "nat \<Rightarrow> inode"
  ftable :: "nat \<Rightarrow> kfile"
  pipes :: "uint64 \<Rightarrow> pipe"
  console :: cons
  tx_busy :: bool
  devsw :: "nat \<Rightarrow> bool"
  dsk :: "nat \<Rightarrow> block"
  dwrites :: "(nat \<times> block) list"
  io_in :: "nat \<Rightarrow> uint64"
  io_pos :: nat
  io_out :: "(uint64 \<times> uint64) list"
  panicking :: bool
  panicked :: bool
  vdisk :: disk
  forkret_first :: bool
  started :: bool

type_synonym 'a kres = "('a, kstate) res"

section \<open>Locks in kernel code\<close>

definition kacquire :: "lockid \<Rightarrow> kstate \<Rightarrow> unit kres" where
  "kacquire lk s = (case acq_held lk (held s) of
     Done _ hs \<Rightarrow> Done () (s\<lparr>held := hs\<rparr>) | Stop e _ \<Rightarrow> Stop e s)"

definition krelease :: "lockid \<Rightarrow> kstate \<Rightarrow> unit kres" where
  "krelease lk s = (case rel_held lk (held s) of
     Done _ hs \<Rightarrow> Done () (s\<lparr>held := hs\<rparr>) | Stop e _ \<Rightarrow> Stop e s)"

definition kholding :: "lockid \<Rightarrow> kstate \<Rightarrow> bool" where
  "kholding lk s \<longleftrightarrow> lk \<in> set (held s)"

definition panic :: "string \<Rightarrow> kstate \<Rightarrow> 'a kres" where
  "panic msg s = Stop (Panic msg) s"

lemma kacquire_free [simp]: "lk \<notin> set (held s) \<Longrightarrow> kacquire lk s = Done () (s\<lparr>held := lk # held s\<rparr>)"
  by (simp add: kacquire_def acq_held_def)

lemma kacquire_held [simp]: "lk \<in> set (held s) \<Longrightarrow> kacquire lk s = Stop (Panic ''acquire'') s"
  by (simp add: kacquire_def acq_held_def)

lemma krelease_held [simp]: "lk \<in> set (held s) \<Longrightarrow> krelease lk s = Done () (s\<lparr>held := remove1 lk (held s)\<rparr>)"
  by (simp add: krelease_def rel_held_def)

lemma krelease_free [simp]: "lk \<notin> set (held s) \<Longrightarrow> krelease lk s = Stop (Panic ''release'') s"
  by (simp add: krelease_def rel_held_def)

lemma panic_stop [simp]: "panic msg s = Stop (Panic msg) s"
  by (simp add: panic_def)

lemma held_idem [simp]: "held s = h \<Longrightarrow> s\<lparr>held := h\<rparr> = s"
  by auto

section \<open>Records written back\<close>

text \<open>\<open>upd_proc p f\<close> stands for an assignment through the pointer \<open>p\<close>.\<close>

definition upd_proc :: "nat \<Rightarrow> (proc \<Rightarrow> proc) \<Rightarrow> kstate \<Rightarrow> kstate" where
  "upd_proc p f s = s\<lparr>procs := (procs s)(p := f (procs s p))\<rparr>"

definition upd_buf :: "nat \<Rightarrow> (buf \<Rightarrow> buf) \<Rightarrow> kstate \<Rightarrow> kstate" where
  "upd_buf b f s = s\<lparr>bufs := (bufs s)(b := f (bufs s b))\<rparr>"

definition upd_inode :: "nat \<Rightarrow> (inode \<Rightarrow> inode) \<Rightarrow> kstate \<Rightarrow> kstate" where
  "upd_inode i f s = s\<lparr>itable := (itable s)(i := f (itable s i))\<rparr>"

definition upd_file :: "nat \<Rightarrow> (kfile \<Rightarrow> kfile) \<Rightarrow> kstate \<Rightarrow> kstate" where
  "upd_file i f s = s\<lparr>ftable := (ftable s)(i := f (ftable s i))\<rparr>"

definition upd_pipe :: "uint64 \<Rightarrow> (pipe \<Rightarrow> pipe) \<Rightarrow> kstate \<Rightarrow> kstate" where
  "upd_pipe i f s = s\<lparr>pipes := (pipes s)(i := f (pipes s i))\<rparr>"

definition upd_log :: "(log \<Rightarrow> log) \<Rightarrow> kstate \<Rightarrow> kstate" where
  "upd_log f s = s\<lparr>lg := f (lg s)\<rparr>"

lemma upd_held [simp]:
  "upd_proc p f (s\<lparr>held := h\<rparr>) = (upd_proc p f s)\<lparr>held := h\<rparr>"
  "upd_buf b g (s\<lparr>held := h\<rparr>) = (upd_buf b g s)\<lparr>held := h\<rparr>"
  "upd_inode i k (s\<lparr>held := h\<rparr>) = (upd_inode i k s)\<lparr>held := h\<rparr>"
  "upd_file j q (s\<lparr>held := h\<rparr>) = (upd_file j q s)\<lparr>held := h\<rparr>"
  "upd_pipe a r (s\<lparr>held := h\<rparr>) = (upd_pipe a r s)\<lparr>held := h\<rparr>"
  "upd_log l (s\<lparr>held := h\<rparr>) = (upd_log l s)\<lparr>held := h\<rparr>"
  by (simp_all add: upd_proc_def upd_buf_def upd_inode_def upd_file_def upd_pipe_def upd_log_def)

lemma held_upd [simp]:
  "held (upd_proc p f s) = held s" "held (upd_buf b g s) = held s" "held (upd_inode i k s) = held s"
  "held (upd_file j q s) = held s" "held (upd_pipe a r s) = held s" "held (upd_log l s) = held s"
  by (simp_all add: upd_proc_def upd_buf_def upd_inode_def upd_file_def upd_pipe_def upd_log_def)

section \<open>The kernel's variables when the image has just been loaded\<close>

text \<open>Zeroed memory, except for the initialised \<open>nextpid\<close>; the disk and the device input are given.\<close>

definition proc0 :: proc where
  "proc0 = \<lparr>p_state = UNUSED, p_chan = ChNull, p_killed = False, p_xstate = 0, p_pid = 0,
     p_parent = None, p_kstack = 0, p_sz = 0, p_pagetable = 0, p_trapframe = 0,
     p_context = \<lparr>ctx_ra = 0, ctx_sp = 0, ctx_s = replicate 12 0\<rparr>,
     p_ofile = replicate NOFILE None, p_cwd = None, p_name = replicate 16 0\<rparr>"

definition buf0 :: buf where
  "buf0 = \<lparr>b_valid = False, b_disk = False, b_dev = 0, b_blockno = 0,
     b_lock = \<lparr>slk_locked = False, slk_pid = 0\<rparr>, b_refcnt = 0, b_prev = 0, b_next = 0,
     b_data = replicate BSIZE 0\<rparr>"

definition inode0 :: inode where
  "inode0 = \<lparr>i_dev = 0, i_inum = 0, i_ref = 0, i_lock = \<lparr>slk_locked = False, slk_pid = 0\<rparr>,
     i_valid = False, i_type = 0, i_major = 0, i_minor = 0, i_nlink = 0, i_size = 0,
     i_addrs = replicate 13 0\<rparr>"

definition file0 :: kfile where
  "file0 = \<lparr>f_type = FD_NONE, f_ref = 0, f_readable = False, f_writable = False, f_pipe = 0,
     f_ip = 0, f_off = 0, f_major = 0\<rparr>"

definition pipe0 :: pipe where
  "pipe0 = \<lparr>pi_data = replicate 512 0, pi_nread = 0, pi_nwrite = 0, pi_readopen = False,
     pi_writeopen = False\<rparr>"

definition csrs0 :: csrs where
  "csrs0 = \<lparr>csr_mhartid = 0, csr_mstatus = 0, csr_mepc = 0, csr_sstatus = 0, csr_sip = 0,
     csr_sie = 0, csr_mie = 0, csr_sepc = 0, csr_medeleg = 0, csr_mideleg = 0, csr_stvec = 0,
     csr_stimecmp = 0, csr_menvcfg = 0, csr_pmpcfg0 = 0, csr_pmpaddr0 = 0, csr_satp = 0,
     csr_scause = 0, csr_stval = 0, csr_mcounteren = 0, csr_time = 0, csr_tp = 0\<rparr>"

definition disk0 :: disk where
  "disk0 = \<lparr>dk_desc_pa = 0, dk_avail_pa = 0, dk_used_pa = 0,
     dk_desc = replicate 8 \<lparr>vq_addr = DmaNull, vq_len = 0, vq_flags = 0, vq_next = 0\<rparr>,
     dk_avail = \<lparr>av_idx = 0, av_ring = replicate 8 0\<rparr>, dk_used = \<lparr>us_idx = 0, us_ring = replicate 8 0\<rparr>,
     dk_free = replicate 8 False, dk_used_idx = 0, dk_info_b = replicate 8 None, dk_info_status = replicate 8 0,
     dk_ops = replicate 8 \<lparr>rq_type = 0, rq_reserved = 0, rq_sector = 0\<rparr>\<rparr>"

definition kboot :: "linksyms \<Rightarrow> (nat \<Rightarrow> block) \<Rightarrow> kstate" where
  "kboot l d = \<lparr>link = l, held = [], sie = False, hart = csrs0, mem = (\<lambda>_. 0), freelist = 0,
     kernel_pagetable = 0, procs = (\<lambda>_. proc0), curproc = None, initproc = None, nextpid = 1,
     ticks = 0, bufs = (\<lambda>_. buf0),
     lg = \<lparr>l_start = 0, l_outstanding = 0, l_committing = False, l_dev = 0,
       l_lh = \<lparr>lh_n = 0, lh_block = replicate LOGBLOCKS 0\<rparr>\<rparr>,
     sb = \<lparr>sb_magic = 0, sb_size = 0, sb_nblocks = 0, sb_ninodes = 0, sb_nlog = 0, sb_logstart = 0,
       sb_inodestart = 0, sb_bmapstart = 0\<rparr>,
     itable = (\<lambda>_. inode0), ftable = (\<lambda>_. file0), pipes = (\<lambda>_. pipe0),
     console = \<lparr>con_buf = replicate 128 0, con_r = 0, con_w = 0, con_e = 0\<rparr>,
     tx_busy = False, devsw = (\<lambda>_. False), dsk = d, dwrites = [], io_in = (\<lambda>_. 0), io_pos = 0,
     io_out = [], panicking = False, panicked = False, vdisk = disk0,
     forkret_first = True, started = False\<rparr>"

text \<open>A linked image of plausible size, for examples.\<close>

definition link0 :: linksyms where
  "link0 = \<lparr>sym_end = 0x80021000, sym_etext = 0x80008000, sym_trampoline = 0x80007000,
     sym_uservec = 0x80007000, sym_userret = 0x8000709c, sym_usertrap = 0x80002000,
     sym_kernelvec = 0x80005000, sym_forkret = 0x80001000\<rparr>"

definition kboot0 :: kstate where
  "kboot0 = kboot link0 (\<lambda>_. replicate BSIZE 0)"

lemma kboot0_simps [simp]:
  "link kboot0 = link0" "held kboot0 = []" "mem kboot0 = (\<lambda>_. 0)" "freelist kboot0 = 0"
  "procs kboot0 = (\<lambda>_. proc0)" "curproc kboot0 = None" "initproc kboot0 = None" "nextpid kboot0 = 1"
  "bufs kboot0 = (\<lambda>_. buf0)" "itable kboot0 = (\<lambda>_. inode0)" "ftable kboot0 = (\<lambda>_. file0)"
  "pipes kboot0 = (\<lambda>_. pipe0)" "dsk kboot0 = (\<lambda>_. replicate BSIZE 0)" "dwrites kboot0 = []"
  "ticks kboot0 = 0" "io_out kboot0 = []" "sie kboot0 = False"
  "panicking kboot0 = False" "panicked kboot0 = False" "forkret_first kboot0 = True" "vdisk kboot0 = disk0"
  by (simp_all add: kboot0_def kboot_def)

end
