(* ===== verification/Kalloc.thy ===== *)
theory Kalloc
  imports Kstate Strings
begin

text \<open>
  The page allocator (\<open>kernel/kalloc.c\<close>).  Free pages are linked through their first eight bytes;
  \<open>kmem_inv\<close> relates that chain in physical memory to the list of free pages.  The lemmas give
  the exact effect of \<open>kalloc\<close> and \<open>kfree\<close>, and \<open>kinit\<close> is shown to free exactly the whole
  pages between the end of the kernel image and \<open>PHYSTOP\<close>.
\<close>

section \<open>The allocator\<close>

definition kfree :: "uint64 \<Rightarrow> kstate \<Rightarrow> unit kres" where
  "kfree pa s =
    (if pa mod PGSIZE \<noteq> 0 \<or> pa < sym_end (link s) \<or> pa \<ge> PHYSTOP then panic ''kfree'' s
     else let s = s\<lparr>mem := memset (mem s) (unat pa) 1 (unat PGSIZE)\<rparr> in
       bnd (kacquire KmemLock s) (\<lambda>_ s.
       let s = s\<lparr>mem := store64 (mem s) (unat pa) (freelist s)\<rparr>;
           s = s\<lparr>freelist := pa\<rparr> in
       krelease KmemLock s))"

definition kalloc :: "kstate \<Rightarrow> uint64 kres" where
  "kalloc s =
    bnd (kacquire KmemLock s) (\<lambda>_ s.
    let r = freelist s;
        s = (if r \<noteq> 0 then s\<lparr>freelist := load64 (mem s) (unat r)\<rparr> else s) in
    bnd (krelease KmemLock s) (\<lambda>_ s.
    let s = (if r \<noteq> 0 then s\<lparr>mem := memset (mem s) (unat r) 5 (unat PGSIZE)\<rparr> else s) in
    Done r s))"

lemma PGSIZE_unat [simp]: "unat PGSIZE = 4096"
  by (simp add: PGSIZE_def)

lemma mod_PGSIZE: "(pa mod PGSIZE = 0) = (unat pa mod 4096 = 0)"
  by (simp add: word_unat_eq_iff unat_mod PGSIZE_def)

lemma kfree_page: "kfree p s = Done r t \<Longrightarrow> unat p mod 4096 = 0 \<and> sym_end (link s) \<le> p \<and> p < PHYSTOP"
  by (auto simp: kfree_def mod_PGSIZE split: if_splits)

lemma unat_next_page: "p < PHYSTOP \<Longrightarrow> unat (p + PGSIZE) = unat p + 4096"
  by (subst unat_add_lt) (auto simp: PHYSTOP_val word_less_nat_alt)

function freerange_loop :: "uint64 \<Rightarrow> uint64 \<Rightarrow> kstate \<Rightarrow> unit kres" where
  "freerange_loop p pa_end s =
    (if p + PGSIZE \<le> pa_end
     then bnd (kfree p s) (\<lambda>_ s. freerange_loop (p + PGSIZE) pa_end s)
     else Done () s)"
  by pat_completeness auto
termination
proof (relation "measure (\<lambda>(p, _, _). 2 ^ 64 - unat p)")
  fix p pa_end :: uint64 and s t :: kstate and u :: unit
  assume "kfree p s = Done u t"
  then have "p < PHYSTOP" using kfree_page by blast
  then have "unat p < unat (p + PGSIZE)" by (simp add: unat_next_page)
  then show "((p + PGSIZE, pa_end, t), p, pa_end, s) \<in> measure (\<lambda>(p, _, _). 2 ^ 64 - unat p)"
    using unat_lt64 [of p] by (simp del: unat_lt64)
qed simp

declare freerange_loop.simps [simp del]

definition freerange :: "uint64 \<Rightarrow> uint64 \<Rightarrow> kstate \<Rightarrow> unit kres" where
  "freerange pa_start pa_end s = freerange_loop (PGROUNDUP pa_start) pa_end s"

definition kinit :: "kstate \<Rightarrow> unit kres" where
  "kinit s = freerange (sym_end (link s)) PHYSTOP s"

section \<open>Pages of physical memory\<close>

definition aligned :: "uint64 \<Rightarrow> bool" where
  "aligned p \<longleftrightarrow> unat p mod 4096 = 0"

definition in_page :: "uint64 \<Rightarrow> nat \<Rightarrow> bool" where
  "in_page p x \<longleftrightarrow> unat p \<le> x \<and> x < unat p + 4096"

definition only_in :: "uint64 set \<Rightarrow> pmem \<Rightarrow> pmem \<Rightarrow> bool" where
  "only_in P m m' \<longleftrightarrow> (\<forall>x. (\<forall>p \<in> P. \<not> in_page p x) \<longrightarrow> m' x = m x)"

definition kpage :: "linksyms \<Rightarrow> uint64 \<Rightarrow> bool" where
  "kpage l p \<longleftrightarrow> aligned p \<and> sym_end l \<le> p \<and> p < PHYSTOP"

lemma page_disj:
  assumes "aligned p" "aligned q" "p \<noteq> q"
  shows "unat p + 4096 \<le> unat q \<or> unat q + 4096 \<le> unat p"
proof -
  obtain a b where ab: "unat p = 4096 * a" "unat q = 4096 * b"
    using assms(1,2) unfolding aligned_def mod_eq_0_iff_dvd dvd_def by blast
  have "unat p \<noteq> unat q" using assms(3) by (simp add: word_unat_eq_iff)
  then have "a + 1 \<le> b \<or> b + 1 \<le> a" using ab by auto
  then show ?thesis using ab by auto
qed

lemma in_page_unique: "\<lbrakk>in_page p x; in_page q x; aligned p; aligned q\<rbrakk> \<Longrightarrow> p = q"
  using page_disj [of p q] by (auto simp: in_page_def)

lemma only_in_refl [simp]: "only_in P m m"
  by (simp add: only_in_def)

lemma only_in_trans: "only_in P m m' \<Longrightarrow> only_in Q m' m'' \<Longrightarrow> only_in (P \<union> Q) m m''"
  by (auto simp: only_in_def)

lemma only_in_mono: "only_in P m m' \<Longrightarrow> P \<subseteq> Q \<Longrightarrow> only_in Q m m'"
  by (auto simp: only_in_def)

lemma only_in_wr: "p \<in> P \<Longrightarrow> unat p \<le> a \<Longrightarrow> a + length bs \<le> unat p + 4096 \<Longrightarrow> only_in P m (wr m a bs)"
  by (auto simp: only_in_def in_page_def intro!: wr_other dest!: bspec [of P _ p])

lemma only_in_store64: "p \<in> P \<Longrightarrow> unat p \<le> a \<Longrightarrow> a + 8 \<le> unat p + 4096 \<Longrightarrow> only_in P m (store64 m a v)"
  by (simp add: store64_def only_in_wr)

lemma only_in_load64:
  assumes "only_in P m m'" "aligned q" "\<forall>p \<in> P. aligned p" "q \<notin> P" "k + 8 \<le> 4096"
  shows "load64 m' (unat q + k) = load64 m (unat q + k)"
proof (rule load64_cong)
  fix i :: nat assume "i < 8"
  then have "in_page q (unat q + k + i)" using assms(5) by (simp add: in_page_def)
  then show "m' (unat q + k + i) = m (unat q + k + i)"
    using assms in_page_unique unfolding only_in_def by metis
qed

lemma only_in_rd:
  assumes "only_in P m m'" "aligned q" "\<forall>p \<in> P. aligned p" "q \<notin> P" "k + n \<le> 4096"
  shows "rd m' (unat q + k) n = rd m (unat q + k) n"
proof (rule rd_eqI)
  fix i :: nat assume "i < n"
  then have "in_page q (unat q + k + i)" using assms(5) by (simp add: in_page_def)
  then show "m' (unat q + k + i) = m (unat q + k + i)"
    using assms in_page_unique unfolding only_in_def by metis
qed

section \<open>The free list\<close>

fun flist :: "pmem \<Rightarrow> uint64 \<Rightarrow> uint64 list \<Rightarrow> bool" where
  "flist m h [] \<longleftrightarrow> h = 0"
| "flist m h (p # ps) \<longleftrightarrow> h = p \<and> p \<noteq> 0 \<and> flist m (load64 m (unat p)) ps"

definition kmem_inv :: "kstate \<Rightarrow> uint64 list \<Rightarrow> bool" where
  "kmem_inv s ps \<longleftrightarrow> flist (mem s) (freelist s) ps \<and> distinct ps
    \<and> (\<forall>p \<in> set ps. kpage (link s) p) \<and> 0 < sym_end (link s)"

lemma kpage_aligned [simp]: "kpage l p \<Longrightarrow> aligned p"
  by (simp add: kpage_def)

lemma kpage_bounds: "kpage l p \<Longrightarrow> unat (sym_end l) \<le> unat p \<and> unat p + 4096 \<le> 0x88000000"
proof -
  assume k: "kpage l p"
  obtain a where a: "unat p = 4096 * a"
    using k unfolding kpage_def aligned_def mod_eq_0_iff_dvd dvd_def by blast
  moreover have "unat p < 0x88000000" using k by (simp add: kpage_def PHYSTOP_val word_less_nat_alt)
  ultimately have "unat p + 4096 \<le> 0x88000000" by simp
  then show ?thesis using k by (simp add: kpage_def word_le_nat_alt)
qed

lemma flist_cong:
  "(\<And>p. p \<in> set ps \<Longrightarrow> load64 m' (unat p) = load64 m (unat p)) \<Longrightarrow> flist m' h ps = flist m h ps"
  by (induction ps arbitrary: h) auto

lemma flist_only_in:
  assumes "only_in P m m'" "\<forall>p \<in> P. aligned p" "set ps \<inter> P = {}" "\<forall>p \<in> set ps. aligned p"
  shows "flist m' h ps = flist m h ps"
proof (rule flist_cong)
  fix p assume "p \<in> set ps"
  then show "load64 m' (unat p) = load64 m (unat p)"
    using only_in_load64 [OF assms(1), of p 0] assms(2-4) by auto
qed

lemma kmem_inv_frame:
  assumes "kmem_inv s ps" "only_in P (mem s) (mem t)" "\<forall>p \<in> P. aligned p" "set ps \<inter> P = {}"
    "freelist t = freelist s" "link t = link s"
  shows "kmem_inv t ps"
proof -
  have "\<forall>p \<in> set ps. aligned p" using assms(1) by (auto simp: kmem_inv_def)
  then show ?thesis
    using assms flist_only_in [of P "mem s" "mem t" ps "freelist s"] by (auto simp: kmem_inv_def)
qed

section \<open>Exact effect of the operations\<close>

lemma kalloc_none:
  "\<lbrakk>kmem_inv s []; KmemLock \<notin> set (held s)\<rbrakk> \<Longrightarrow> kalloc s = Done 0 s"
  by (simp add: kalloc_def kmem_inv_def Let_def)

lemma kalloc_some:
  assumes "kmem_inv s (p # ps)" "KmemLock \<notin> set (held s)"
  shows "kalloc s = Done p (s\<lparr>mem := wr (mem s) (unat p) (replicate 4096 5),
    freelist := load64 (mem s) (unat p)\<rparr>)"
  using assms by (simp add: kalloc_def kmem_inv_def Let_def memset_wr)

lemma kalloc_inv:
  assumes "kmem_inv s (p # ps)"
  shows "kmem_inv (s\<lparr>mem := wr (mem s) (unat p) (replicate 4096 5), freelist := load64 (mem s) (unat p)\<rparr>) ps"
proof -
  have "only_in {p} (mem s) (wr (mem s) (unat p) (replicate 4096 5))"
    by (rule only_in_wr) auto
  then have "flist (wr (mem s) (unat p) (replicate 4096 5)) h ps = flist (mem s) h ps" for h
    using assms by (intro flist_only_in) (auto simp: kmem_inv_def)
  then show ?thesis using assms by (simp add: kmem_inv_def)
qed

lemma kfree_eq:
  assumes "kpage (link s) p" "KmemLock \<notin> set (held s)"
  shows "kfree p s = Done () (s\<lparr>mem := store64 (wr (mem s) (unat p) (replicate 4096 1)) (unat p) (freelist s),
    freelist := p\<rparr>)"
  using assms by (simp add: kfree_def kpage_def aligned_def mod_PGSIZE Let_def memset_wr not_less not_le)

lemma only_in_kfree: "only_in {p} m (store64 (wr m (unat p) (replicate 4096 1)) (unat p) v)"
proof -
  have "only_in {p} m (wr m (unat p) (replicate 4096 1))"
    "only_in {p} (wr m (unat p) (replicate 4096 1)) (store64 (wr m (unat p) (replicate 4096 1)) (unat p) v)"
    by (auto intro: only_in_wr only_in_store64)
  then show ?thesis using only_in_trans by fastforce
qed

lemma kfree_inv:
  assumes "kmem_inv s ps" "kpage (link s) p" "p \<notin> set ps"
  shows "kmem_inv (s\<lparr>mem := store64 (wr (mem s) (unat p) (replicate 4096 1)) (unat p) (freelist s),
    freelist := p\<rparr>) (p # ps)"
proof -
  have "flist (store64 (wr (mem s) (unat p) (replicate 4096 1)) (unat p) (freelist s)) h ps = flist (mem s) h ps" for h
    using assms by (intro flist_only_in [OF only_in_kfree]) (auto simp: kmem_inv_def)
  moreover have "p \<noteq> 0" using assms by (auto simp: kmem_inv_def kpage_def)
  ultimately show ?thesis using assms by (simp add: kmem_inv_def load64_store64_same)
qed

lemma kfree_bad: "\<not> kpage (link s) p \<Longrightarrow> kfree p s = Stop (Panic ''kfree'') s"
  by (auto simp: kfree_def kpage_def aligned_def mod_PGSIZE)

section \<open>Initialisation\<close>

definition pages :: "uint64 \<Rightarrow> nat \<Rightarrow> uint64 list" where
  "pages p n = map (\<lambda>i. p + of_nat i * PGSIZE) [0..<n]"

lemma pages_0 [simp]: "pages p 0 = []"
  by (simp add: pages_def)

lemma pages_Suc: "pages p (Suc n) = p # pages (p + PGSIZE) n"
  unfolding pages_def by (rule nth_equalityI) (auto simp: nth_Cons' nth_append algebra_simps simp del: upt_Suc)

lemma unat_pages:
  assumes "unat p + 4096 * n \<le> 0x88000000" "i < n"
  shows "unat (p + of_nat i * PGSIZE) = unat p + 4096 * i"
proof -
  have "unat (of_nat i * PGSIZE) = 4096 * i"
    using assms by (simp add: unat_mult_lem [THEN iffD1] unat_word_ariths PGSIZE_def unat_of_nat)
  then show ?thesis using assms by (subst unat_add_lt) auto
qed

lemma set_pages_ge:
  "unat p + 4096 * n \<le> 0x88000000 \<Longrightarrow> q \<in> set (pages p n) \<Longrightarrow> unat p \<le> unat q"
  by (auto simp: pages_def unat_pages)

lemma freerange_loop_spec:
  assumes "kmem_inv s ps" "KmemLock \<notin> set (held s)" "aligned p" "sym_end (link s) \<le> p"
    "unat p + 4096 * n \<le> 0x88000000" "0x88000000 < unat p + 4096 * (n + 1)"
    "\<forall>q \<in> set ps. unat q < unat p"
  shows "\<exists>t. freerange_loop p PHYSTOP s = Done () t \<and> kmem_inv t (rev (pages p n) @ ps)
    \<and> t = s\<lparr>mem := mem t, freelist := freelist t\<rparr>"
  using assms
proof (induction n arbitrary: p s ps)
  case 0
  have "unat (p + PGSIZE) = unat p + 4096" using 0 by (subst unat_add_lt) auto
  then have "\<not> p + PGSIZE \<le> PHYSTOP" using 0 by (simp add: word_le_nat_alt PHYSTOP_val)
  then show ?case using 0 by (simp add: freerange_loop.simps)
next
  case (Suc n)
  let ?s = "s\<lparr>mem := store64 (wr (mem s) (unat p) (replicate 4096 1)) (unat p) (freelist s), freelist := p\<rparr>"
  have np: "unat (p + PGSIZE) = unat p + 4096" using Suc.prems by (subst unat_add_lt) auto
  then have le: "p + PGSIZE \<le> PHYSTOP" "p < PHYSTOP" "p \<le> p + PGSIZE"
    using Suc.prems by (auto simp: word_le_nat_alt word_less_nat_alt PHYSTOP_val)
  then have k: "kpage (link s) p" using Suc.prems by (simp add: kpage_def)
  have "p \<notin> set ps" using Suc.prems(7) by auto
  then have inv: "kmem_inv ?s (p # ps)" using kfree_inv Suc.prems(1) k by blast
  have "sym_end (link s) \<le> p + PGSIZE" using Suc.prems(4) le(3) by (rule order_trans)
  moreover have "aligned (p + PGSIZE)" using Suc.prems(3) by (simp add: aligned_def np)
  moreover have "\<forall>q \<in> set (p # ps). unat q < unat (p + PGSIZE)" using Suc.prems(7) np by auto
  ultimately obtain t where t: "freerange_loop (p + PGSIZE) PHYSTOP ?s = Done () t"
    "kmem_inv t (rev (pages (p + PGSIZE) n) @ (p # ps))" "t = ?s\<lparr>mem := mem t, freelist := freelist t\<rparr>"
    using Suc.IH [OF inv, of "p + PGSIZE"] Suc.prems np by auto
  have "t = s\<lparr>mem := mem t, freelist := freelist t\<rparr>" by (subst t(3)) simp
  then show ?case
    using t(1,2) le kfree_eq [OF k Suc.prems(2)] by (subst freerange_loop.simps) (simp add: pages_Suc)
qed

text \<open>\<open>kinit\<close> puts every whole page of the range on the list.\<close>

lemma set_pages_eq:
  assumes "aligned p" "unat p + 4096 * n \<le> 0x88000000" "0x88000000 < unat p + 4096 * (n + 1)"
  shows "set (pages p n) = {q. aligned q \<and> p \<le> q \<and> q < PHYSTOP}"
proof (intro equalityI subsetI)
  fix q assume "q \<in> set (pages p n)"
  then obtain i where i: "i < n" "q = p + of_nat i * PGSIZE" by (auto simp: pages_def)
  then have u: "unat q = unat p + 4096 * i" using unat_pages assms(2) by simp
  then have "unat q mod 4096 = 0" using assms(1) by (simp add: aligned_def)
  then show "q \<in> {q. aligned q \<and> p \<le> q \<and> q < PHYSTOP}"
    using u i assms(2) by (simp add: aligned_def word_le_nat_alt word_less_nat_alt PHYSTOP_val)
next
  fix q assume "q \<in> {q. aligned q \<and> p \<le> q \<and> q < PHYSTOP}"
  then have q: "unat q mod 4096 = 0" "unat p \<le> unat q" "unat q < 0x88000000"
    by (simp_all add: aligned_def word_le_nat_alt word_less_nat_alt PHYSTOP_val)
  obtain a b where ab: "unat p = 4096 * a" "unat q = 4096 * b"
    using assms(1) q(1) unfolding aligned_def mod_eq_0_iff_dvd dvd_def by blast
  define i where "i = b - a"
  have i: "unat q = unat p + 4096 * i" "i < n" using ab q assms(2,3) unfolding i_def by auto
  then have "q = p + of_nat i * PGSIZE" using unat_pages [OF assms(2) i(2)] by (simp add: word_unat_eq_iff)
  then show "q \<in> set (pages p n)" using i by (auto simp: pages_def)
qed

lemma PGROUNDUP_le_iff:
  assumes "unat e + 4095 < 2 ^ 64" "aligned q"
  shows "PGROUNDUP e \<le> q \<longleftrightarrow> e \<le> q"
proof -
  obtain b where b: "unat q = 4096 * b" using assms(2) unfolding aligned_def mod_eq_0_iff_dvd dvd_def by blast
  have "(unat e + 4095) div 4096 * 4096 \<le> 4096 * b \<longleftrightarrow> (unat e + 4095) div 4096 \<le> b" by simp
  also have "\<dots> \<longleftrightarrow> unat e + 4095 < Suc b * 4096"
    by (simp only: less_Suc_eq_le [symmetric] div_less_iff_less_mult [OF zero_less_numeral])
  also have "\<dots> \<longleftrightarrow> unat e \<le> 4096 * b" by auto
  finally show ?thesis using b by (simp add: word_le_nat_alt unat_PGROUNDUP [OF assms(1)])
qed

lemma kinit_spec:
  assumes "0 < sym_end (link s)" "sym_end (link s) \<le> PHYSTOP" "freelist s = 0" "KmemLock \<notin> set (held s)"
  shows "\<exists>t ps. kinit s = Done () t \<and> kmem_inv t ps \<and> set ps = {p. kpage (link s) p}
    \<and> t = s\<lparr>mem := mem t, freelist := freelist t\<rparr>"
proof -
  define e where "e = sym_end (link s)"
  have e: "unat e + 4095 < 2 ^ 64" "unat e \<le> 0x88000000"
    using assms(2) by (simp_all add: e_def word_le_nat_alt PHYSTOP_val)
  define p where "p = PGROUNDUP e"
  have up: "unat p = (unat e + 4095) div 4096 * 4096" using unat_PGROUNDUP [OF e(1)] by (simp add: p_def)
  have "unat p \<le> (0x88000000 + 4095) div 4096 * 4096"
    unfolding up using e(2) by (intro mult_le_mono1 div_le_mono) simp
  then have ple: "unat p \<le> 0x88000000" by simp
  have al: "aligned p" by (simp add: aligned_def up)
  define n where "n = (0x88000000 - unat p) div 4096"
  define x r where "x = 0x88000000 - unat p" and "r = x mod 4096"
  have "4096 * n + r = x" "r < 4096" "unat p + x = 0x88000000"
    using ple by (simp_all add: x_def r_def n_def)
  then have n: "unat p + 4096 * n \<le> 0x88000000" "0x88000000 < unat p + 4096 * (n + 1)" by auto
  have "e \<le> p" using PGROUNDUP_le_iff [OF e(1) al] by (simp add: p_def)
  then obtain t where t: "freerange_loop p PHYSTOP s = Done () t" "kmem_inv t (rev (pages p n) @ [])"
    "t = s\<lparr>mem := mem t, freelist := freelist t\<rparr>"
    using freerange_loop_spec [of s "[]" p n] assms al n by (auto simp: kmem_inv_def e_def)
  have "set (rev (pages p n) @ []) = {q. kpage (link s) q}"
    using set_pages_eq [OF al n] PGROUNDUP_le_iff [OF e(1)] by (auto simp: kpage_def p_def e_def)
  then show ?thesis using t unfolding kinit_def freerange_def p_def e_def by blast
qed

section \<open>Properties\<close>

text \<open>C16: \<open>kinit\<close> returns and leaves a well-formed free list that holds every whole page between the end of
  the kernel image and \<open>PHYSTOP\<close> exactly once, and changes nothing but memory and the list head.\<close>

theorem kinit_frees_all_pages:
  assumes "0 < sym_end (link s)" "sym_end (link s) \<le> PHYSTOP" "freelist s = 0" "KmemLock \<notin> set (held s)"
  shows "\<exists>t ps. kinit s = Done () t \<and> kmem_inv t ps \<and> set ps = {p. kpage (link s) p}
    \<and> t = s\<lparr>mem := mem t, freelist := freelist t\<rparr>"
  using kinit_spec [OF assms] .

theorem kinit_frees_all_pages_witness:
  "\<exists>t ps. kinit kboot0 = Done () t \<and> kmem_inv t ps \<and> 0x80021000 \<in> set ps \<and> 0x80020000 \<notin> set ps"
proof -
  have "sym_end (link kboot0) \<le> PHYSTOP" "0 < sym_end (link kboot0)"
    by (simp_all add: link0_def PHYSTOP_val)
  then obtain t ps where "kinit kboot0 = Done () t" "kmem_inv t ps" "set ps = {p. kpage link0 p}"
    using kinit_frees_all_pages [of kboot0] by auto
  moreover have "kpage link0 0x80021000" "\<not> kpage link0 0x80020000"
    by (simp_all add: kpage_def aligned_def link0_def PHYSTOP_val)
  ultimately show ?thesis by blast
qed

text \<open>C15: the free list stays well formed under both operations.  \<open>kalloc\<close> on an empty list returns 0 and
  changes nothing; otherwise it returns the first free page, takes exactly that page off the list and
  writes only into it.  Freeing a page of the allocator's range that is not free puts it in front, writes
  only into it, and the next \<open>kalloc\<close> returns it.\<close>

theorem kalloc_kfree_correct:
  assumes "kmem_inv s ps" "KmemLock \<notin> set (held s)"
  shows "(ps = [] \<longrightarrow> kalloc s = Done 0 s)
    \<and> (\<forall>p qs. ps = p # qs \<longrightarrow> (\<exists>t. kalloc s = Done p t \<and> kmem_inv t qs \<and> p \<notin> set qs \<and> p \<noteq> 0
         \<and> only_in {p} (mem s) (mem t) \<and> t = s\<lparr>mem := mem t, freelist := freelist t\<rparr>))
    \<and> (\<forall>p. kpage (link s) p \<and> p \<notin> set ps \<longrightarrow> (\<exists>t. kfree p s = Done () t \<and> kmem_inv t (p # ps)
         \<and> only_in {p} (mem s) (mem t) \<and> (\<exists>u. kalloc t = Done p u \<and> kmem_inv u ps)))"
proof (intro conjI allI impI)
  show "kalloc s = Done 0 s" if "ps = []" using kalloc_none assms that by simp
next
  fix p qs assume ps: "ps = p # qs"
  let ?t = "s\<lparr>mem := wr (mem s) (unat p) (replicate 4096 5), freelist := load64 (mem s) (unat p)\<rparr>"
  have "kalloc s = Done p ?t" "kmem_inv ?t qs" using kalloc_some kalloc_inv assms ps by auto
  moreover have "only_in {p} (mem s) (mem ?t)" by (auto intro: only_in_wr)
  moreover have "p \<notin> set qs" "p \<noteq> 0" using assms(1) ps by (auto simp: kmem_inv_def)
  ultimately show "\<exists>t. kalloc s = Done p t \<and> kmem_inv t qs \<and> p \<notin> set qs \<and> p \<noteq> 0
      \<and> only_in {p} (mem s) (mem t) \<and> t = s\<lparr>mem := mem t, freelist := freelist t\<rparr>"
    by (intro exI [of _ ?t]) simp
next
  fix p assume p: "kpage (link s) p \<and> p \<notin> set ps"
  let ?t = "s\<lparr>mem := store64 (wr (mem s) (unat p) (replicate 4096 1)) (unat p) (freelist s), freelist := p\<rparr>"
  have t: "kfree p s = Done () ?t" "kmem_inv ?t (p # ps)" using kfree_eq kfree_inv assms p by auto
  moreover have "only_in {p} (mem s) (mem ?t)" using only_in_kfree by simp
  moreover have "\<exists>u. kalloc ?t = Done p u \<and> kmem_inv u ps"
    using kalloc_some [OF t(2)] kalloc_inv [OF t(2)] assms(2) by auto
  ultimately show "\<exists>t. kfree p s = Done () t \<and> kmem_inv t (p # ps) \<and> only_in {p} (mem s) (mem t)
      \<and> (\<exists>u. kalloc t = Done p u \<and> kmem_inv u ps)" by blast
qed

theorem kalloc_kfree_correct_witness:
  "\<exists>t. kfree 0x80021000 kboot0 = Done () t \<and> kmem_inv t [0x80021000]
    \<and> (\<exists>u. kalloc t = Done 0x80021000 u \<and> kmem_inv u [])"
proof -
  have "kmem_inv kboot0 []" "kpage link0 0x80021000"
    by (simp_all add: kmem_inv_def kpage_def aligned_def link0_def PHYSTOP_val)
  then show ?thesis using kalloc_kfree_correct [of kboot0 "[]"] by auto
qed

end
