(* ===== verification/Vm.thy ===== *)
theory Vm
  imports Kalloc
begin

text \<open>
  Virtual memory (\<open>kernel/vm.c\<close>): the three-level page tables in physical memory, their walk, mapping
  and unmapping, user memory growth and copy, and the copies between kernel and user space with
  lazy allocation.  The lemmas abstract a page table to the leaf entry of every virtual page
  (\<open>leaf\<close>) and to the pages the tree owns (\<open>ptpages\<close>).
\<close>

section \<open>Walking and mapping\<close>

definition pte_addr :: "uint64 \<Rightarrow> nat \<Rightarrow> uint64 \<Rightarrow> uint64" where
  "pte_addr pagetable level va = pagetable + 8 * PX level va"

fun walk_loop :: "nat \<Rightarrow> uint64 \<Rightarrow> uint64 \<Rightarrow> bool \<Rightarrow> kstate \<Rightarrow> uint64 kres" where
  "walk_loop 0 pagetable va alloc s = Done (pte_addr pagetable 0 va) s"
| "walk_loop (Suc n) pagetable va alloc s =
    (let pte = pte_addr pagetable (Suc n) va;
         e = load64 (mem s) (unat pte) in
     if e AND PTE_V \<noteq> 0 then walk_loop n (PTE2PA e) va alloc s
     else if \<not> alloc then Done 0 s
     else bnd (kalloc s) (\<lambda>pagetable s.
       if pagetable = 0 then Done 0 s
       else let s = s\<lparr>mem := memset (mem s) (unat pagetable) 0 (unat PGSIZE)\<rparr>;
                s = s\<lparr>mem := store64 (mem s) (unat pte) (PA2PTE pagetable OR PTE_V)\<rparr> in
         walk_loop n pagetable va alloc s))"

definition walk :: "uint64 \<Rightarrow> uint64 \<Rightarrow> bool \<Rightarrow> kstate \<Rightarrow> uint64 kres" where
  "walk pagetable va alloc s = (if va \<ge> MAXVA then panic ''walk'' s else walk_loop 2 pagetable va alloc s)"

definition walkaddr :: "uint64 \<Rightarrow> uint64 \<Rightarrow> kstate \<Rightarrow> uint64 kres" where
  "walkaddr pagetable va s =
    (if va \<ge> MAXVA then Done 0 s
     else bnd (walk pagetable va False s) (\<lambda>pte s.
       if pte = 0 then Done 0 s
       else let e = load64 (mem s) (unat pte) in
         if e AND PTE_V = 0 then Done 0 s
         else if e AND PTE_U = 0 then Done 0 s
         else Done (PTE2PA e) s))"

lemma walk_Done: "walk pagetable va alloc s = Done r t \<Longrightarrow> va < MAXVA"
  by (auto simp: walk_def not_le split: if_splits)

lemma unat_next_va: "va < MAXVA \<Longrightarrow> unat (va + PGSIZE) = unat va + 4096"
  by (subst unat_add_lt) (auto simp: MAXVA_val word_less_nat_alt)

function mappages_loop :: "uint64 \<Rightarrow> uint64 \<Rightarrow> uint64 \<Rightarrow> uint64 \<Rightarrow> uint64 \<Rightarrow> kstate \<Rightarrow> int kres" where
  "mappages_loop pagetable a last_a pa perm s =
    bnd (walk pagetable a True s) (\<lambda>pte s.
    if pte = 0 then Done (-1) s
    else if load64 (mem s) (unat pte) AND PTE_V \<noteq> 0 then panic ''mappages: remap'' s
    else let s = s\<lparr>mem := store64 (mem s) (unat pte) (PA2PTE pa OR perm OR PTE_V)\<rparr> in
      if a = last_a then Done 0 s
      else mappages_loop pagetable (a + PGSIZE) last_a (pa + PGSIZE) perm s)"
  by pat_completeness auto
termination
proof (relation "measure (\<lambda>(_, a, _). 2 ^ 64 - unat a)")
  fix pagetable a last_a pa perm pte :: uint64 and s t u :: kstate
  assume "walk pagetable a True s = Done pte t"
  then have "unat (a + PGSIZE) = unat a + 4096" by (intro unat_next_va walk_Done)
  then show "((pagetable, a + PGSIZE, last_a, pa + PGSIZE, perm, u), pagetable, a, last_a, pa, perm, s)
      \<in> measure (\<lambda>(_, a, _). 2 ^ 64 - unat a)"
    using unat_lt64 [of a] by (simp del: unat_lt64)
qed simp

declare mappages_loop.simps [simp del]

definition mappages :: "uint64 \<Rightarrow> uint64 \<Rightarrow> uint64 \<Rightarrow> uint64 \<Rightarrow> uint64 \<Rightarrow> kstate \<Rightarrow> int kres" where
  "mappages pagetable va sz pa perm s =
    (if va mod PGSIZE \<noteq> 0 then panic ''mappages: va not aligned'' s
     else if sz mod PGSIZE \<noteq> 0 then panic ''mappages: size not aligned'' s
     else if sz = 0 then panic ''mappages: size'' s
     else mappages_loop pagetable va (va + sz - PGSIZE) pa perm s)"

definition kvmmap :: "uint64 \<Rightarrow> uint64 \<Rightarrow> uint64 \<Rightarrow> uint64 \<Rightarrow> uint64 \<Rightarrow> kstate \<Rightarrow> unit kres" where
  "kvmmap kpgtbl va pa sz perm s =
    bnd (mappages kpgtbl va sz pa perm s) (\<lambda>r s. if r \<noteq> 0 then panic ''kvmmap'' s else Done () s)"

definition proc_mapstacks :: "uint64 \<Rightarrow> kstate \<Rightarrow> unit kres" where
  "proc_mapstacks kpgtbl s = foreach (\<lambda>p s.
     bnd (kalloc s) (\<lambda>pa s.
     if pa = 0 then panic ''kalloc'' s
     else kvmmap kpgtbl (KSTACK p) pa PGSIZE (PTE_R OR PTE_W) s)) [0..<NPROC] s"

definition kvmmake :: "kstate \<Rightarrow> uint64 kres" where
  "kvmmake s =
    bnd (kalloc s) (\<lambda>kpgtbl s.
    let s = s\<lparr>mem := memset (mem s) (unat kpgtbl) 0 (unat PGSIZE)\<rparr>; etext = sym_etext (link s) in
    bnd (kvmmap kpgtbl UART0 UART0 PGSIZE (PTE_R OR PTE_W) s) (\<lambda>_ s.
    bnd (kvmmap kpgtbl VIRTIO0 VIRTIO0 PGSIZE (PTE_R OR PTE_W) s) (\<lambda>_ s.
    bnd (kvmmap kpgtbl PLIC PLIC 0x4000000 (PTE_R OR PTE_W) s) (\<lambda>_ s.
    bnd (kvmmap kpgtbl KERNBASE KERNBASE (etext - KERNBASE) (PTE_R OR PTE_X) s) (\<lambda>_ s.
    bnd (kvmmap kpgtbl etext etext (PHYSTOP - etext) (PTE_R OR PTE_W) s) (\<lambda>_ s.
    bnd (kvmmap kpgtbl TRAMPOLINE (sym_trampoline (link s)) PGSIZE (PTE_R OR PTE_X) s) (\<lambda>_ s.
    bnd (proc_mapstacks kpgtbl s) (\<lambda>_ s. Done kpgtbl s))))))))"

definition kvminit :: "kstate \<Rightarrow> unit kres" where
  "kvminit s = bnd (kvmmake s) (\<lambda>pt s. Done () (s\<lparr>kernel_pagetable := pt\<rparr>))"

definition kvminithart :: "kstate \<Rightarrow> kstate" where
  "kvminithart s = s\<lparr>hart := w_satp (MAKE_SATP (kernel_pagetable s)) (hart s)\<rparr>"

section \<open>User memory\<close>

definition uvmcreate :: "kstate \<Rightarrow> uint64 kres" where
  "uvmcreate s =
    bnd (kalloc s) (\<lambda>pagetable s.
    if pagetable = 0 then Done 0 s
    else Done pagetable (s\<lparr>mem := memset (mem s) (unat pagetable) 0 (unat PGSIZE)\<rparr>))"

definition unmap_page :: "uint64 \<Rightarrow> uint64 \<Rightarrow> bool \<Rightarrow> kstate \<Rightarrow> unit kres" where
  "unmap_page pagetable a do_free s =
    bnd (walk pagetable a False s) (\<lambda>pte s.
    if pte = 0 then Done () s
    else let e = load64 (mem s) (unat pte) in
      if e AND PTE_V = 0 then Done () s
      else bnd (if do_free then kfree (PTE2PA e) s else Done () s) (\<lambda>_ s.
        Done () (s\<lparr>mem := store64 (mem s) (unat pte) 0\<rparr>)))"

lemma unmap_page_Done: "unmap_page pagetable a f s = Done r t \<Longrightarrow> a < MAXVA"
  by (auto simp: unmap_page_def bnd_eq_Done dest: walk_Done)

function uvmunmap_loop :: "uint64 \<Rightarrow> uint64 \<Rightarrow> uint64 \<Rightarrow> bool \<Rightarrow> kstate \<Rightarrow> unit kres" where
  "uvmunmap_loop pagetable a end_a do_free s =
    (if a < end_a
     then bnd (unmap_page pagetable a do_free s) (\<lambda>_ s. uvmunmap_loop pagetable (a + PGSIZE) end_a do_free s)
     else Done () s)"
  by pat_completeness auto
termination
proof (relation "measure (\<lambda>(_, a, _). 2 ^ 64 - unat a)")
  fix pagetable a end_a :: uint64 and do_free :: bool and r :: unit and s t :: kstate
  assume "unmap_page pagetable a do_free s = Done r t"
  then have "unat (a + PGSIZE) = unat a + 4096" by (intro unat_next_va unmap_page_Done)
  then show "((pagetable, a + PGSIZE, end_a, do_free, t), pagetable, a, end_a, do_free, s)
      \<in> measure (\<lambda>(_, a, _). 2 ^ 64 - unat a)"
    using unat_lt64 [of a] by (simp del: unat_lt64)
qed simp

declare uvmunmap_loop.simps [simp del]

definition uvmunmap :: "uint64 \<Rightarrow> uint64 \<Rightarrow> uint64 \<Rightarrow> bool \<Rightarrow> kstate \<Rightarrow> unit kres" where
  "uvmunmap pagetable va npages do_free s =
    (if va mod PGSIZE \<noteq> 0 then panic ''uvmunmap: not aligned'' s
     else uvmunmap_loop pagetable va (va + npages * PGSIZE) do_free s)"

definition uvmdealloc :: "uint64 \<Rightarrow> uint64 \<Rightarrow> uint64 \<Rightarrow> kstate \<Rightarrow> uint64 kres" where
  "uvmdealloc pagetable oldsz newsz s =
    (if newsz \<ge> oldsz then Done oldsz s
     else if PGROUNDUP newsz < PGROUNDUP oldsz
     then let npages = (PGROUNDUP oldsz - PGROUNDUP newsz) div PGSIZE in
       bnd (uvmunmap pagetable (PGROUNDUP newsz) (scast (ucast npages :: 32 word)) True s)
         (\<lambda>_ s. Done newsz s)
     else Done newsz s)"

lemma mappages_Done: "mappages pagetable va sz pa perm s = Done r t \<Longrightarrow> va < MAXVA"
  unfolding mappages_def
  by (subst (asm) mappages_loop.simps) (auto simp: bnd_eq_Done split: if_splits dest: walk_Done)

function uvmalloc_loop :: "uint64 \<Rightarrow> uint64 \<Rightarrow> uint64 \<Rightarrow> uint64 \<Rightarrow> uint64 \<Rightarrow> kstate \<Rightarrow> uint64 kres" where
  "uvmalloc_loop pagetable a oldsz newsz xperm s =
    (if a < newsz
     then bnd (kalloc s) (\<lambda>pg s.
       if pg = 0 then bnd (uvmdealloc pagetable a oldsz s) (\<lambda>_ s. Done 0 s)
       else let s = s\<lparr>mem := memset (mem s) (unat pg) 0 (unat PGSIZE)\<rparr> in
         bnd (mappages pagetable a PGSIZE pg (PTE_R OR PTE_U OR xperm) s) (\<lambda>r s.
         if r \<noteq> 0
         then bnd (kfree pg s) (\<lambda>_ s. bnd (uvmdealloc pagetable a oldsz s) (\<lambda>_ s. Done 0 s))
         else uvmalloc_loop pagetable (a + PGSIZE) oldsz newsz xperm s))
     else Done newsz s)"
  by pat_completeness auto
termination
proof (relation "measure (\<lambda>(_, a, _). 2 ^ 64 - unat a)")
  fix pagetable a oldsz newsz xperm pg :: uint64 and r :: int and s t u v :: kstate
  assume "mappages pagetable a PGSIZE pg (PTE_R OR PTE_U OR xperm) u = Done r v"
  then have "unat (a + PGSIZE) = unat a + 4096" by (intro unat_next_va mappages_Done)
  then show "((pagetable, a + PGSIZE, oldsz, newsz, xperm, v), pagetable, a, oldsz, newsz, xperm, s)
      \<in> measure (\<lambda>(_, a, _). 2 ^ 64 - unat a)"
    using unat_lt64 [of a] by (simp del: unat_lt64)
qed simp

declare uvmalloc_loop.simps [simp del]

definition uvmalloc :: "uint64 \<Rightarrow> uint64 \<Rightarrow> uint64 \<Rightarrow> uint64 \<Rightarrow> kstate \<Rightarrow> uint64 kres" where
  "uvmalloc pagetable oldsz newsz xperm s =
    (if newsz < oldsz then Done oldsz s
     else uvmalloc_loop pagetable (PGROUNDUP oldsz) (PGROUNDUP oldsz) newsz xperm s)"

text \<open>
  \<open>freewalk\<close> recurses into every child table.  The recursion is bounded by the number of levels; a tree
  deeper than the bound, which the three-level walk never builds, counts as divergence.
\<close>

primrec freewalk_n :: "nat \<Rightarrow> uint64 \<Rightarrow> kstate \<Rightarrow> unit kres" where
  "freewalk_n 0 pagetable s = Stop Diverge s"
| "freewalk_n (Suc n) pagetable s =
    bnd (foreach (\<lambda>i s.
      let pte = load64 (mem s) (unat pagetable + 8 * i) in
      if pte AND PTE_V \<noteq> 0 \<and> pte AND (PTE_R OR PTE_W OR PTE_X) = 0
      then bnd (freewalk_n n (PTE2PA pte) s) (\<lambda>_ s.
        Done () (s\<lparr>mem := store64 (mem s) (unat pagetable + 8 * i) 0\<rparr>))
      else if pte AND PTE_V \<noteq> 0 then panic ''freewalk: leaf'' s
      else Done () s) [0..<512] s) (\<lambda>_ s.
    kfree pagetable s)"

definition freewalk :: "uint64 \<Rightarrow> kstate \<Rightarrow> unit kres" where
  "freewalk pagetable s = freewalk_n 3 pagetable s"

definition uvmfree :: "uint64 \<Rightarrow> uint64 \<Rightarrow> kstate \<Rightarrow> unit kres" where
  "uvmfree pagetable sz s =
    bnd (if sz > 0 then uvmunmap pagetable 0 (PGROUNDUP sz div PGSIZE) True s else Done () s)
      (\<lambda>_ s. freewalk pagetable s)"

definition uvmclear :: "uint64 \<Rightarrow> uint64 \<Rightarrow> kstate \<Rightarrow> unit kres" where
  "uvmclear pagetable va s =
    bnd (walk pagetable va False s) (\<lambda>pte s.
    if pte = 0 then panic ''uvmclear'' s
    else Done () (s\<lparr>mem := store64 (mem s) (unat pte) (load64 (mem s) (unat pte) AND NOT PTE_U)\<rparr>))"

section \<open>Copying an address space\<close>

definition uvmcopy_err :: "uint64 \<Rightarrow> uint64 \<Rightarrow> kstate \<Rightarrow> int kres" where
  "uvmcopy_err new_pt i s = bnd (uvmunmap new_pt 0 (i div PGSIZE) True s) (\<lambda>_ s. Done (-1) s)"

function uvmcopy_loop :: "uint64 \<Rightarrow> uint64 \<Rightarrow> uint64 \<Rightarrow> uint64 \<Rightarrow> kstate \<Rightarrow> int kres" where
  "uvmcopy_loop old_pt new_pt i sz s =
    (if i < sz
     then bnd (walk old_pt i False s) (\<lambda>pte s.
       if pte = 0 then uvmcopy_loop old_pt new_pt (i + PGSIZE) sz s
       else let e = load64 (mem s) (unat pte) in
         if e AND PTE_V = 0 then uvmcopy_loop old_pt new_pt (i + PGSIZE) sz s
         else bnd (kalloc s) (\<lambda>pg s.
           if pg = 0 then uvmcopy_err new_pt i s
           else let s = s\<lparr>mem := memmove (mem s) (unat pg) (unat (PTE2PA e)) (unat PGSIZE)\<rparr> in
             bnd (mappages new_pt i PGSIZE pg (PTE_FLAGS e) s) (\<lambda>r s.
             if r \<noteq> 0 then bnd (kfree pg s) (\<lambda>_ s. uvmcopy_err new_pt i s)
             else uvmcopy_loop old_pt new_pt (i + PGSIZE) sz s)))
     else Done 0 s)"
  by pat_completeness auto
termination
proof -
  have dec: "((a, b, i + PGSIZE, c, t), a, b, i, c, s) \<in> measure (\<lambda>(_, _, i, _). 2 ^ 64 - unat i)"
    if "walk p i False u = Done r v" for a b c i p r :: uint64 and s t u v :: kstate
    using walk_Done [OF that] unat_lt64 [of i] by (simp add: unat_next_va del: unat_lt64)
  show ?thesis
    by (relation "measure (\<lambda>(_, _, i, _). 2 ^ 64 - unat i)") (simp, (rule dec, assumption)+)
qed

declare uvmcopy_loop.simps [simp del]

definition uvmcopy :: "uint64 \<Rightarrow> uint64 \<Rightarrow> uint64 \<Rightarrow> kstate \<Rightarrow> int kres" where
  "uvmcopy old_pt new_pt sz s = uvmcopy_loop old_pt new_pt 0 sz s"

section \<open>Page faults and copies between kernel and user space\<close>

definition ismapped :: "uint64 \<Rightarrow> uint64 \<Rightarrow> kstate \<Rightarrow> bool kres" where
  "ismapped pagetable va s =
    bnd (walk pagetable va False s) (\<lambda>pte s.
    if pte = 0 then Done False s
    else Done (load64 (mem s) (unat pte) AND PTE_V \<noteq> 0) s)"

text \<open>\<open>myproc()\<close> is the current process; following it when there is none is a null dereference.\<close>

definition myproc :: "kstate \<Rightarrow> nat kres" where
  "myproc s = (case curproc s of None \<Rightarrow> Stop (Fault ''myproc'') s | Some p \<Rightarrow> Done p s)"

lemma myproc_Some [simp]: "curproc s = Some p \<Longrightarrow> myproc s = Done p s"
  by (simp add: myproc_def)

definition vmfault :: "uint64 \<Rightarrow> uint64 \<Rightarrow> kstate \<Rightarrow> uint64 kres" where
  "vmfault pagetable va s =
    bnd (myproc s) (\<lambda>p s.
    if va \<ge> p_sz (procs s p) then Done 0 s
    else let va = PGROUNDDOWN va in
      bnd (ismapped pagetable va s) (\<lambda>mapped s.
      if mapped then Done 0 s
      else bnd (kalloc s) (\<lambda>pg s.
        if pg = 0 then Done 0 s
        else let s = s\<lparr>mem := memset (mem s) (unat pg) 0 (unat PGSIZE)\<rparr> in
          bnd (mappages (p_pagetable (procs s p)) va PGSIZE pg (PTE_W OR PTE_U OR PTE_R) s) (\<lambda>r s.
          if r \<noteq> 0 then bnd (kfree pg s) (\<lambda>_ s. Done 0 s) else Done pg s))))"

text \<open>The physical page behind a user address, allocated on demand.\<close>

definition user_page :: "uint64 \<Rightarrow> uint64 \<Rightarrow> kstate \<Rightarrow> uint64 kres" where
  "user_page pagetable va0 s =
    bnd (walkaddr pagetable va0 s) (\<lambda>pa0 s.
    if pa0 = 0 then vmfault pagetable va0 s else Done pa0 s)"

definition chunk :: "uint64 \<Rightarrow> nat \<Rightarrow> nat" where
  "chunk va len = min (unat (PGSIZE - (va - PGROUNDDOWN va))) len"

lemma unat_page_off: "unat (va - PGROUNDDOWN va) = unat va mod 4096"
  using PGROUNDDOWN_le [of va] by (simp add: unat_sub_le unat_PGROUNDDOWN word_le_nat_alt)

lemma chunk_eq: "chunk va len = min (4096 - unat va mod 4096) len"
proof -
  have "unat (va - PGROUNDDOWN va) \<le> unat PGSIZE"
    unfolding unat_page_off by (simp add: less_imp_le)
  then have "unat (PGSIZE - (va - PGROUNDDOWN va)) = 4096 - unat va mod 4096"
    by (simp add: unat_sub_le word_le_nat_alt unat_page_off)
  then show ?thesis by (simp add: chunk_def)
qed

lemma chunk_pos: "0 < len \<Longrightarrow> 0 < chunk va len"
  by (simp add: chunk_eq)

text \<open>
  The kernel side of a copy is the array \<open>src\<close>, or the bytes stored to \<open>dst\<close> so far (also on
  failure); the length is the number of bytes left.
\<close>

function copyout :: "uint64 \<Rightarrow> uint64 \<Rightarrow> byte list \<Rightarrow> kstate \<Rightarrow> int kres" where
  "copyout pagetable dstva src s =
    (if src = [] then Done 0 s
     else let va0 = PGROUNDDOWN dstva in
       if va0 \<ge> MAXVA then Done (-1) s
       else bnd (user_page pagetable va0 s) (\<lambda>pa0 s.
         if pa0 = 0 then Done (-1) s
         else bnd (walk pagetable va0 False s) (\<lambda>pte s.
           if pte = 0 then Stop (Fault ''copyout'') s
           else if load64 (mem s) (unat pte) AND PTE_W = 0 then Done (-1) s
           else let n = chunk dstva (length src);
                    s = s\<lparr>mem := wr (mem s) (unat (pa0 + (dstva - va0))) (take n src)\<rparr> in
             copyout pagetable (va0 + PGSIZE) (drop n src) s)))"
  by pat_completeness auto
termination
  by (relation "measure (\<lambda>(_, _, src, _). length src)") (simp_all add: chunk_pos)

declare copyout.simps [simp del]

function copyin :: "uint64 \<Rightarrow> uint64 \<Rightarrow> nat \<Rightarrow> byte list \<Rightarrow> kstate \<Rightarrow> (int \<times> byte list) kres" where
  "copyin pagetable srcva len dst s =
    (if len = 0 then Done (0, dst) s
     else let va0 = PGROUNDDOWN srcva in
       bnd (user_page pagetable va0 s) (\<lambda>pa0 s.
       if pa0 = 0 then Done (-1, dst) s
       else let n = chunk srcva len;
                got = rd (mem s) (unat (pa0 + (srcva - va0))) n in
         copyin pagetable (va0 + PGSIZE) (len - n) (dst @ got) s))"
  by pat_completeness auto
termination
  by (relation "measure (\<lambda>(_, _, len, _). len)") (simp_all add: chunk_pos)

declare copyin.simps [simp del]

text \<open>The inner loop of \<open>copyinstr\<close> over the \<open>n\<close> bytes of a page: what it stores and whether it met NUL.\<close>

primrec take_to_nul :: "byte list \<Rightarrow> byte list \<times> bool" where
  "take_to_nul [] = ([], False)"
| "take_to_nul (b # bs) = (if b = 0 then ([0], True) else case take_to_nul bs of (r, g) \<Rightarrow> (b # r, g))"

function copyinstr :: "uint64 \<Rightarrow> uint64 \<Rightarrow> nat \<Rightarrow> byte list \<Rightarrow> kstate \<Rightarrow> (int \<times> byte list) kres" where
  "copyinstr pagetable srcva max_len dst s =
    (if max_len = 0 then Done (-1, dst) s
     else let va0 = PGROUNDDOWN srcva in
       bnd (walkaddr pagetable va0 s) (\<lambda>pa0 s.
       if pa0 = 0 then Done (-1, dst) s
       else let n = chunk srcva max_len in
         case take_to_nul (rd (mem s) (unat (pa0 + (srcva - va0))) n) of (got, got_null) \<Rightarrow>
           if got_null then Done (0, dst @ got) s
           else copyinstr pagetable (va0 + PGSIZE) (max_len - n) (dst @ got) s))"
  by pat_completeness auto
termination
  by (relation "measure (\<lambda>(_, _, len, _). len)") (simp_all add: chunk_pos)

declare copyinstr.simps [simp del]

definition either_copyout :: "bool \<Rightarrow> uint64 \<Rightarrow> byte list \<Rightarrow> kstate \<Rightarrow> int kres" where
  "either_copyout user_dst dst src s =
    (if user_dst then bnd (myproc s) (\<lambda>p s. copyout (p_pagetable (procs s p)) dst src s)
     else Done 0 (s\<lparr>mem := wr (mem s) (unat dst) src\<rparr>))"

definition either_copyin :: "bool \<Rightarrow> uint64 \<Rightarrow> nat \<Rightarrow> kstate \<Rightarrow> (int \<times> byte list) kres" where
  "either_copyin user_src src len s =
    (if user_src then bnd (myproc s) (\<lambda>p s. copyin (p_pagetable (procs s p)) src len [] s)
     else Done (0, rd (mem s) (unat src) len) s)"

end
