(* ===== verification/Pagetable.thy ===== *)
theory Pagetable
  imports Vm
begin

text \<open>
  What a page table means: \<open>lastpg\<close> is the last-level table on the path of an address, \<open>leaf\<close> the entry
  found there (0 where the path ends early) and \<open>ptpages\<close> the pages of the tree.  A tree is well
  formed when its pages are distinct.  \<open>walk\<close> without allocation reads the path; with
  allocation it grows the tree with free pages and changes no translation; storing to the entry
  it returns changes the translation of that page alone.
\<close>

section \<open>Abstraction of the tree\<close>

definition ent :: "pmem \<Rightarrow> uint64 \<Rightarrow> nat \<Rightarrow> uint64" where
  "ent m pt i = load64 m (unat pt + 8 * i)"

abbreviation ix :: "nat \<Rightarrow> uint64 \<Rightarrow> nat" where
  "ix l va \<equiv> unat (PX l va)"

definition pvalid :: "uint64 \<Rightarrow> bool" where
  "pvalid e \<longleftrightarrow> e AND PTE_V \<noteq> 0"

fun lastpg :: "pmem \<Rightarrow> nat \<Rightarrow> uint64 \<Rightarrow> uint64 \<Rightarrow> uint64 option" where
  "lastpg m 0 pt va = Some pt"
| "lastpg m (Suc l) pt va =
    (let e = ent m pt (ix (Suc l) va) in if pvalid e then lastpg m l (PTE2PA e) va else None)"

definition leaf :: "pmem \<Rightarrow> nat \<Rightarrow> uint64 \<Rightarrow> uint64 \<Rightarrow> uint64" where
  "leaf m l pt va = (case lastpg m l pt va of None \<Rightarrow> 0 | Some q \<Rightarrow> ent m q (ix 0 va))"

fun ptpages :: "pmem \<Rightarrow> nat \<Rightarrow> uint64 \<Rightarrow> uint64 list" where
  "ptpages m 0 pt = [pt]"
| "ptpages m (Suc l) pt = pt # concat (map (\<lambda>i. let e = ent m pt i in
     if pvalid e then ptpages m l (PTE2PA e) else []) [0..<512])"

definition kids :: "pmem \<Rightarrow> nat \<Rightarrow> uint64 \<Rightarrow> nat \<Rightarrow> uint64 list" where
  "kids m l pt i = (let e = ent m pt i in if pvalid e then ptpages m l (PTE2PA e) else [])"

lemma ptpages_Suc: "ptpages m (Suc l) pt = pt # concat (map (kids m l pt) [0..<512])"
  unfolding kids_def by simp

declare ptpages.simps(2) [simp del]

lemma aligned_PTE2PA [simp]: "aligned (PTE2PA e)"
  by (simp add: aligned_def)

lemma pt_in_ptpages [simp]: "pt \<in> set (ptpages m l pt)"
  by (cases l) (simp_all add: ptpages_Suc)

lemma ptpages_ne [simp]: "ptpages m l pt \<noteq> []"
  by (cases l) (simp_all add: ptpages_Suc)

lemma ix_lt [simp]: "ix l va < 512"
  by (rule unat_PX_lt)

lemma ix_le [simp]: "ix l va \<le> 511"
  using ix_lt [of l va] by linarith

lemma aligned_add: "aligned p \<Longrightarrow> k < 4096 \<Longrightarrow> unat p + k < 2 ^ 64"
proof -
  assume "aligned p" and k: "k < 4096"
  then obtain a where a: "unat p = 4096 * a"
    unfolding aligned_def mod_eq_0_iff_dvd dvd_def by blast
  have "unat p < 2 ^ 64" by simp
  then have "a < 2 ^ 52" using a by simp
  then show "unat p + k < 2 ^ 64" using a k by simp
qed

lemma ix8_lt: "8 * ix l va < 4096"
  using ix_lt [of l va] by linarith

lemma unat_8_PX: "unat (8 * PX l va) = 8 * ix l va"
proof -
  have "unat (8 * PX l va) = (8 * ix l va) mod 2 ^ 64" by (simp add: unat_word_ariths)
  also have "\<dots> = 8 * ix l va" by (rule mod_less, rule less_trans [OF ix8_lt]) simp
  finally show ?thesis .
qed

lemma unat_pte_addr: "aligned pt \<Longrightarrow> unat (pte_addr pt l va) = unat pt + 8 * ix l va"
  unfolding pte_addr_def unat_8_PX [symmetric]
  by (rule unat_add_lt) (simp add: unat_8_PX aligned_add [OF _ ix8_lt, simplified])

lemma load_pte_addr: "aligned pt \<Longrightarrow> load64 m (unat (pte_addr pt l va)) = ent m pt (ix l va)"
  by (simp add: ent_def unat_pte_addr)

lemma ent_only_in:
  assumes "only_in Q m m'" "\<forall>q \<in> Q. aligned q" "aligned pt" "pt \<notin> Q" "i < 512"
  shows "ent m' pt i = ent m pt i"
  unfolding ent_def by (rule only_in_load64 [OF assms(1,3,2,4)]) (use assms(5) in simp)

lemma ent_store: "i < 512 \<Longrightarrow> j < 512 \<Longrightarrow>
  ent (store64 m (unat pt + 8 * i) v) pt j = (if j = i then v else ent m pt j)"
  by (cases "i < j") (auto simp: ent_def load64_store64_same intro!: load64_store64_disj)

lemma distinct_concat_upt:
  "distinct (concat (map f [0..<n])) \<longleftrightarrow>
     (\<forall>i < n. distinct (f i)) \<and> (\<forall>i < n. \<forall>j < n. i \<noteq> j \<longrightarrow> set (f i) \<inter> set (f j) = {})"
proof (induction n)
  case (Suc n)
  have "(\<forall>i < Suc n. \<forall>j < Suc n. i \<noteq> j \<longrightarrow> set (f i) \<inter> set (f j) = {}) \<longleftrightarrow>
      (\<forall>i < n. \<forall>j < n. i \<noteq> j \<longrightarrow> set (f i) \<inter> set (f j) = {}) \<and> (\<forall>i < n. set (f i) \<inter> set (f n) = {})"
    (is "_ \<longleftrightarrow> ?A \<and> ?B")
    by (simp add: All_less_Suc Int_commute) blast
  moreover have "distinct (concat (map f [0..<Suc n])) \<longleftrightarrow>
      distinct (concat (map f [0..<n])) \<and> distinct (f n) \<and> (\<forall>i < n. set (f i) \<inter> set (f n) = {})"
    by (fastforce simp: disjoint_iff)
  ultimately show ?case using Suc by (auto simp: All_less_Suc)
qed simp

lemma distinct_ptpages_Suc:
  "distinct (ptpages m (Suc l) pt) \<longleftrightarrow>
     (\<forall>i < 512. pt \<notin> set (kids m l pt i)) \<and> (\<forall>i < 512. distinct (kids m l pt i)) \<and>
     (\<forall>i < 512. \<forall>j < 512. i \<noteq> j \<longrightarrow> set (kids m l pt i) \<inter> set (kids m l pt j) = {})"
  by (auto simp: ptpages_Suc distinct_concat_upt)

lemma set_ptpages_Suc: "set (ptpages m (Suc l) pt) = insert pt (\<Union>i \<in> {0..<512}. set (kids m l pt i))"
  by (simp add: ptpages_Suc)

lemma kids_subset: "i < 512 \<Longrightarrow> set (kids m l pt i) \<subseteq> set (ptpages m (Suc l) pt)"
  by (auto simp: set_ptpages_Suc)

lemma kids_valid: "pvalid (ent m pt i) \<Longrightarrow> kids m l pt i = ptpages m l (PTE2PA (ent m pt i))"
  by (simp add: kids_def)

lemma kids_invalid: "\<not> pvalid (ent m pt i) \<Longrightarrow> kids m l pt i = []"
  by (simp add: kids_def)

lemma ptpages_aligned: "aligned pt \<Longrightarrow> q \<in> set (ptpages m l pt) \<Longrightarrow> aligned q"
proof (induction l arbitrary: pt)
  case (Suc l)
  show ?case
  proof (cases "q = pt")
    case False
    then obtain i where "q \<in> set (kids m l pt i)" using Suc.prems by (auto simp: set_ptpages_Suc)
    then have "q \<in> set (ptpages m l (PTE2PA (ent m pt i)))" by (auto simp: kids_def Let_def split: if_splits)
    then show ?thesis using Suc.IH aligned_PTE2PA by blast
  qed (use Suc.prems in simp)
qed simp

lemma lastpg_in: "lastpg m l pt va = Some q \<Longrightarrow> q \<in> set (ptpages m l pt)"
proof (induction l arbitrary: pt)
  case (Suc l)
  let ?e = "ent m pt (ix (Suc l) va)"
  have v: "pvalid ?e" and "lastpg m l (PTE2PA ?e) va = Some q"
    using Suc.prems by (auto simp: Let_def split: if_splits)
  then have "q \<in> set (kids m l pt (ix (Suc l) va))" using Suc.IH by (simp add: kids_valid)
  then show ?case using kids_subset [OF ix_lt] by blast
qed simp

section \<open>Frames\<close>

lemma tree_frame:
  assumes "only_in Q m m'" "\<forall>q \<in> Q. aligned q" "set (ptpages m l pt) \<inter> Q = {}" "aligned pt"
  shows "ptpages m' l pt = ptpages m l pt \<and> lastpg m' l pt va = lastpg m l pt va"
  using assms(3,4)
proof (induction l arbitrary: pt)
  case (Suc l)
  have e: "ent m' pt i = ent m pt i" if "i < 512" for i
    using Suc.prems(1) by (intro ent_only_in [OF assms(1,2) Suc.prems(2) _ that]) (auto simp: ptpages_Suc)
  have k: "ptpages m' l (PTE2PA (ent m pt i)) = ptpages m l (PTE2PA (ent m pt i))
      \<and> lastpg m' l (PTE2PA (ent m pt i)) va = lastpg m l (PTE2PA (ent m pt i)) va"
    if "i < 512" "pvalid (ent m pt i)" for i
  proof (rule Suc.IH)
    show "set (ptpages m l (PTE2PA (ent m pt i))) \<inter> Q = {}"
      using Suc.prems(1) kids_subset [OF that(1), of m l pt] kids_valid [OF that(2), of l] by auto
  qed simp
  have eq: "map (kids m' l pt) [0..<512] = map (kids m l pt) [0..<512]"
    by (rule map_cong) (simp_all add: kids_def Let_def e k)
  then have "ptpages m' (Suc l) pt = ptpages m (Suc l) pt" by (simp only: ptpages_Suc eq)
  then show ?case using e [OF ix_lt] k [OF ix_lt] by (simp add: Let_def)
qed simp

lemma leaf_frame:
  assumes "only_in Q m m'" "\<forall>q \<in> Q. aligned q" "set (ptpages m l pt) \<inter> Q = {}" "aligned pt"
  shows "leaf m' l pt va = leaf m l pt va"
proof (cases "lastpg m l pt va")
  case (Some q)
  have "ent m' q (ix 0 va) = ent m q (ix 0 va)"
    using lastpg_in [OF Some] assms ptpages_aligned by (intro ent_only_in [OF assms(1,2)]) auto
  then show ?thesis using tree_frame [OF assms] Some by (simp add: leaf_def)
qed (simp add: leaf_def tree_frame [OF assms])

section \<open>A zeroed page is an empty table\<close>

lemma not_pvalid_0 [simp]: "\<not> pvalid 0"
  by (simp add: pvalid_def)

lemma zero_table:
  assumes "\<And>i. i < 512 \<Longrightarrow> ent m pt i = 0"
  shows "ptpages m l pt = [pt]" "leaf m l pt va = 0"
proof -
  show "ptpages m l pt = [pt]"
  proof (cases l)
    case (Suc k)
    have "kids m k pt i = []" if "i < 512" for i using assms [OF that] by (simp add: kids_def)
    then show ?thesis using Suc by (simp add: ptpages_Suc)
  qed simp
  show "leaf m l pt va = 0" by (cases l) (simp_all add: leaf_def assms)
qed

lemma ent_wr_zero: "i < 512 \<Longrightarrow> ent (wr m (unat pt) (replicate 4096 0)) pt i = 0"
  unfolding ent_def by (rule load64_wr_zero) simp_all

section \<open>Storing a leaf entry\<close>

definition same_ix :: "nat \<Rightarrow> uint64 \<Rightarrow> uint64 \<Rightarrow> bool" where
  "same_ix l va vb \<longleftrightarrow> (\<forall>k \<le> l. PX k va = PX k vb)"

lemma same_ix_Suc: "same_ix (Suc l) va vb \<longleftrightarrow> ix (Suc l) va = ix (Suc l) vb \<and> same_ix l va vb"
  by (auto simp: same_ix_def le_Suc_eq word_unat_eq_iff)

lemma same_ix_0: "same_ix 0 va vb \<longleftrightarrow> ix 0 va = ix 0 vb"
  by (auto simp: same_ix_def word_unat_eq_iff)

lemma leaf_Suc:
  "leaf m (Suc l) pt va = (let e = ent m pt (ix (Suc l) va) in if pvalid e then leaf m l (PTE2PA e) va else 0)"
  by (simp add: leaf_def Let_def)

lemma store_leaf:
  assumes "lastpg m l pt va = Some q" "distinct (ptpages m l pt)" "aligned pt"
    and m'_def: "m' = store64 m (unat q + 8 * ix 0 va) e"
  shows "ptpages m' l pt = ptpages m l pt \<and> leaf m' l pt vb = (if same_ix l va vb then e else leaf m l pt vb)"
  using assms(1-3)
proof (induction l arbitrary: pt)
  case 0
  then show ?case by (auto simp: leaf_def m'_def ent_store same_ix_0)
next
  case (Suc l)
  let ?i = "ix (Suc l) va"
  let ?c = "PTE2PA (ent m pt ?i)"
  have v: "pvalid (ent m pt ?i)" and lp: "lastpg m l ?c va = Some q"
    using Suc.prems(1) by (auto simp: Let_def split: if_splits)
  have qk: "q \<in> set (kids m l pt ?i)" using lastpg_in [OF lp] by (simp add: kids_valid [OF v])
  have d: "pt \<notin> set (kids m l pt ?i)" "distinct (ptpages m l ?c)"
    "i < 512 \<Longrightarrow> i \<noteq> ?i \<Longrightarrow> set (kids m l pt i) \<inter> set (kids m l pt ?i) = {}" for i
    using Suc.prems(2) ix_lt [of "Suc l" va] unfolding distinct_ptpages_Suc kids_valid [OF v, symmetric]
    by blast+
  have qpt: "q \<noteq> pt" using d(1) qk by blast
  have qa: "aligned q" using qk ptpages_aligned [of ?c q m l] by (simp add: kids_valid [OF v])
  have only: "only_in {q} m m'" unfolding m'_def by (rule only_in_store64 [of q]) simp_all
  have e: "ent m' pt i = ent m pt i" if "i < 512" for i
    using ent_only_in [OF only] qa Suc.prems(3) qpt that by auto
  have IH: "ptpages m' l ?c = ptpages m l ?c \<and> leaf m' l ?c vb = (if same_ix l va vb then e else leaf m l ?c vb)"
    using Suc.IH [OF lp d(2) aligned_PTE2PA] .
  have other: "ptpages m' l (PTE2PA (ent m pt i)) = ptpages m l (PTE2PA (ent m pt i))
      \<and> leaf m' l (PTE2PA (ent m pt i)) vb = leaf m l (PTE2PA (ent m pt i)) vb"
    if i: "i < 512" "i \<noteq> ?i" "pvalid (ent m pt i)" for i
  proof -
    have "set (ptpages m l (PTE2PA (ent m pt i))) \<inter> {q} = {}"
      using d(3) [OF i(1,2)] qk kids_valid [OF i(3), of l] by auto
    then show ?thesis using tree_frame [OF only] leaf_frame [OF only] qa by auto
  qed
  have eq: "map (kids m' l pt) [0..<512] = map (kids m l pt) [0..<512]"
    by (rule map_cong) (use IH other in \<open>auto simp: kids_def Let_def e\<close>)
  then have "ptpages m' (Suc l) pt = ptpages m (Suc l) pt" by (simp only: ptpages_Suc eq)
  moreover have "leaf m' (Suc l) pt vb = (if same_ix (Suc l) va vb then e else leaf m (Suc l) pt vb)"
    using IH v other [OF ix_lt, of "Suc l" vb]
    by (cases "ix (Suc l) vb = ?i") (auto simp: leaf_Suc Let_def e same_ix_Suc)
  ultimately show ?case by blast
qed

section \<open>Growing the tree\<close>

text \<open>\<open>grown s t l pt new\<close>: from \<open>s\<close> to \<open>t\<close> the tree took the pages \<open>new\<close> and no translation changed.\<close>

definition grown :: "kstate \<Rightarrow> kstate \<Rightarrow> nat \<Rightarrow> uint64 \<Rightarrow> uint64 list \<Rightarrow> bool" where
  "grown s t l pt new \<longleftrightarrow> t = s\<lparr>mem := mem t, freelist := freelist t\<rparr>
    \<and> set (ptpages (mem t) l pt) = set (ptpages (mem s) l pt) \<union> set new
    \<and> distinct (ptpages (mem t) l pt)
    \<and> (\<forall>vb. leaf (mem t) l pt vb = leaf (mem s) l pt vb)
    \<and> only_in (set (ptpages (mem s) l pt) \<union> set new) (mem s) (mem t)"

lemma grown_refl: "distinct (ptpages (mem s) l pt) \<Longrightarrow> grown s s l pt []"
  by (simp add: grown_def)

lemma grown_trans:
  assumes "grown s t l pt n1" "grown t u l pt n2"
  shows "grown s u l pt (n1 @ n2)"
proof -
  have tu: "u = t\<lparr>mem := mem u, freelist := freelist u\<rparr>" "t = s\<lparr>mem := mem t, freelist := freelist t\<rparr>"
    using assms unfolding grown_def by blast+
  have "t\<lparr>mem := mem u, freelist := freelist u\<rparr> = s\<lparr>mem := mem u, freelist := freelist u\<rparr>"
    by (subst tu(2)) simp
  then have "u = s\<lparr>mem := mem u, freelist := freelist u\<rparr>" using tu(1) by (rule trans [rotated])
  moreover have "only_in (set (ptpages (mem s) l pt) \<union> set n1 \<union> (set (ptpages (mem t) l pt) \<union> set n2)) (mem s) (mem u)"
    using assms only_in_trans unfolding grown_def by blast
  moreover have "set (ptpages (mem t) l pt) = set (ptpages (mem s) l pt) \<union> set n1"
    "set (ptpages (mem u) l pt) = set (ptpages (mem t) l pt) \<union> set n2" "distinct (ptpages (mem u) l pt)"
    "leaf (mem u) l pt vb = leaf (mem s) l pt vb" for vb
    using assms unfolding grown_def by simp_all
  ultimately show ?thesis unfolding grown_def by (auto elim: only_in_mono)
qed

text \<open>Growth of a child is growth of the parent.\<close>

lemma grown_lift:
  assumes g: "grown s t l (PTE2PA (ent (mem s) pt i)) new" and i: "i < 512"
    and v: "pvalid (ent (mem s) pt i)" and d: "distinct (ptpages (mem s) (Suc l) pt)" and a: "aligned pt"
    and new: "set new \<inter> set (ptpages (mem s) (Suc l) pt) = {}" "\<forall>p \<in> set new. aligned p"
  shows "grown s t (Suc l) pt new"
proof -
  let ?m = "mem s" and ?m' = "mem t" and ?c = "PTE2PA (ent (mem s) pt i)"
  let ?Q = "set (ptpages ?m l ?c) \<union> set new"
  note g' = g [unfolded grown_def]
  note d' = d [unfolded distinct_ptpages_Suc]
  have only: "only_in ?Q ?m ?m'" using g' by blast
  have al: "\<forall>q \<in> ?Q. aligned q" using new(2) ptpages_aligned [OF aligned_PTE2PA] by blast
  have ki: "kids ?m l pt i = ptpages ?m l ?c" using kids_valid [OF v] .
  have "pt \<notin> set (kids ?m l pt i)" using d' i by blast
  then have "pt \<notin> ?Q" using ki new(1) pt_in_ptpages [of pt ?m "Suc l"] by auto
  then have e: "ent ?m' pt j = ent ?m pt j" if "j < 512" for j using ent_only_in [OF only al a _ that] by blast
  have dis: "set (ptpages ?m l (PTE2PA (ent ?m pt j))) \<inter> ?Q = {}"
    if j: "j < 512" "j \<noteq> i" "pvalid (ent ?m pt j)" for j
  proof -
    have "set (kids ?m l pt j) \<inter> set (kids ?m l pt i) = {}" using d' i j by simp
    then show ?thesis
      using ki kids_valid [OF j(3), of l] new(1) kids_subset [OF j(1), of ?m l pt] by auto
  qed
  have other: "kids ?m' l pt j = kids ?m l pt j" if j: "j < 512" "j \<noteq> i" for j
    using tree_frame [OF only al dis [OF j]] by (simp add: kids_def Let_def e j)
  have k': "kids ?m' l pt i = ptpages ?m' l ?c" using v e i by (simp add: kids_def)
  have set_i: "set (kids ?m' l pt i) = set (kids ?m l pt i) \<union> set new" using g' k' ki by simp
  have kset: "set (kids ?m' l pt j) \<subseteq> set (kids ?m l pt j) \<union> set new" if "j < 512" for j
    using that other set_i by (cases "j = i") simp_all
  have nk: "set new \<inter> set (kids ?m l pt j) = {}" if "j < 512" for j
    using new(1) kids_subset [OF that, of ?m l pt] by blast
  have "distinct (ptpages ?m' (Suc l) pt)"
    unfolding distinct_ptpages_Suc
  proof (intro conjI allI impI)
    fix j :: nat assume j: "j < 512"
    have "pt \<notin> set new" using new(1) pt_in_ptpages by blast
    then show "pt \<notin> set (kids ?m' l pt j)" using kset [OF j] d' j by blast
    show "distinct (kids ?m' l pt j)"
    proof (cases "j = i")
      case True
      then show ?thesis using k' g' by simp
    next
      case False
      then show ?thesis using d' j other by simp
    qed
    fix k :: nat assume k: "k < 512" "j \<noteq> k"
    show "set (kids ?m' l pt j) \<inter> set (kids ?m' l pt k) = {}"
    proof -
      have "set (kids ?m l pt j) \<inter> set (kids ?m l pt k) = {}" using d' j k by simp
      moreover have "set (kids ?m' l pt j) = set (kids ?m l pt j) \<or> set (kids ?m' l pt k) = set (kids ?m l pt k)"
        using other j k by metis
      ultimately show ?thesis using kset [OF j] kset [OF k(1)] nk [OF j] nk [OF k(1)] by blast
    qed
  qed
  moreover have "set (ptpages ?m' (Suc l) pt) = set (ptpages ?m (Suc l) pt) \<union> set new"
  proof -
    have sup: "set (kids ?m l pt j) \<subseteq> set (kids ?m' l pt j)" if "j < 512" for j
      using that other set_i by (cases "j = i") simp_all
    have "(\<Union>j\<in>{0..<512}. set (kids ?m' l pt j)) \<subseteq> (\<Union>j\<in>{0..<512}. set (kids ?m l pt j)) \<union> set new"
    proof (rule UN_least)
      fix j :: nat assume "j \<in> {0..<512}"
      then show "set (kids ?m' l pt j) \<subseteq> (\<Union>j\<in>{0..<512}. set (kids ?m l pt j)) \<union> set new"
        using kset [of j] by auto
    qed
    moreover have "(\<Union>j\<in>{0..<512}. set (kids ?m l pt j)) \<subseteq> (\<Union>j\<in>{0..<512}. set (kids ?m' l pt j))"
      using sup by (intro UN_mono) simp_all
    moreover have "set new \<subseteq> (\<Union>j\<in>{0..<512}. set (kids ?m' l pt j))" using set_i i by auto
    ultimately show ?thesis unfolding set_ptpages_Suc by blast
  qed
  moreover have "leaf ?m' (Suc l) pt vb = leaf ?m (Suc l) pt vb" for vb
    using g' leaf_frame [OF only al dis] by (cases "ix (Suc l) vb = i") (auto simp: leaf_Suc Let_def e)
  moreover have "only_in (set (ptpages ?m (Suc l) pt) \<union> set new) ?m ?m'"
    using kids_subset [OF i, of ?m l pt] ki by (intro only_in_mono [OF only]) auto
  ultimately show ?thesis using g' unfolding grown_def by blast
qed

text \<open>Linking a fresh zeroed page under an invalid entry.\<close>

lemma PTE2PA_table: "aligned p \<Longrightarrow> PTE2PA (PA2PTE p OR PTE_V) = p"
  by (rule PTE2PA_PA2PTE) (simp_all add: aligned_def PTE_V_def)

lemma pvalid_OR_V: "pvalid (e OR PTE_V)"
proof -
  have "(e OR 1) AND 1 = (1 :: uint64)" by (rule bit_word_eqI) (auto simp: bit_simps)
  then show ?thesis unfolding pvalid_def PTE_V_def by simp
qed

lemma grown_link:
  assumes a: "aligned pt" "aligned p" and i: "i < 512" and nv: "\<not> pvalid (ent (mem s) pt i)"
    and d: "distinct (ptpages (mem s) (Suc l) pt)" and p: "p \<notin> set (ptpages (mem s) (Suc l) pt)"
    and t: "t = s\<lparr>freelist := f, mem := store64 (wr (wr (mem s) (unat p) junk) (unat p) (replicate 4096 0))
        (unat pt + 8 * i) (PA2PTE p OR PTE_V)\<rparr>" and junk: "length junk = 4096"
  shows "grown s t (Suc l) pt [p]" "ent (mem t) pt i = PA2PTE p OR PTE_V" "ptpages (mem t) l p = [p]"
proof -
  let ?m = "mem s" and ?m' = "mem t"
  let ?z = "wr (wr ?m (unat p) junk) (unat p) (replicate 4096 0)"
  have "p \<noteq> pt" using p by auto
  have z: "only_in {p} ?m ?z"
    using only_in_trans [OF only_in_wr only_in_wr, of p "{p}" "unat p" junk p "{p}" "unat p" "replicate 4096 0"] junk
    by simp
  have st: "only_in {pt} ?z ?m'" unfolding t by (simp, rule only_in_store64 [of pt]) (use i in auto)
  have only: "only_in {p, pt} ?m ?m'" using only_in_trans [OF z st] by (simp add: insert_commute)
  show e: "ent ?m' pt i = PA2PTE p OR PTE_V" using i by (simp add: t ent_store)
  have ej: "ent ?m' pt j = ent ?m pt j" if "j < 512" "j \<noteq> i" for j
    using that i ent_only_in [OF z _ a(1)] \<open>p \<noteq> pt\<close> a by (simp add: t ent_store)
  have pz: "ent ?m' p j = 0" if "j < 512" for j
    using ent_only_in [OF st _ a(2) _ that] \<open>p \<noteq> pt\<close> a(1) ent_wr_zero [OF that] by simp
  show pp: "ptpages ?m' l p = [p]" using zero_table(1) [OF pz] by blast
  have lz: "leaf ?m' l p vb = 0" for vb using zero_table(2) [OF pz] by blast
  have dis: "set (ptpages ?m l (PTE2PA (ent ?m pt j))) \<inter> {p, pt} = {}" if "j < 512" "pvalid (ent ?m pt j)" for j
    using p d kids_subset [OF that(1), of ?m l pt] kids_valid [OF that(2), of l] that(1)
    unfolding distinct_ptpages_Suc by auto
  have al: "\<forall>q \<in> {p, pt}. aligned q" using a by simp
  have other: "kids ?m' l pt j = kids ?m l pt j" if "j < 512" "j \<noteq> i" for j
    using tree_frame [OF only al dis] that by (auto simp: kids_def Let_def ej)
  have ki: "kids ?m' l pt i = [p]" "kids ?m l pt i = []"
    using nv e pp a by (simp_all add: kids_def pvalid_OR_V PTE2PA_table)
  have ks: "set (kids ?m' l pt j) = set (kids ?m l pt j) \<union> (if j = i then {p} else {})" if "j < 512" for j
    using other ki that by auto
  have "distinct (ptpages ?m' (Suc l) pt)"
    unfolding distinct_ptpages_Suc
  proof (intro conjI allI impI)
    fix j :: nat assume j: "j < 512"
    have pj: "p \<notin> set (kids ?m l pt k)" if "k < 512" for k using p kids_subset [OF that, of ?m l pt] by blast
    show "pt \<notin> set (kids ?m' l pt j)" using ks [OF j] d j \<open>p \<noteq> pt\<close> unfolding distinct_ptpages_Suc by auto
    show "distinct (kids ?m' l pt j)"
      using d j other ki unfolding distinct_ptpages_Suc by (cases "j = i") auto
    fix k :: nat assume k: "k < 512" "j \<noteq> k"
    then have "set (kids ?m l pt j) \<inter> set (kids ?m l pt k) = {}" using d j unfolding distinct_ptpages_Suc by blast
    then show "set (kids ?m' l pt j) \<inter> set (kids ?m' l pt k) = {}"
      using ks [OF j] ks [OF k(1)] pj [OF j] pj [OF k(1)] k(2) by auto
  qed
  moreover have "set (ptpages ?m' (Suc l) pt) = set (ptpages ?m (Suc l) pt) \<union> {p}"
  proof -
    have "(\<Union>j\<in>{0..<512}. set (kids ?m' l pt j)) = (\<Union>j\<in>{0..<512}. set (kids ?m l pt j)) \<union> {p}"
      using ks i by (auto split: if_splits)
    then show ?thesis unfolding set_ptpages_Suc by blast
  qed
  moreover have "leaf ?m' (Suc l) pt vb = leaf ?m (Suc l) pt vb" for vb
    using leaf_frame [OF only al dis] lz nv a(2)
    by (cases "ix (Suc l) vb = i") (auto simp: leaf_Suc Let_def ej e pvalid_OR_V PTE2PA_table)
  moreover have "only_in (set (ptpages ?m (Suc l) pt) \<union> set [p]) ?m ?m'"
    by (rule only_in_mono [OF only]) auto
  moreover have "t = s\<lparr>mem := ?m', freelist := freelist t\<rparr>" by (simp add: t)
  ultimately show "grown s t (Suc l) pt [p]" unfolding grown_def by simp
qed

section \<open>\<open>walk\<close>\<close>

lemma walk_loop_read: "aligned pt \<Longrightarrow> walk_loop l pt va False s =
  Done (case lastpg (mem s) l pt va of None \<Rightarrow> 0 | Some q \<Rightarrow> pte_addr q 0 va) s"
  by (induction l arbitrary: pt) (auto simp: Let_def load_pte_addr pvalid_def [symmetric])

text \<open>The pages of a tree and the free pages are kept apart.\<close>

definition vm_inv :: "kstate \<Rightarrow> nat \<Rightarrow> uint64 \<Rightarrow> uint64 list \<Rightarrow> bool" where
  "vm_inv s l pt fs \<longleftrightarrow> kmem_inv s fs \<and> KmemLock \<notin> set (held s) \<and> aligned pt
    \<and> distinct (ptpages (mem s) l pt) \<and> set (ptpages (mem s) l pt) \<inter> set fs = {} \<and> 0 \<notin> set (ptpages (mem s) l pt)"

definition walk_post :: "kstate \<Rightarrow> nat \<Rightarrow> nat \<Rightarrow> uint64 \<Rightarrow> uint64 list \<Rightarrow> uint64 \<Rightarrow> uint64 \<Rightarrow> kstate \<Rightarrow> bool" where
  "walk_post s l b pt fs va r t \<longleftrightarrow> (\<exists>new fs'. fs = new @ fs' \<and> length new \<le> b \<and> grown s t l pt new \<and> vm_inv t l pt fs'
    \<and> (if r = 0 then fs' = [] \<and> length fs < b else \<exists>q. lastpg (mem t) l pt va = Some q \<and> r = pte_addr q 0 va))"

lemma walk_post_lift:
  assumes v: "pvalid (ent (mem t) pt (ix (Suc l) va))" and inv: "vm_inv t (Suc l) pt gs"
    and post: "walk_post t l b (PTE2PA (ent (mem t) pt (ix (Suc l) va))) gs va r u"
  shows "walk_post t (Suc l) b pt gs va r u"
proof -
  let ?i = "ix (Suc l) va"
  let ?c = "PTE2PA (ent (mem t) pt ?i)"
  obtain new fs' where w: "gs = new @ fs'" "grown t u l ?c new" "vm_inv u l ?c fs'"
    "if r = 0 then fs' = [] \<and> length gs < b else \<exists>q. lastpg (mem u) l ?c va = Some q \<and> r = pte_addr q 0 va"
    "length new \<le> b"
    using post unfolding walk_post_def by (elim exE conjE) (rule that)
  have i: "vm_inv t (Suc l) pt gs" "aligned pt" "distinct (ptpages (mem t) (Suc l) pt)" "KmemLock \<notin> set (held t)"
    "set (ptpages (mem t) (Suc l) pt) \<inter> set gs = {}" "0 \<notin> set (ptpages (mem t) (Suc l) pt)" "kmem_inv t gs"
    using inv by (simp_all add: vm_inv_def)
  have gal: "\<forall>p \<in> set gs. aligned p" "0 \<notin> set gs" using i(7) by (auto simp: kmem_inv_def kpage_def)
  have gs: "set gs = set new \<union> set fs'" using w(1) by simp
  have new: "set new \<inter> set (ptpages (mem t) (Suc l) pt) = {}" "\<forall>p \<in> set new. aligned p"
    using i(5) gal(1) gs by blast+
  have g: "grown t u (Suc l) pt new" by (rule grown_lift [OF w(2) ix_lt v i(3,2) new])
  have "pt \<notin> set (kids (mem t) l pt ?i)" using i(3) ix_lt [of "Suc l" va] unfolding distinct_ptpages_Suc by blast
  moreover have "pt \<notin> set new" using new(1) pt_in_ptpages [of pt "mem t" "Suc l"] by blast
  ultimately have "pt \<notin> set (ptpages (mem t) l ?c) \<union> set new" using kids_valid [OF v, of l] by simp
  moreover have "\<forall>q \<in> set (ptpages (mem t) l ?c) \<union> set new. aligned q"
    using new(2) ptpages_aligned [OF aligned_PTE2PA] by blast
  moreover have "only_in (set (ptpages (mem t) l ?c) \<union> set new) (mem t) (mem u)"
    using w(2) unfolding grown_def by blast
  ultimately have "ent (mem u) pt ?i = ent (mem t) pt ?i" using ent_only_in i(2) ix_lt by blast
  then have l: "lastpg (mem u) (Suc l) pt va = lastpg (mem u) l ?c va" using v by (simp add: Let_def)
  have "kmem_inv u fs'" "KmemLock \<notin> set (held u)" using w(3) by (simp_all add: vm_inv_def)
  moreover have "set (ptpages (mem u) (Suc l) pt) = set (ptpages (mem t) (Suc l) pt) \<union> set new"
    "distinct (ptpages (mem u) (Suc l) pt)" using g unfolding grown_def by blast+
  moreover have "set new \<inter> set fs' = {}" using i(7) w(1) by (auto simp: kmem_inv_def)
  moreover have "set (ptpages (mem t) (Suc l) pt) \<inter> set fs' = {}" "0 \<notin> set new"
    using i(5) gal(2) gs by blast+
  ultimately have "vm_inv u (Suc l) pt fs'" using i(2,6) unfolding vm_inv_def by (simp add: Int_Un_distrib2)
  moreover have "if r = 0 then fs' = [] \<and> length gs < b else \<exists>q. lastpg (mem u) (Suc l) pt va = Some q \<and> r = pte_addr q 0 va"
    using w(4) unfolding l by (simp split: if_splits)
  ultimately show ?thesis unfolding walk_post_def using w(1,5) g by blast
qed

lemma walk_post_mono: "walk_post s l b pt fs va r t \<Longrightarrow> b \<le> c \<Longrightarrow> walk_post s l c pt fs va r t"
  unfolding walk_post_def by (elim exE conjE, intro exI conjI, assumption, rule le_trans, assumption+) (auto split: if_splits)

lemma vm_inv_child:
  assumes v: "pvalid (ent (mem t) pt (ix (Suc l) va))" and inv: "vm_inv t (Suc l) pt gs"
  shows "vm_inv t l (PTE2PA (ent (mem t) pt (ix (Suc l) va))) gs"
proof -
  let ?k = "kids (mem t) l pt (ix (Suc l) va)"
  have "distinct ?k" using inv ix_lt [of "Suc l" va] unfolding vm_inv_def distinct_ptpages_Suc by blast
  moreover have "set ?k \<subseteq> set (ptpages (mem t) (Suc l) pt)" by (rule kids_subset) simp
  ultimately show ?thesis using inv kids_valid [OF v, of l] by (auto simp: vm_inv_def)
qed

text \<open>Linking the first free page.\<close>

lemma vm_inv_link:
  assumes inv: "vm_inv s (Suc l) pt (p # gs)" and nv: "\<not> pvalid (ent (mem s) pt i)" and i: "i < 512"
    and t: "t = s\<lparr>freelist := load64 (mem s) (unat p),
        mem := store64 (wr (wr (mem s) (unat p) (replicate 4096 5)) (unat p) (replicate 4096 0))
          (unat pt + 8 * i) (PA2PTE p OR PTE_V)\<rparr>"
  shows "grown s t (Suc l) pt [p]" "vm_inv t (Suc l) pt gs" "ent (mem t) pt i = PA2PTE p OR PTE_V"
proof -
  have km: "kmem_inv s (p # gs)" and al: "aligned pt" and d: "distinct (ptpages (mem s) (Suc l) pt)"
    and dis: "set (ptpages (mem s) (Suc l) pt) \<inter> set (p # gs) = {}" and nz: "0 \<notin> set (ptpages (mem s) (Suc l) pt)"
    and nl: "KmemLock \<notin> set (held s)" using inv by (simp_all add: vm_inv_def)
  have p: "aligned p" "p \<noteq> 0" "p \<notin> set gs" "p \<notin> set (ptpages (mem s) (Suc l) pt)"
    using km dis by (auto simp: kmem_inv_def)
  show g: "grown s t (Suc l) pt [p]" and "ent (mem t) pt i = PA2PTE p OR PTE_V"
    using grown_link [OF al p(1) i nv d p(4) t] by simp_all
  have "only_in {p, pt} (wr (mem s) (unat p) (replicate 4096 5)) (mem t)"
    unfolding t
    using i only_in_trans [OF only_in_wr only_in_store64, of p "{p}" "unat p" "replicate 4096 0" pt "{pt}" "unat pt + 8 * i"
      "wr (mem s) (unat p) (replicate 4096 5)"] by (simp add: insert_commute)
  moreover have "kmem_inv (s\<lparr>mem := wr (mem s) (unat p) (replicate 4096 5), freelist := load64 (mem s) (unat p)\<rparr>) gs"
    using kalloc_inv km by blast
  moreover have "pt \<notin> set gs" using dis pt_in_ptpages [of pt "mem s" "Suc l"] unfolding list.set by blast
  ultimately have km': "kmem_inv t gs"
    using p al by (elim kmem_inv_frame) (auto simp: t)
  have "set (ptpages (mem t) (Suc l) pt) = set (ptpages (mem s) (Suc l) pt) \<union> {p}"
    "distinct (ptpages (mem t) (Suc l) pt)" using g unfolding grown_def by simp_all
  moreover have "held t = held s" by (simp add: t)
  ultimately show "vm_inv t (Suc l) pt gs"
    using km' dis p nz nl al unfolding vm_inv_def by auto
qed

lemma walk_loop_alloc:
  assumes "vm_inv s l pt fs"
  shows "\<exists>r t. walk_loop l pt va True s = Done r t \<and> walk_post s l l pt fs va r t"
  using assms
proof (induction l arbitrary: pt s fs)
  case 0
  then have "pte_addr pt 0 va \<noteq> 0"
    using unat_pte_addr [of pt 0 va] by (auto simp: vm_inv_def word_unat_eq_iff)
  then show ?case
    using 0 grown_refl [of s 0 pt] unfolding walk_post_def
    by (intro exI [of _ "pte_addr pt 0 va"] exI [of _ s] conjI exI [of _ "[]"] exI [of _ fs]) simp_all
next
  case (Suc l)
  let ?i = "ix (Suc l) va"
  have al: "aligned pt" and d: "distinct (ptpages (mem s) (Suc l) pt)"
    and km: "kmem_inv s fs" and nl: "KmemLock \<notin> set (held s)" using Suc.prems by (auto simp: vm_inv_def)
  show ?case
  proof (cases "pvalid (ent (mem s) pt ?i)")
    case True
    obtain r t where "walk_loop l (PTE2PA (ent (mem s) pt ?i)) va True s = Done r t"
      "walk_post s l l (PTE2PA (ent (mem s) pt ?i)) fs va r t"
      using Suc.IH vm_inv_child [OF True Suc.prems] by blast
    then show ?thesis
      using walk_post_mono [OF walk_post_lift [OF True Suc.prems] le_SucI [OF order_refl]] True al by (simp add: Let_def load_pte_addr pvalid_def [symmetric])
  next
    case nv: False
    show ?thesis
    proof (cases fs)
      case Nil
      then have "walk_loop (Suc l) pt va True s = Done 0 s"
        using nv al kalloc_none km nl by (simp add: Let_def load_pte_addr pvalid_def [symmetric])
      moreover have "walk_post s (Suc l) (Suc l) pt fs va 0 s"
        using Nil grown_refl [OF d] Suc.prems unfolding walk_post_def by (intro exI [of _ "[]"]) simp
      ultimately show ?thesis by blast
    next
      case (Cons p gs)
      define t where "t = s\<lparr>freelist := load64 (mem s) (unat p),
        mem := store64 (wr (wr (mem s) (unat p) (replicate 4096 5)) (unat p) (replicate 4096 0))
          (unat pt + 8 * ?i) (PA2PTE p OR PTE_V)\<rparr>"
      have p: "aligned p" "p \<noteq> 0" using km Cons by (auto simp: kmem_inv_def)
      have w: "walk_loop (Suc l) pt va True s = walk_loop l p va True t"
        using nv al kalloc_some [of s p gs] km nl Cons p
        by (simp add: Let_def ent_def pvalid_def [symmetric] memset_wr t_def unat_pte_addr)
      note lk = vm_inv_link [OF Suc.prems [unfolded Cons] nv ix_lt t_def]
      have v: "pvalid (ent (mem t) pt ?i)" "PTE2PA (ent (mem t) pt ?i) = p"
        using lk(3) p(1) by (simp_all add: pvalid_OR_V PTE2PA_table)
      obtain r u where u: "walk_loop l p va True t = Done r u" "walk_post t l l p gs va r u"
        using Suc.IH [OF vm_inv_child [OF v(1) lk(2)]] unfolding v(2) by blast
      have "walk_post t (Suc l) l pt gs va r u" using walk_post_lift [OF v(1) lk(2)] u(2) unfolding v(2) by blast
      then obtain new fs' where n: "gs = new @ fs'" "grown t u (Suc l) pt new" "vm_inv u (Suc l) pt fs'"
        "if r = 0 then fs' = [] \<and> length gs < l else \<exists>q. lastpg (mem u) (Suc l) pt va = Some q \<and> r = pte_addr q 0 va"
        "length new \<le> l"
        unfolding walk_post_def by blast
      have "grown s u (Suc l) pt (p # new)" using grown_trans [OF lk(1) n(2)] by simp
      then have "walk_post s (Suc l) (Suc l) pt fs va r u"
        unfolding walk_post_def using Cons n(1,3,4,5) by (intro exI [of _ "p # new"] exI [of _ fs']) (simp split: if_splits)
      then show ?thesis unfolding w using u(1) by blast
    qed
  qed
qed

section \<open>Mapping pages\<close>

lemma unat_of_nat64: "k < 2 ^ 64 \<Longrightarrow> unat (of_nat k :: uint64) = k"
  by (simp add: unsigned_of_nat take_bit_nat_eq_self)

abbreviation vpn :: "uint64 \<Rightarrow> nat" where "vpn va \<equiv> unat va div 4096"

lemma same_ix_vpn: "va < MAXVA \<Longrightarrow> vb < MAXVA \<Longrightarrow> same_ix 2 va vb \<longleftrightarrow> vpn va = vpn vb"
proof
  assume "va < MAXVA" "vb < MAXVA" "same_ix 2 va vb"
  then show "vpn va = vpn vb" by (intro PX_inj) (simp_all add: same_ix_def)
next
  assume e: "vpn va = vpn vb"
  have "unat x div 2 ^ (12 + 9 * k) = vpn x div 2 ^ (9 * k)" for x :: uint64 and k
    by (simp add: power_add div_mult2_eq)
  then show "same_ix 2 va vb" using e by (simp add: same_ix_def word_unat_eq_iff unat_PX)
qed

text \<open>Storing a leaf entry keeps the tree and the free list.\<close>

lemma vm_inv_store_leaf:
  assumes inv: "vm_inv s l pt fs" and q: "lastpg (mem s) l pt va = Some q"
    and t: "t = s\<lparr>mem := store64 (mem s) (unat (pte_addr q 0 va)) e\<rparr>"
  shows "vm_inv t l pt fs" "leaf (mem t) l pt vb = (if same_ix l va vb then e else leaf (mem s) l pt vb)"
    "only_in {q} (mem s) (mem t)" "ptpages (mem t) l pt = ptpages (mem s) l pt"
proof -
  have I: "kmem_inv s fs" "aligned pt" "distinct (ptpages (mem s) l pt)" "set (ptpages (mem s) l pt) \<inter> set fs = {}"
    using inv by (simp_all add: vm_inv_def)
  have qa: "aligned q" "q \<notin> set fs" using lastpg_in [OF q] ptpages_aligned [OF I(2)] I(4) by auto
  have m: "mem t = store64 (mem s) (unat q + 8 * ix 0 va) e" using qa(1) by (simp add: t unat_pte_addr)
  note S = store_leaf [OF q I(3,2) m]
  show "leaf (mem t) l pt vb = (if same_ix l va vb then e else leaf (mem s) l pt vb)"
    "ptpages (mem t) l pt = ptpages (mem s) l pt" using S by blast+
  show o: "only_in {q} (mem s) (mem t)" unfolding m by (rule only_in_store64 [of q]) simp_all
  have "kmem_inv t fs" using I(1) o qa by (elim kmem_inv_frame) (auto simp: t)
  then show "vm_inv t l pt fs" using inv S by (simp add: vm_inv_def) (simp add: t)
qed

lemma walk_alloc:
  assumes "vm_inv s 2 pt fs" "va < MAXVA"
  shows "\<exists>r t. walk pt va True s = Done r t \<and> walk_post s 2 2 pt fs va r t"
  using walk_loop_alloc [OF assms(1), of va] assms(2) by (simp add: walk_def not_le [symmetric])


text \<open>\<open>mapped s t pt fs gs f\<close>: from \<open>s\<close> to \<open>t\<close> only page tables changed, they took pages from the front of the
  free list \<open>fs\<close> and left \<open>gs\<close>, and the entry of each \<open>va\<close> became \<open>f va\<close>.\<close>

definition mapped :: "kstate \<Rightarrow> kstate \<Rightarrow> uint64 \<Rightarrow> uint64 list \<Rightarrow> uint64 list \<Rightarrow> (uint64 \<Rightarrow> uint64) \<Rightarrow> bool" where
  "mapped s t pt fs gs f \<longleftrightarrow> t = s\<lparr>mem := mem t, freelist := freelist t\<rparr> \<and> vm_inv t 2 pt gs
    \<and> (\<exists>new. fs = new @ gs \<and> set (ptpages (mem t) 2 pt) = set (ptpages (mem s) 2 pt) \<union> set new
        \<and> only_in (set (ptpages (mem s) 2 pt) \<union> set new) (mem s) (mem t))
    \<and> (\<forall>va < MAXVA. leaf (mem t) 2 pt va = f va)"

lemma mapped_trans:
  assumes "mapped s t pt fs gs f" "mapped t u pt gs hs g"
  shows "mapped s u pt fs hs g"
proof -
  obtain new where n: "fs = new @ gs" "set (ptpages (mem t) 2 pt) = set (ptpages (mem s) 2 pt) \<union> set new"
    "only_in (set (ptpages (mem s) 2 pt) \<union> set new) (mem s) (mem t)"
    using assms(1) unfolding mapped_def by blast
  obtain new' where n': "gs = new' @ hs" "set (ptpages (mem u) 2 pt) = set (ptpages (mem t) 2 pt) \<union> set new'"
    "only_in (set (ptpages (mem t) 2 pt) \<union> set new') (mem t) (mem u)"
    using assms(2) unfolding mapped_def by blast
  have tu: "u = t\<lparr>mem := mem u, freelist := freelist u\<rparr>" "t = s\<lparr>mem := mem t, freelist := freelist t\<rparr>"
    using assms unfolding mapped_def by blast+
  have "t\<lparr>mem := mem u, freelist := freelist u\<rparr> = s\<lparr>mem := mem u, freelist := freelist u\<rparr>"
    by (subst tu(2)) simp
  then have "u = s\<lparr>mem := mem u, freelist := freelist u\<rparr>" using tu(1) by (rule trans [rotated])
  moreover have "only_in (set (ptpages (mem s) 2 pt) \<union> set (new @ new')) (mem s) (mem u)"
    using only_in_trans [OF n(3) n'(3)] n(2) by (auto elim: only_in_mono)
  moreover have "vm_inv u 2 pt hs" "\<forall>va < MAXVA. leaf (mem u) 2 pt va = g va" using assms(2) by (simp_all add: mapped_def)
  moreover have "fs = (new @ new') @ hs" "set (ptpages (mem u) 2 pt) = set (ptpages (mem s) 2 pt) \<union> set (new @ new')"
    using n n' by auto
  ultimately show ?thesis unfolding mapped_def by blast
qed

lemma mapped_cong: "mapped s t pt fs gs f \<Longrightarrow> (\<And>va. va < MAXVA \<Longrightarrow> f va = g va) \<Longrightarrow> mapped s t pt fs gs g"
  by (simp add: mapped_def)

lemma map_step:
  assumes inv: "vm_inv s 2 pt fs" and va: "va < MAXVA"
  obtains (full) t where "walk pt va True s = Done 0 t" "length fs < 2" "mapped s t pt fs [] (leaf (mem s) 2 pt)"
  | (pte) pte t gs where "walk pt va True s = Done pte t" "pte \<noteq> 0" "load64 (mem t) (unat pte) = leaf (mem s) 2 pt va"
      "length fs \<le> length gs + 2"
      "\<And>e. mapped s (t\<lparr>mem := store64 (mem t) (unat pte) e\<rparr>) pt fs gs
        (\<lambda>vb. if vpn vb = vpn va then e else leaf (mem s) 2 pt vb)"
proof -
  obtain r t where w: "walk pt va True s = Done r t" "walk_post s 2 2 pt fs va r t" using walk_alloc [OF assms] by blast
  then obtain new fs' where n: "fs = new @ fs'" "grown s t 2 pt new" "vm_inv t 2 pt fs'"
    "if r = 0 then fs' = [] \<and> length fs < 2 else \<exists>q. lastpg (mem t) 2 pt va = Some q \<and> r = pte_addr q 0 va"
    "length new \<le> 2" unfolding walk_post_def by blast
  note G = n(2) [unfolded grown_def]
  show ?thesis
  proof (cases "r = 0")
    case True
    have "mapped s t pt fs [] (leaf (mem s) 2 pt)" unfolding mapped_def using G n(1,3,4) True by auto
    then show ?thesis using full w(1) n(4) True by auto
  next
    case False
    then obtain q where q: "lastpg (mem t) 2 pt va = Some q" "r = pte_addr q 0 va" using n(4) by auto
    have al: "aligned q" "q \<in> set (ptpages (mem t) 2 pt)"
      using lastpg_in [OF q(1)] ptpages_aligned n(3) by (auto simp: vm_inv_def)
    have "leaf (mem t) 2 pt va = ent (mem t) q (ix 0 va)" by (simp add: leaf_def q(1))
    moreover have "leaf (mem t) 2 pt va = leaf (mem s) 2 pt va" using G by blast
    ultimately have "load64 (mem t) (unat r) = leaf (mem s) 2 pt va" using q(2) al(1) by (simp add: load_pte_addr)
    moreover have "mapped s (t\<lparr>mem := store64 (mem t) (unat r) e\<rparr>) pt fs fs' (\<lambda>vb. if vpn vb = vpn va then e else leaf (mem s) 2 pt vb)" for e
    proof -
      define u where "u = t\<lparr>mem := store64 (mem t) (unat (pte_addr q 0 va)) e\<rparr>"
      note S = vm_inv_store_leaf [OF n(3) q(1) u_def]
      have "only_in (set (ptpages (mem s) 2 pt) \<union> set new \<union> {q}) (mem s) (mem u)"
        using only_in_trans S(3) G by blast
      then have "only_in (set (ptpages (mem s) 2 pt) \<union> set new) (mem s) (mem u)" using al(2) G by (simp add: insert_absorb)
      moreover have "u = s\<lparr>mem := mem u, freelist := freelist u\<rparr>"
      proof -
        have t: "t = s\<lparr>mem := mem t, freelist := freelist t\<rparr>" using G by blast
        show ?thesis unfolding u_def by (subst (1) t) simp
      qed
      moreover have "leaf (mem u) 2 pt vb = (if vpn vb = vpn va then e else leaf (mem s) 2 pt vb)" if "vb < MAXVA" for vb
        using S(2) [of vb] G same_ix_vpn [OF va that] by auto
      ultimately show ?thesis
        unfolding mapped_def using n(1) S(1,4) G q(2) by (intro conjI exI [of _ new]) (auto simp: u_def)
    qed
    moreover have "length fs \<le> length fs' + 2" using n(1,5) by simp
    ultimately show ?thesis using pte w(1) False by blast
  qed
qed


lemma mappages_loop_spec:
  assumes "vm_inv s 2 pt fs" "unat a + n * 4096 < unat MAXVA" "unat a mod 4096 = 0" "last_a = a + of_nat (n * 4096)"
    "\<forall>va < MAXVA. vpn a \<le> vpn va \<and> vpn va \<le> vpn a + n \<longrightarrow> \<not> pvalid (leaf (mem s) 2 pt va)"
  shows "(\<exists>t gs. mappages_loop pt a last_a pa perm s = Done 0 t \<and> mapped s t pt fs gs
      (\<lambda>va. if vpn a \<le> vpn va \<and> vpn va \<le> vpn a + n
        then PA2PTE (pa + of_nat ((vpn va - vpn a) * 4096)) OR perm OR PTE_V else leaf (mem s) 2 pt va))
    \<or> (\<exists>t k. mappages_loop pt a last_a pa perm s = Done (-1) t \<and> k \<le> n \<and> length fs < 2 * Suc k \<and> mapped s t pt fs []
      (\<lambda>va. if vpn a \<le> vpn va \<and> vpn va < vpn a + k
        then PA2PTE (pa + of_nat ((vpn va - vpn a) * 4096)) OR perm OR PTE_V else leaf (mem s) 2 pt va))"
  using assms
proof (induction n arbitrary: a pa s fs)
  case 0
  have va: "a < MAXVA" using 0(2) by (simp add: word_less_nat_alt)
  have nv: "\<not> pvalid (leaf (mem s) 2 pt a)" using 0(5) va by auto
  show ?case using 0(1) va
  proof (cases rule: map_step)
    case (full t)
    then have "mappages_loop pt a last_a pa perm s = Done (-1) t" by (simp add: mappages_loop.simps)
    then show ?thesis
      by (intro disjI2 exI [of _ t] exI [of _ 0] conjI mapped_cong [OF full(3)]) (use full(2) in auto)
  next
    case (pte pte t gs)
    let ?e = "PA2PTE pa OR perm OR PTE_V"
    have r: "mappages_loop pt a last_a pa perm s = Done 0 (t\<lparr>mem := store64 (mem t) (unat pte) ?e\<rparr>)"
      using pte(1-3) nv 0(4) by (subst mappages_loop.simps) (simp add: pvalid_def)
    have "(\<lambda>vb. if vpn vb = vpn a then ?e else leaf (mem s) 2 pt vb) = (\<lambda>va. if vpn a \<le> vpn va \<and> vpn va \<le> vpn a + 0
        then PA2PTE (pa + of_nat ((vpn va - vpn a) * 4096)) OR perm OR PTE_V else leaf (mem s) 2 pt va)"
      by (auto simp: fun_eq_iff)
    then show ?thesis using r pte(5) [of ?e] by (intro disjI1 exI [of _ "t\<lparr>mem := store64 (mem t) (unat pte) ?e\<rparr>"] exI [of _ gs]) simp
  qed
next
  case (Suc n)
  have va: "a < MAXVA" using Suc.prems(2) by (simp add: word_less_nat_alt)
  have nv: "\<not> pvalid (leaf (mem s) 2 pt a)" using Suc.prems(5) va by auto
  have ua: "unat (a + PGSIZE) = unat a + 4096" by (rule unat_next_va [OF va])
  then have vn: "vpn (a + PGSIZE) = vpn a + 1" by simp
  have ne: "a \<noteq> last_a"
  proof
    assume "a = last_a"
    then have "unat (of_nat (Suc n * 4096) :: uint64) = 0" using Suc.prems(4) by simp
    moreover have "unat (of_nat (Suc n * 4096) :: uint64) = Suc n * 4096"
      using Suc.prems(2) by (intro unat_of_nat64) (simp add: MAXVA_val)
    ultimately show False by simp
  qed
  show ?case using Suc.prems(1) va
  proof (cases rule: map_step)
    case (full t)
    then have "mappages_loop pt a last_a pa perm s = Done (-1) t" by (simp add: mappages_loop.simps)
    then show ?thesis
      by (intro disjI2 exI [of _ t] exI [of _ 0] conjI mapped_cong [OF full(3)]) (use full(2) in auto)
  next
    case (pte pte t gs)
    let ?e = "PA2PTE pa OR perm OR PTE_V"
    define u where "u = t\<lparr>mem := store64 (mem t) (unat pte) ?e\<rparr>"
    have m1: "mapped s u pt fs gs (\<lambda>vb. if vpn vb = vpn a then ?e else leaf (mem s) 2 pt vb)"
      using pte(5) [of ?e] by (simp add: u_def)
    then have fs': "vm_inv u 2 pt gs" unfolding mapped_def by blast
    have lu: "leaf (mem u) 2 pt vb = (if vpn vb = vpn a then ?e else leaf (mem s) 2 pt vb)" if "vb < MAXVA" for vb
      using m1 that by (simp add: mapped_def)
    have r: "mappages_loop pt a last_a pa perm s = mappages_loop pt (a + PGSIZE) last_a (pa + PGSIZE) perm u"
      using pte(1-3) nv ne by (subst mappages_loop.simps) (simp add: pvalid_def u_def)
    define F where "F j g va = (if vpn (a + PGSIZE) \<le> vpn va \<and> vpn va < vpn (a + PGSIZE) + j
        then PA2PTE (pa + PGSIZE + of_nat ((vpn va - vpn (a + PGSIZE)) * 4096)) OR perm OR PTE_V else g va)"
      for j :: nat and g :: "uint64 \<Rightarrow> uint64" and va
    have IH: "(\<exists>t hs. mappages_loop pt (a + PGSIZE) last_a (pa + PGSIZE) perm u = Done 0 t
          \<and> mapped u t pt gs hs (F (Suc n) (leaf (mem u) 2 pt)))
      \<or> (\<exists>t k. mappages_loop pt (a + PGSIZE) last_a (pa + PGSIZE) perm u = Done (-1) t \<and> k \<le> n
          \<and> length gs < 2 * Suc k \<and> mapped u t pt gs [] (F k (leaf (mem u) 2 pt)))"
      unfolding F_def less_Suc_eq_le add_Suc_right
    proof (rule Suc.IH [OF fs'])
      show "unat (a + PGSIZE) + n * 4096 < unat MAXVA" "unat (a + PGSIZE) mod 4096 = 0"
        using ua Suc.prems(2,3) by simp_all
      show "last_a = a + PGSIZE + of_nat (n * 4096)" using Suc.prems(4) by (simp add: PGSIZE_def)
      show "\<forall>va<MAXVA. vpn (a + PGSIZE) \<le> vpn va \<and> vpn va \<le> vpn (a + PGSIZE) + n \<longrightarrow> \<not> pvalid (leaf (mem u) 2 pt va)"
        using Suc.prems(5) lu vn by auto
    qed
    have fe: "F j (leaf (mem u) 2 pt) va = (if vpn a \<le> vpn va \<and> vpn va < vpn a + Suc j
        then PA2PTE (pa + of_nat ((vpn va - vpn a) * 4096)) OR perm OR PTE_V else leaf (mem s) 2 pt va)"
      if "va < MAXVA" for j va
    proof (cases "vpn va = vpn a")
      case False
      show ?thesis
      proof (cases "vpn a < vpn va")
        case True
        have "(vpn va - vpn a) * 4096 = 4096 + (vpn va - (vpn a + 1)) * 4096" using True by simp
        then have e: "pa + PGSIZE + of_nat ((vpn va - (vpn a + 1)) * 4096) = pa + of_nat ((vpn va - vpn a) * 4096)"
          by (simp only: of_nat_add) (simp add: PGSIZE_def)
        have c: "(vpn a + 1 \<le> vpn va \<and> vpn va < vpn a + 1 + j) = (vpn a \<le> vpn va \<and> vpn va < vpn a + Suc j)"
          using True by auto
        show ?thesis unfolding F_def vn c e using lu [OF that] False by argo
      qed (use False lu [OF that] in \<open>simp add: F_def vn\<close>)
    qed (use lu [OF that] in \<open>simp add: F_def vn\<close>)
    from IH show ?thesis
    proof (elim disjE exE conjE)
      fix w hs
      assume w: "mappages_loop pt (a + PGSIZE) last_a (pa + PGSIZE) perm u = Done 0 w"
        and m: "mapped u w pt gs hs (F (Suc n) (leaf (mem u) 2 pt))"
      have "mapped s w pt fs hs (\<lambda>va. if vpn a \<le> vpn va \<and> vpn va \<le> vpn a + Suc n
        then PA2PTE (pa + of_nat ((vpn va - vpn a) * 4096)) OR perm OR PTE_V else leaf (mem s) 2 pt va)"
        by (rule mapped_cong [OF mapped_trans [OF m1 m]]) (simp add: fe less_Suc_eq_le)
      then show ?thesis using r w by auto
    next
      fix w k
      assume w: "mappages_loop pt (a + PGSIZE) last_a (pa + PGSIZE) perm u = Done (-1) w" "k \<le> n" "length gs < 2 * Suc k"
        and m: "mapped u w pt gs [] (F k (leaf (mem u) 2 pt))"
      have "mapped s w pt fs [] (\<lambda>va. if vpn a \<le> vpn va \<and> vpn va < vpn a + Suc k
        then PA2PTE (pa + of_nat ((vpn va - vpn a) * 4096)) OR perm OR PTE_V else leaf (mem s) 2 pt va)"
        by (rule mapped_cong [OF mapped_trans [OF m1 m]]) (simp add: fe)
      then show ?thesis using r w pte(4) by (intro disjI2 exI [of _ w] exI [of _ "Suc k"]) simp
    qed
  qed
qed

end
