(* ===== verification/Usermem.thy ===== *)
theory Usermem
  imports Pagetable
begin

text \<open>
  User memory as the kernel sees it: mapping a range of pages, the page-fault handler of lazily
  allocated memory, and the copies between kernel and user space as reads and writes of the
  physical addresses the page table gives.
\<close>

section \<open>Reading a page table\<close>

definition pt_ok :: "pmem \<Rightarrow> uint64 \<Rightarrow> bool" where
  "pt_ok m pt \<longleftrightarrow> aligned pt \<and> 0 \<notin> set (ptpages m 2 pt)"

lemma vm_inv_pt_ok: "vm_inv s 2 pt fs \<Longrightarrow> pt_ok (mem s) pt"
  by (simp add: vm_inv_def pt_ok_def)

lemma pte_addr_nz: "aligned q \<Longrightarrow> q \<noteq> 0 \<Longrightarrow> pte_addr q l va \<noteq> 0"
  using unat_pte_addr [of q l va] by (auto simp: word_unat_eq_iff)

lemma walk_read:
  assumes "pt_ok (mem s) pt" "va < MAXVA"
  shows "\<exists>pte. walk pt va False s = Done pte s \<and> (if pte = 0 then leaf (mem s) 2 pt va = 0
     else load64 (mem s) (unat pte) = leaf (mem s) 2 pt va)"
proof (cases "lastpg (mem s) 2 pt va")
  case None
  then show ?thesis
    using assms walk_loop_read [of pt 2 va s] by (simp add: walk_def pt_ok_def leaf_def not_le)
next
  case (Some q)
  then have "aligned q" "q \<noteq> 0" using lastpg_in [OF Some] assms(1) ptpages_aligned by (auto simp: pt_ok_def)
  then show ?thesis
    using assms walk_loop_read [of pt 2 va s] Some pte_addr_nz
    by (simp add: walk_def pt_ok_def leaf_def not_le load_pte_addr)
qed

definition user_leaf :: "uint64 \<Rightarrow> bool" where
  "user_leaf e \<longleftrightarrow> pvalid e \<and> e AND PTE_U \<noteq> 0"

lemma walkaddr_eq:
  assumes "pt_ok (mem s) pt"
  shows "walkaddr pt va s = Done (if va < MAXVA \<and> user_leaf (leaf (mem s) 2 pt va) then PTE2PA (leaf (mem s) 2 pt va) else 0) s"
proof (cases "va < MAXVA")
  case True
  then obtain pte where "walk pt va False s = Done pte s" "if pte = 0 then leaf (mem s) 2 pt va = 0
     else load64 (mem s) (unat pte) = leaf (mem s) 2 pt va" using walk_read [OF assms] by blast
  then show ?thesis
    using True by (simp add: walkaddr_def user_leaf_def pvalid_def not_le Let_def split: if_splits)
next
  case False
  then have "MAXVA \<le> va" by (simp add: not_less)
  with False show ?thesis by (simp add: walkaddr_def)
qed

lemma leaf_page: "vpn va = vpn vb \<Longrightarrow> leaf m 2 pt va = leaf m 2 pt vb"
proof -
  assume e: "vpn va = vpn vb"
  have "unat x div 2 ^ (12 + 9 * k) = vpn x div 2 ^ (9 * k)" for x :: uint64 and k
    by (simp add: power_add div_mult2_eq)
  then have px: "PX k va = PX k vb" for k using e by (simp add: word_unat_eq_iff unat_PX)
  have "lastpg m l pt va = lastpg m l pt vb" for l
    by (induction l arbitrary: pt) (simp_all add: px Let_def)
  then show ?thesis by (simp add: leaf_def px split: option.split)
qed

section \<open>User addresses\<close>

definition uleaf :: "pmem \<Rightarrow> uint64 \<Rightarrow> nat \<Rightarrow> uint64" where
  "uleaf m pt a = leaf m 2 pt (of_nat a)"

definition uaddr :: "pmem \<Rightarrow> uint64 \<Rightarrow> nat \<Rightarrow> nat" where
  "uaddr m pt a = unat (PTE2PA (uleaf m pt a)) + a mod 4096"

text \<open>The \<open>n\<close> bytes at \<open>a\<close> are mapped for the user, and writable when \<open>w\<close>.\<close>

definition umapped :: "pmem \<Rightarrow> uint64 \<Rightarrow> bool \<Rightarrow> nat \<Rightarrow> nat \<Rightarrow> bool" where
  "umapped m pt w a n \<longleftrightarrow> a + n \<le> unat MAXVA \<and> (\<forall>x \<in> {a..<a + n}. user_leaf (uleaf m pt x) \<and> PTE2PA (uleaf m pt x) \<noteq> 0
     \<and> (w \<longrightarrow> uleaf m pt x AND PTE_W \<noteq> 0))"

lemma unat_va: "a < unat MAXVA \<Longrightarrow> unat (of_nat a :: uint64) = a"
  by (rule unat_of_nat64) (simp add: MAXVA_val)

lemma uleaf_page: "a div 4096 = b div 4096 \<Longrightarrow> a < unat MAXVA \<Longrightarrow> b < unat MAXVA \<Longrightarrow> uleaf m pt a = uleaf m pt b"
  unfolding uleaf_def by (rule leaf_page) (simp add: unat_va)

lemma uaddr_add:
  assumes "a + k < unat MAXVA" "a mod 4096 + k < 4096"
  shows "uaddr m pt (a + k) = uaddr m pt a + k"
proof -
  have e: "a + k = (a mod 4096 + k) + a div 4096 * 4096" by simp
  have d: "(a + k) div 4096 = a div 4096" "(a + k) mod 4096 = a mod 4096 + k"
    using assms(2) by (subst e; simp only: div_mult_self1 mod_mult_self1 div_less mod_less; simp)+
  then show ?thesis using uleaf_page [of "a + k" a m pt] assms(1) by (simp add: uaddr_def)
qed


lemma next_page:
  assumes "a mod 4096 + n = (4096::nat)" "a + n < unat MAXVA"
  shows "PGROUNDDOWN (of_nat a) + PGSIZE = of_nat (a + n)"
proof -
  have a: "unat (of_nat a :: uint64) = a" using assms(2) by (intro unat_va) simp
  have "unat (PGROUNDDOWN (of_nat a) + PGSIZE) = a - a mod 4096 + 4096"
    using assms(2) by (subst unat_next_va) (simp_all add: unat_PGROUNDDOWN a word_less_nat_alt)
  also have "\<dots> = a + n" using assms(1) mod_less_eq_dividend [of a 4096] by linarith
  also have "\<dots> = unat (of_nat (a + n) :: uint64)" using assms(2) by (simp only: unat_va)
  finally show ?thesis by (simp only: word_unat_eq_iff)
qed

lemma user_byte:
  assumes "a < unat MAXVA"
  shows "unat (PTE2PA (uleaf m pt a) + (of_nat a - PGROUNDDOWN (of_nat a))) = uaddr m pt a"
    "leaf m 2 pt (PGROUNDDOWN (of_nat a)) = uleaf m pt a" "PGROUNDDOWN (of_nat a) < MAXVA"
proof -
  have a: "unat (of_nat a :: uint64) = a" using assms by (rule unat_va)
  have o: "unat (of_nat a - PGROUNDDOWN (of_nat a)) = a mod 4096" by (simp only: unat_page_off a)
  have "unat (PTE2PA (uleaf m pt a)) + a mod 4096 < 2 ^ 64"
    by (rule aligned_add) simp_all
  then show "unat (PTE2PA (uleaf m pt a) + (of_nat a - PGROUNDDOWN (of_nat a))) = uaddr m pt a"
    unfolding uaddr_def by (subst unat_add_lt) (simp_all add: o)
  show "leaf m 2 pt (PGROUNDDOWN (of_nat a)) = uleaf m pt a"
    unfolding uleaf_def by (rule leaf_page) (simp add: unat_PGROUNDDOWN minus_mod_eq_div_mult)
  show "PGROUNDDOWN (of_nat a) < MAXVA" using assms a by (simp add: word_less_nat_alt unat_PGROUNDDOWN)
qed

lemma user_page_mapped:
  assumes "pt_ok (mem s) pt" "umapped (mem s) pt w a n" "0 < n"
  shows "user_page pt (PGROUNDDOWN (of_nat a)) s = Done (PTE2PA (uleaf (mem s) pt a)) s"
proof -
  have a: "a < unat MAXVA" "user_leaf (uleaf (mem s) pt a)" "PTE2PA (uleaf (mem s) pt a) \<noteq> 0"
    using assms(2,3) by (auto simp: umapped_def)
  show ?thesis using a user_byte(2,3) [OF a(1)] walkaddr_eq [OF assms(1)] by (simp add: user_page_def)
qed

lemma rd_page:
  assumes "a + n \<le> unat MAXVA" "a mod 4096 + n \<le> 4096"
  shows "rd m (uaddr m pt a) n = map (\<lambda>x. m (uaddr m pt x)) [a..<a + n]"
  using assms by (intro nth_equalityI) (simp_all add: uaddr_add)

lemma umapped_rest: "umapped m pt w a n \<Longrightarrow> k \<le> n \<Longrightarrow> umapped m pt w (a + k) (n - k)"
  by (auto simp: umapped_def)

lemma copyin_spec:
  assumes "pt_ok (mem s) pt" "umapped (mem s) pt False a n"
  shows "copyin pt (of_nat a) n dst s = Done (0, dst @ map (\<lambda>x. mem s (uaddr (mem s) pt x)) [a..<a + n]) s"
  using assms
proof (induction n arbitrary: a dst rule: less_induct)
  case (less n)
  show ?case
  proof (cases "n = 0")
    case True
    then show ?thesis by (simp add: copyin.simps)
  next
    case False
    let ?m = "mem s"
    define k where "k = chunk (of_nat a) n"
    have am: "a + n \<le> unat MAXVA" "a < unat MAXVA" using less.prems(2) False by (auto simp: umapped_def)
    have k: "k = min (4096 - a mod 4096) n" using unat_va [OF am(2)] by (simp add: k_def chunk_eq)
    have kl: "0 < k" "k \<le> n" "a mod 4096 + k \<le> 4096" unfolding k using False mod_less_divisor [of 4096 a] by linarith+
    have la: "PTE2PA (uleaf ?m pt a) \<noteq> 0" using less.prems(2) False by (simp add: umapped_def)
    have r: "copyin pt (of_nat a) n dst s
        = copyin pt (PGROUNDDOWN (of_nat a) + PGSIZE) (n - k) (dst @ rd ?m (uaddr ?m pt a) k) s"
      using False user_page_mapped [OF less.prems] la user_byte(1) [OF am(2), of ?m pt]
      by (subst copyin.simps) (simp add: k_def Let_def)
    have got: "rd ?m (uaddr ?m pt a) k = map (\<lambda>x. ?m (uaddr ?m pt x)) [a..<a + k]"
      using am kl by (intro rd_page) simp_all
    show ?thesis
    proof (cases "k = n")
      case True
      then show ?thesis using r got by (simp add: copyin.simps)
    next
      case ne: False
      then have "a mod 4096 + k = 4096" using kl(2) k by (simp add: min_def split: if_splits)
      then have "PGROUNDDOWN (of_nat a) + PGSIZE = of_nat (a + k)" using am kl ne by (intro next_page) simp_all
      then show ?thesis
        using r got less.IH [of "n - k" "a + k"] less.prems(1) umapped_rest [OF less.prems(2) kl(2)] kl
          upt_add_eq_append [of a "a + k" "n - k"] by simp
    qed
  qed
qed

text \<open>Bytes stored at the given addresses, one after the other.\<close>

definition wr_at :: "pmem \<Rightarrow> nat list \<Rightarrow> byte list \<Rightarrow> pmem" where
  "wr_at m as bs = fold (\<lambda>(a, b) m. m(a := b)) (zip as bs) m"

lemma wr_at_simps [simp]: "wr_at m [] bs = m" "wr_at m as [] = m" "wr_at m (a # as) (b # bs) = wr_at (m(a := b)) as bs"
  by (simp_all add: wr_at_def)

lemma wr_at_append: "length as = length bs \<Longrightarrow> wr_at m (as @ as') (bs @ bs') = wr_at (wr_at m as bs) as' bs'"
  by (simp add: wr_at_def)

lemma wr_at_other: "x \<notin> set as \<Longrightarrow> wr_at m as bs x = m x"
proof (induction as arbitrary: m bs)
  case (Cons a as)
  then show ?case by (cases bs) simp_all
qed simp

lemma wr_at_get: "distinct as \<Longrightarrow> length as = length bs \<Longrightarrow> map (wr_at m as bs) as = bs"
proof (induction as arbitrary: m bs)
  case (Cons a as)
  then obtain b bs' where "bs = b # bs'" by (cases bs) auto
  then show ?case using Cons by (simp add: wr_at_other)
qed simp

lemma wr_at_wr: "wr_at m [a..<a + length bs] bs = wr m a bs"
proof (induction bs arbitrary: m a)
  case (Cons b bs)
  have "wr_at (m(a := b)) [Suc a..<Suc a + length bs] bs = wr (m(a := b)) (Suc a) bs" by (rule Cons.IH)
  moreover have "m(a := b) = wr m a [b]" by (auto simp: wr_def fun_eq_iff)
  moreover have "[a..<a + length (b # bs)] = a # [Suc a..<Suc a + length bs]"
    by (subst upt_conv_Cons) simp_all
  ultimately show ?case using wr_append [of m a "[b]" bs] by (simp only: wr_at_simps) simp
qed simp

lemma user_write_frame:
  assumes al: "aligned pt" and np: "\<forall>x \<in> set xs. PTE2PA (uleaf m pt x) \<notin> set (ptpages m 2 pt)"
    and m': "m' = wr_at m (map (uaddr m pt) xs) bs"
  shows "ptpages m' 2 pt = ptpages m 2 pt" "uleaf m' pt = uleaf m pt" "uaddr m' pt = uaddr m pt"
proof -
  let ?Q = "(\<lambda>x. PTE2PA (uleaf m pt x)) ` set xs"
  have o: "only_in ?Q m m'" unfolding only_in_def
  proof (intro allI impI)
    fix y assume "\<forall>p \<in> ?Q. \<not> in_page p y"
    then have "y \<notin> set (map (uaddr m pt) xs)" by (auto simp: in_page_def uaddr_def)
    then show "m' y = m y" by (simp add: m' wr_at_other)
  qed
  have qa: "\<forall>q \<in> ?Q. aligned q" by auto
  have np': "set (ptpages m 2 pt) \<inter> ?Q = {}" using np by auto
  show "ptpages m' 2 pt = ptpages m 2 pt" using tree_frame [OF o qa np' al] by simp
  show "uleaf m' pt = uleaf m pt" unfolding uleaf_def fun_eq_iff using leaf_frame [OF o qa np' al] by simp
  then show "uaddr m' pt = uaddr m pt" by (simp add: fun_eq_iff uaddr_def)
qed

lemma copyout_spec:
  assumes "pt_ok (mem s) pt" "umapped (mem s) pt True a (length src)"
    "\<forall>x \<in> {a..<a + length src}. PTE2PA (uleaf (mem s) pt x) \<notin> set (ptpages (mem s) 2 pt)"
  shows "copyout pt (of_nat a) src s = Done 0 (s\<lparr>mem := wr_at (mem s) (map (uaddr (mem s) pt) [a..<a + length src]) src\<rparr>)"
  using assms
proof (induction "length src" arbitrary: a src s rule: less_induct)
  case less
  show ?case
  proof (cases "src = []")
    case True
    then show ?thesis by (simp add: copyout.simps)
  next
    case False
    let ?m = "mem s" and ?n = "length src"
    define k where "k = chunk (of_nat a) ?n"
    have n0: "0 < ?n" using False by simp
    have am: "a + ?n \<le> unat MAXVA" using less.prems(2) by (simp add: umapped_def)
    then have am: "a + ?n \<le> unat MAXVA" "a < unat MAXVA" using n0 by linarith+
    have nl: "\<not> MAXVA \<le> PGROUNDDOWN (of_nat a)" using user_byte(3) [OF am(2)] by (simp add: not_le)
    have k: "k = min (4096 - a mod 4096) ?n" using unat_va [OF am(2)] by (simp add: k_def chunk_eq)
    have kl: "0 < k" "k \<le> ?n" "a mod 4096 + k \<le> 4096" unfolding k using False mod_less_divisor [of 4096 a] by auto
    have la: "user_leaf (uleaf ?m pt a)" "PTE2PA (uleaf ?m pt a) \<noteq> 0" "uleaf ?m pt a AND PTE_W \<noteq> 0"
      using less.prems(2) n0 by (simp_all add: umapped_def)
    obtain pte where pte: "walk pt (PGROUNDDOWN (of_nat a)) False s = Done pte s"
        "if pte = 0 then uleaf ?m pt a = 0 else load64 ?m (unat pte) = uleaf ?m pt a"
      using walk_read [OF less.prems(1) user_byte(3) [OF am(2)]] unfolding user_byte(2) [OF am(2)] by blast
    have pz: "pte \<noteq> 0" using pte(2) la(1) by (auto simp: user_leaf_def split: if_splits)
    define t where "t = s\<lparr>mem := wr ?m (uaddr ?m pt a) (take k src)\<rparr>"
    have r: "copyout pt (of_nat a) src s = copyout pt (PGROUNDDOWN (of_nat a) + PGSIZE) (drop k src) t"
      using False user_page_mapped [OF less.prems(1,2) n0] la pte pz user_byte(1) [OF am(2)] nl
      by (subst copyout.simps) (simp add: k_def Let_def t_def)
    have pw: "aligned (PTE2PA (uleaf ?m pt a))" by simp
    have only: "only_in {PTE2PA (uleaf ?m pt a)} ?m (mem t)"
      unfolding t_def using kl by (auto intro!: only_in_wr simp: uaddr_def)
    have np: "set (ptpages ?m 2 pt) \<inter> {PTE2PA (uleaf ?m pt a)} = {}" using less.prems(3) n0 by simp
    have al: "aligned pt" using less.prems(1) by (simp add: pt_ok_def)
    have tp: "ptpages (mem t) 2 pt = ptpages ?m 2 pt" using tree_frame [OF only _ np al] by simp
    have ul: "uleaf (mem t) pt x = uleaf ?m pt x" for x
      unfolding uleaf_def using leaf_frame [OF only _ np al] by simp
    then have ua: "uaddr (mem t) pt = uaddr ?m pt" by (simp add: fun_eq_iff uaddr_def)
    have "map (uaddr ?m pt) [a..<a + k] = [uaddr ?m pt a..<uaddr ?m pt a + k]"
      using am kl by (intro nth_equalityI) (simp_all add: uaddr_add)
    then have w: "wr_at ?m (map (uaddr ?m pt) [a..<a + k]) (take k src) = mem t"
      using wr_at_wr [of ?m "uaddr ?m pt a" "take k src"] kl(2) by (simp add: t_def min_absorb2)
    have sp: "map (uaddr ?m pt) [a..<a + ?n] = map (uaddr ?m pt) [a..<a + k] @ map (uaddr ?m pt) [a + k..<a + ?n]"
      using upt_add_eq_append [of a "a + k" "?n - k"] kl by simp
    have whole: "wr_at ?m (map (uaddr ?m pt) [a..<a + ?n]) src = wr_at (mem t) (map (uaddr ?m pt) [a + k..<a + ?n]) (drop k src)"
      unfolding sp w [symmetric] using wr_at_append [of "map (uaddr ?m pt) [a..<a + k]" "take k src" ?m _ "drop k src"] kl(2)
      by simp
    show ?thesis
    proof (cases "k = ?n")
      case True
      then show ?thesis using r whole by (simp add: copyout.simps t_def)
    next
      case ne: False
      then have "a mod 4096 + k = 4096" using kl(2) k by (simp add: min_def split: if_splits)
      then have nx: "PGROUNDDOWN (of_nat a) + PGSIZE = of_nat (a + k)" using am kl ne by (intro next_page) simp_all
      have "copyout pt (of_nat (a + k)) (drop k src) t
          = Done 0 (t\<lparr>mem := wr_at (mem t) (map (uaddr (mem t) pt) [a + k..<a + k + length (drop k src)]) (drop k src)\<rparr>)"
      proof (rule less.hyps)
        show "length (drop k src) < length src" using kl by simp
        show "pt_ok (mem t) pt" using less.prems(1) by (simp add: pt_ok_def tp)
        show "umapped (mem t) pt True (a + k) (length (drop k src))"
          using umapped_rest [OF less.prems(2) kl(2)] by (simp add: umapped_def ul)
        show "\<forall>x\<in>{a + k..<a + k + length (drop k src)}. PTE2PA (uleaf (mem t) pt x) \<notin> set (ptpages (mem t) 2 pt)"
          using less.prems(3) kl(2) by (simp add: ul tp)
      qed
      then show ?thesis using r nx whole kl(2) by (simp add: ua) (simp add: t_def)
    qed
  qed
qed


section \<open>Mapping a range\<close>

lemma mappages_spec:
  assumes inv: "vm_inv s 2 pt fs" and n: "0 < n" and al: "unat va mod 4096 = 0" and top: "unat va + n * 4096 \<le> unat MAXVA"
    and free: "\<forall>v < MAXVA. vpn va \<le> vpn v \<and> vpn v < vpn va + n \<longrightarrow> \<not> pvalid (leaf (mem s) 2 pt v)"
  shows "\<exists>r t gs k. mappages pt va (of_nat (n * 4096)) pa perm s = Done r t
    \<and> (r = 0 \<and> k = n \<or> r = -1 \<and> k < n \<and> gs = [] \<and> length fs < 2 * Suc k)
    \<and> mapped s t pt fs gs (\<lambda>v. if vpn va \<le> vpn v \<and> vpn v < vpn va + k
        then PA2PTE (pa + of_nat ((vpn v - vpn va) * 4096)) OR perm OR PTE_V else leaf (mem s) 2 pt v)"
proof -
  obtain j where j: "n = Suc j" using n by (cases n) auto
  have sz: "unat (of_nat (n * 4096) :: uint64) = n * 4096" using top by (intro unat_of_nat64) (simp add: MAXVA_val)
  have nz: "(of_nat (n * 4096) :: uint64) \<noteq> 0" using sz n by (simp only: word_unat_eq_iff) simp
  have l: "va + of_nat (n * 4096) - PGSIZE = va + of_nat (j * 4096)" by (simp add: j PGSIZE_def)
  have m: "mappages pt va (of_nat (n * 4096)) pa perm s = mappages_loop pt va (va + of_nat (j * 4096)) pa perm s"
    using al sz nz unfolding mappages_def mod_PGSIZE l [symmetric] by (simp add: sz)
  have "unat va + j * 4096 < unat MAXVA" using top j by simp
  moreover have "\<forall>v < MAXVA. vpn va \<le> vpn v \<and> vpn v \<le> vpn va + j \<longrightarrow> \<not> pvalid (leaf (mem s) 2 pt v)"
    using free j by auto
  note mappages_loop_spec [OF inv calculation(1) al refl this, of pa perm]
  then show ?thesis
  proof (elim disjE exE conjE)
    fix t gs
    assume "mappages_loop pt va (va + of_nat (j * 4096)) pa perm s = Done 0 t"
      "mapped s t pt fs gs (\<lambda>v. if vpn va \<le> vpn v \<and> vpn v \<le> vpn va + j
        then PA2PTE (pa + of_nat ((vpn v - vpn va) * 4096)) OR perm OR PTE_V else leaf (mem s) 2 pt v)"
    then show ?thesis
      unfolding m by (intro exI [of _ 0] exI [of _ t] exI [of _ gs] exI [of _ n]) (simp add: j less_Suc_eq_le)
  next
    fix t k
    assume "mappages_loop pt va (va + of_nat (j * 4096)) pa perm s = Done (-1) t" "k \<le> j" "length fs < 2 * Suc k"
      "mapped s t pt fs [] (\<lambda>v. if vpn va \<le> vpn v \<and> vpn v < vpn va + k
        then PA2PTE (pa + of_nat ((vpn v - vpn va) * 4096)) OR perm OR PTE_V else leaf (mem s) 2 pt v)"
    then show ?thesis
      unfolding m by (intro exI [of _ "-1"] exI [of _ t] exI [of _ "[]"] exI [of _ k]) (simp add: j)
  qed
qed

section \<open>Page faults\<close>

lemma kalloc_zeroed:
  assumes inv: "vm_inv s 2 pt (pg # fs)" and t: "t = s\<lparr>freelist := load64 (mem s) (unat pg),
      mem := wr (wr (mem s) (unat pg) (replicate 4096 5)) (unat pg) (replicate 4096 0)\<rparr>"
  shows "bnd (kalloc s) (\<lambda>pa s. Done pa (s\<lparr>mem := memset (mem s) (unat pa) 0 (unat PGSIZE)\<rparr>)) = Done pg t" "pg \<noteq> 0"
    "vm_inv t 2 pt fs" "leaf (mem t) 2 pt va = leaf (mem s) 2 pt va" "rd (mem t) (unat pg) 4096 = replicate 4096 0"
    "pg \<notin> set (ptpages (mem t) 2 pt)" "pg \<notin> set fs" "aligned pg" "kpage (link s) pg"
    "ptpages (mem t) 2 pt = ptpages (mem s) 2 pt" "kalloc s = Done pg (s\<lparr>mem := wr (mem s) (unat pg) (replicate 4096 5), freelist := load64 (mem s) (unat pg)\<rparr>)"
proof -
  have I: "kmem_inv s (pg # fs)" "KmemLock \<notin> set (held s)" "aligned pt" "set (ptpages (mem s) 2 pt) \<inter> set (pg # fs) = {}"
    using inv by (simp_all add: vm_inv_def)
  show kp: "pg \<noteq> 0" "pg \<notin> set fs" "aligned pg" "kpage (link s) pg" using I(1) by (auto simp: kmem_inv_def)
  show ka: "kalloc s = Done pg (s\<lparr>mem := wr (mem s) (unat pg) (replicate 4096 5), freelist := load64 (mem s) (unat pg)\<rparr>)"
    using kalloc_some [OF I(1,2)] .
  then show "bnd (kalloc s) (\<lambda>pa s. Done pa (s\<lparr>mem := memset (mem s) (unat pa) 0 (unat PGSIZE)\<rparr>)) = Done pg t"
    by (simp add: t memset_wr)
  have o: "only_in {pg} (mem s) (mem t)"
    unfolding t by (simp add: wr_wr_same) (rule only_in_wr [of pg], simp_all)
  have o2: "only_in {pg} (wr (mem s) (unat pg) (replicate 4096 5)) (mem t)"
    unfolding t by simp (rule only_in_wr [of pg], simp_all)
  have np: "set (ptpages (mem s) 2 pt) \<inter> {pg} = {}" using I(4) by auto
  show tp: "ptpages (mem t) 2 pt = ptpages (mem s) 2 pt" using tree_frame [OF o _ np I(3)] kp(3) by simp
  show "leaf (mem t) 2 pt va = leaf (mem s) 2 pt va" using leaf_frame [OF o _ np I(3)] kp(3) by simp
  show "pg \<notin> set (ptpages (mem t) 2 pt)" using np tp by auto
  show "rd (mem t) (unat pg) 4096 = replicate 4096 0" by (simp add: t rd_wr_same)
  have "kmem_inv t fs" using kalloc_inv [OF I(1)] o2 kp by (elim kmem_inv_frame) (auto simp: t)
  then show "vm_inv t 2 pt fs" using inv tp by (auto simp: vm_inv_def) (simp_all add: t)
qed

text \<open>Only the page-table code runs on a fault: everything but memory and the free list stays.\<close>

lemma vmfault_spec:
  assumes inv: "vm_inv s 2 pt (pg # fs)" and p: "curproc s = Some p" "p_pagetable (procs s p) = pt"
    and va: "va < p_sz (procs s p)" "va < MAXVA" and nv: "\<not> pvalid (leaf (mem s) 2 pt va)"
  shows "(\<exists>t gs. vmfault pt va s = Done pg t \<and> vm_inv t 2 pt gs \<and> rd (mem t) (unat pg) 4096 = replicate 4096 0
      \<and> (\<forall>v < MAXVA. leaf (mem t) 2 pt v = (if vpn v = vpn va then PA2PTE pg OR (PTE_W OR PTE_U OR PTE_R) OR PTE_V
          else leaf (mem s) 2 pt v)) \<and> t = s\<lparr>mem := mem t, freelist := freelist t\<rparr>)
    \<or> (\<exists>t. length fs < 2 \<and> vmfault pt va s = Done 0 t \<and> (\<forall>v < MAXVA. leaf (mem t) 2 pt v = leaf (mem s) 2 pt v)
        \<and> vm_inv t 2 pt [pg] \<and> t = s\<lparr>mem := mem t, freelist := freelist t\<rparr>)"
proof -
  let ?v = "PGROUNDDOWN va" and ?perm = "PTE_W OR PTE_U OR PTE_R"
  have vp: "vpn ?v = vpn va" by (simp add: unat_PGROUNDDOWN minus_mod_eq_div_mult)
  have vm: "?v < MAXVA" using va(2) PGROUNDDOWN_le le_less_trans by blast
  have nv': "\<not> pvalid (leaf (mem s) 2 pt ?v)" using nv leaf_page [OF vp] by simp
  obtain pte where pte: "walk pt ?v False s = Done pte s"
      "if pte = 0 then leaf (mem s) 2 pt ?v = 0 else load64 (mem s) (unat pte) = leaf (mem s) 2 pt ?v"
    using walk_read [OF vm_inv_pt_ok [OF inv] vm] by blast
  have im: "ismapped pt ?v s = Done False s"
    using pte nv' by (auto simp: ismapped_def pvalid_def split: if_splits)
  define t where "t = s\<lparr>freelist := load64 (mem s) (unat pg),
      mem := wr (wr (mem s) (unat pg) (replicate 4096 5)) (unat pg) (replicate 4096 0)\<rparr>"
  note Z = kalloc_zeroed [OF inv t_def]
  have top: "unat ?v + 1 * 4096 \<le> unat MAXVA"
  proof -
    have "unat ?v < unat MAXVA" using vm by (simp add: word_less_nat_alt)
    moreover obtain b where "unat ?v = 4096 * b"
      using PGROUNDDOWN_aligned [of va] unfolding mod_eq_0_iff_dvd dvd_def by blast
    ultimately show ?thesis by (simp add: MAXVA_val)
  qed
  have fr: "\<forall>v < MAXVA. vpn ?v \<le> vpn v \<and> vpn v < vpn ?v + 1 \<longrightarrow> \<not> pvalid (leaf (mem t) 2 pt v)"
  proof (intro allI impI)
    fix v assume "vpn ?v \<le> vpn v \<and> vpn v < vpn ?v + 1"
    then have "vpn v = vpn ?v" by simp
    then show "\<not> pvalid (leaf (mem t) 2 pt v)" using leaf_page Z(4) nv' by metis
  qed
  obtain r u gs k where u: "mappages pt ?v (of_nat (1 * 4096)) pg ?perm t = Done r u"
    "r = 0 \<and> k = 1 \<or> r = -1 \<and> k < 1 \<and> gs = [] \<and> length fs < 2 * Suc k"
    "mapped t u pt fs gs (\<lambda>v. if vpn ?v \<le> vpn v \<and> vpn v < vpn ?v + k
        then PA2PTE (pg + of_nat ((vpn v - vpn ?v) * 4096)) OR ?perm OR PTE_V else leaf (mem t) 2 pt v)"
    using mappages_spec [OF Z(3) zero_less_one PGROUNDDOWN_aligned top fr, of pg ?perm] by (elim exE conjE) (rule that)
  obtain new where new: "fs = new @ gs" "set (ptpages (mem u) 2 pt) = set (ptpages (mem t) 2 pt) \<union> set new"
      "only_in (set (ptpages (mem t) 2 pt) \<union> set new) (mem t) (mem u)" "vm_inv u 2 pt gs"
      "u = t\<lparr>mem := mem u, freelist := freelist u\<rparr>"
    using u(3) unfolding mapped_def by blast
  have lu: "leaf (mem u) 2 pt v = (if vpn ?v \<le> vpn v \<and> vpn v < vpn ?v + k
        then PA2PTE (pg + of_nat ((vpn v - vpn ?v) * 4096)) OR ?perm OR PTE_V else leaf (mem s) 2 pt v)" if "v < MAXVA" for v
    using u(3) that Z(4) by (simp add: mapped_def)
  have ps: "procs t = procs s" "curproc t = curproc s" by (simp_all add: t_def)
  have us: "u = s\<lparr>mem := mem u, freelist := freelist u\<rparr>"
    by (subst new(5)) (simp add: t_def)
  have run: "vmfault pt va s = (if r \<noteq> 0 then bnd (kfree pg u) (\<lambda>_ s. Done 0 s) else Done pg u)"
    using p va(1) im Z(2,11) u(1) by (simp add: vmfault_def not_le [symmetric] Let_def memset_wr t_def PGSIZE_def)
  have pgn: "pg \<notin> set (ptpages (mem t) 2 pt) \<union> set new" using Z(6,7) new(1) by auto
  from u(2) show ?thesis
  proof (elim disjE conjE)
    assume r: "r = 0" "k = 1"
    have "rd (mem u) (unat pg + 0) 4096 = rd (mem t) (unat pg + 0) 4096"
    proof (rule only_in_rd [OF new(3) Z(8)])
      show "\<forall>p \<in> set (ptpages (mem t) 2 pt) \<union> set new. aligned p"
        using Z(3) new(1) ptpages_aligned kpage_aligned by (auto simp: vm_inv_def kmem_inv_def ball_Un)
    qed (use pgn in auto)
    then have "rd (mem u) (unat pg) 4096 = replicate 4096 0" using Z(5) by simp
    moreover have "leaf (mem u) 2 pt v = (if vpn v = vpn va then PA2PTE pg OR ?perm OR PTE_V else leaf (mem s) 2 pt v)"
      if "v < MAXVA" for v
    proof (cases "vpn v = vpn va")
      case True
      then show ?thesis using lu [OF that] vp r(2) by simp
    next
      case False
      then have c: "(vpn ?v \<le> vpn v \<and> vpn v < vpn ?v + k) = False" using vp r(2) by simp
      show ?thesis using lu [OF that] False by (simp only: c if_False)
    qed
    ultimately show ?thesis using run r(1) new(4) us by auto
  next
    assume r: "r = -1" "k < 1" "gs = []" "length fs < 2 * Suc k"
    have k0: "k = 0" using r(2) by simp
    define w where "w = u\<lparr>mem := store64 (wr (mem u) (unat pg) (replicate 4096 1)) (unat pg) (freelist u), freelist := pg\<rparr>"
    have lk: "link u = link s" "held u = held s" by (subst us, simp)+
    have kf: "kfree pg u = Done () w"
      using Z(9) inv lk unfolding w_def by (intro kfree_eq) (auto simp: vm_inv_def)
    have np: "set (ptpages (mem u) 2 pt) \<inter> {pg} = {}" using pgn new(2) by auto
    have al: "aligned pt" using inv by (simp add: vm_inv_def)
    have o: "only_in {pg} (mem u) (mem w)" using only_in_kfree by (simp add: w_def)
    have tw: "ptpages (mem w) 2 pt = ptpages (mem u) 2 pt" using tree_frame [OF o _ np al] Z(8) by simp
    have lw: "leaf (mem w) 2 pt v = leaf (mem u) 2 pt v" for v using leaf_frame [OF o _ np al] Z(8) by simp
    have "kmem_inv u []" using new(4) r(3) by (simp add: vm_inv_def)
    then have "kmem_inv w [pg]" unfolding w_def using Z(9) lk by (intro kfree_inv) auto
    then have "vm_inv w 2 pt [pg]" using new(4) np tw by (auto simp: vm_inv_def) (simp add: w_def)
    moreover have "w = s\<lparr>mem := mem w, freelist := freelist w\<rparr>" unfolding w_def by (subst us) simp
    moreover have "leaf (mem w) 2 pt v = leaf (mem s) 2 pt v" if "v < MAXVA" for v
    proof -
      have c: "(vpn ?v \<le> vpn v \<and> vpn v < vpn ?v + k) = False" using k0 by auto
      show ?thesis using lu [OF that] lw [of v] by (simp only: c if_False)
    qed
    ultimately show ?thesis using run r k0 kf by simp
  qed
qed


section \<open>Pages a copy refuses\<close>

lemma ismapped_eq:
  assumes "pt_ok (mem s) pt" "va < MAXVA"
  shows "ismapped pt va s = Done (pvalid (leaf (mem s) 2 pt va)) s"
proof -
  obtain pte where "walk pt va False s = Done pte s" "if pte = 0 then leaf (mem s) 2 pt va = 0
     else load64 (mem s) (unat pte) = leaf (mem s) 2 pt va" using walk_read [OF assms] by blast
  then show ?thesis by (simp add: ismapped_def pvalid_def split: if_splits)
qed

lemma PGROUNDDOWN_idem [simp]: "PGROUNDDOWN (PGROUNDDOWN va) = PGROUNDDOWN va"
  by (simp add: PGROUNDDOWN_def and.assoc)

lemma vmfault_refuses:
  assumes "pt_ok (mem s) pt" "curproc s = Some p" "PGROUNDDOWN va < MAXVA"
    "p_sz (procs s p) \<le> PGROUNDDOWN va \<or> pvalid (leaf (mem s) 2 pt (PGROUNDDOWN va))"
  shows "vmfault pt (PGROUNDDOWN va) s = Done 0 s"
  using assms ismapped_eq [OF assms(1,3)] by (auto simp: vmfault_def Let_def not_le)

lemma user_page_bad:
  assumes "pt_ok (mem s) pt" "curproc s = Some p" "PGROUNDDOWN va < MAXVA" "\<not> user_leaf (leaf (mem s) 2 pt (PGROUNDDOWN va))"
    "p_sz (procs s p) \<le> PGROUNDDOWN va \<or> pvalid (leaf (mem s) 2 pt (PGROUNDDOWN va))"
  shows "user_page pt (PGROUNDDOWN va) s = Done 0 s"
  using vmfault_refuses [OF assms(1-3,5)] walkaddr_eq [OF assms(1), of "PGROUNDDOWN va"] assms(4) by (simp add: user_page_def)

lemma copyout_read_only:
  assumes "pt_ok (mem s) pt" "curproc s = Some p" "src \<noteq> []" "PGROUNDDOWN va < MAXVA"
    "user_leaf (leaf (mem s) 2 pt (PGROUNDDOWN va))" "leaf (mem s) 2 pt (PGROUNDDOWN va) AND PTE_W = 0"
  shows "copyout pt va src s = Done (-1) s"
proof -
  let ?e = "leaf (mem s) 2 pt (PGROUNDDOWN va)"
  have v: "pvalid ?e" using assms(5) by (simp add: user_leaf_def)
  obtain pte where w: "walk pt (PGROUNDDOWN va) False s = Done pte s" "if pte = 0 then ?e = 0 else load64 (mem s) (unat pte) = ?e"
    using walk_read [OF assms(1,4)] by blast
  have "pte \<noteq> 0" using w(2) v by (auto simp: pvalid_def)
  moreover have "user_page pt (PGROUNDDOWN va) s = Done (PTE2PA ?e) s"
    using walkaddr_eq [OF assms(1), of "PGROUNDDOWN va"] vmfault_refuses [OF assms(1,2,4)] assms(4,5) v by (auto simp: user_page_def)
  ultimately show ?thesis using assms(3,4,6) w by (subst copyout.simps) (simp add: Let_def)
qed

section \<open>An address space, for examples\<close>

definition free_all :: "uint64 list \<Rightarrow> kstate \<Rightarrow> kstate" where
  "free_all ps s = foldr (\<lambda>p s. case kfree p s of Done _ t \<Rightarrow> t | Stop _ t \<Rightarrow> t) ps s"

text \<open>An empty table at \<open>0x80030000\<close> and three free pages; process 0 runs with 8 pages of lazy memory.\<close>

definition vm0 :: kstate where
  "vm0 = free_all [0x80040000, 0x80041000, 0x80042000]
    (kboot0\<lparr>curproc := Some 0, procs := \<lambda>_. proc0\<lparr>p_sz := 0x8000, p_pagetable := 0x80030000\<rparr>\<rparr>)"

lemma free_all_vm:
  assumes "vm_inv s 2 pt fs" "distinct (ps @ fs)" "\<forall>p \<in> set ps. kpage (link s) p \<and> p \<notin> set (ptpages (mem s) 2 pt)"
  shows "vm_inv (free_all ps s) 2 pt (ps @ fs) \<and> (\<forall>va. leaf (mem (free_all ps s)) 2 pt va = leaf (mem s) 2 pt va)
    \<and> ptpages (mem (free_all ps s)) 2 pt = ptpages (mem s) 2 pt
    \<and> free_all ps s = s\<lparr>mem := mem (free_all ps s), freelist := freelist (free_all ps s)\<rparr>"
  using assms(2,3)
proof (induction ps)
  case Nil
  then show ?case using assms(1) by (simp add: free_all_def)
next
  case (Cons p ps)
  let ?s = "free_all ps s"
  have IH: "vm_inv ?s 2 pt (ps @ fs)" "leaf (mem ?s) 2 pt va = leaf (mem s) 2 pt va"
    "ptpages (mem ?s) 2 pt = ptpages (mem s) 2 pt" "?s = s\<lparr>mem := mem ?s, freelist := freelist ?s\<rparr>" for va
    using Cons by simp_all
  have lk: "link ?s = link s" by (subst IH(4)) simp
  define t where "t = ?s\<lparr>mem := store64 (wr (mem ?s) (unat p) (replicate 4096 1)) (unat p) (freelist ?s), freelist := p\<rparr>"
  have kp: "kpage (link ?s) p" "p \<notin> set (ptpages (mem ?s) 2 pt)" "p \<notin> set (ps @ fs)" using Cons.prems lk IH(3) by simp_all
  have I: "kmem_inv ?s (ps @ fs)" "KmemLock \<notin> set (held ?s)" "aligned pt" using IH(1) by (simp_all add: vm_inv_def)
  have e: "free_all (p # ps) s = t"
    using kfree_eq [OF kp(1) I(2)] by (simp add: free_all_def t_def)
  have o: "only_in {p} (mem ?s) (mem t)" using only_in_kfree by (simp add: t_def)
  have np: "set (ptpages (mem ?s) 2 pt) \<inter> {p} = {}" using kp(2) by auto
  have pa: "\<forall>q \<in> {p}. aligned q" using kp(1) by simp
  have tp: "ptpages (mem t) 2 pt = ptpages (mem ?s) 2 pt" using tree_frame [OF o pa np I(3)] by simp
  have lf: "leaf (mem t) 2 pt va = leaf (mem ?s) 2 pt va" for va by (rule leaf_frame [OF o pa np I(3)])
  have "kmem_inv t (p # ps @ fs)" unfolding t_def by (rule kfree_inv [OF I(1) kp(1,3)])
  then have "vm_inv t 2 pt (p # ps @ fs)" using IH(1) tp kp(2) by (auto simp: vm_inv_def) (simp add: t_def)
  moreover have "t = s\<lparr>mem := mem t, freelist := freelist t\<rparr>" unfolding t_def by (subst IH(4)) simp
  ultimately show ?case unfolding e using lf tp IH(2,3) by simp
qed

lemma vm0:
  "vm_inv vm0 2 0x80030000 [0x80040000, 0x80041000, 0x80042000]" "leaf (mem vm0) 2 0x80030000 va = 0"
  "ptpages (mem vm0) 2 0x80030000 = [0x80030000]"
  "curproc vm0 = Some 0" "p_sz (procs vm0 0) = 0x8000" "p_pagetable (procs vm0 0) = 0x80030000"
  "held vm0 = []" "p_killed (procs vm0 0) = False" "link vm0 = link0"
proof -
  let ?s = "kboot0\<lparr>curproc := Some 0, procs := \<lambda>_. proc0\<lparr>p_sz := 0x8000, p_pagetable := 0x80030000\<rparr>\<rparr>"
    and ?ps = "[0x80040000, 0x80041000, 0x80042000] :: uint64 list"
  have z: "ptpages (mem ?s) 2 0x80030000 = [0x80030000]" "leaf (mem ?s) 2 0x80030000 va = 0" for va
  proof -
    have "ent (\<lambda>_. 0) pt i = 0" for pt i by (simp add: ent_def load64_def rd_def map_replicate_const)
    then show "ptpages (mem ?s) 2 0x80030000 = [0x80030000]" "leaf (mem ?s) 2 0x80030000 va = 0"
      using zero_table by simp_all
  qed
  have "vm_inv ?s 2 0x80030000 []"
    using z by (simp add: vm_inv_def kmem_inv_def aligned_def link0_def)
  moreover have "\<forall>p \<in> set ?ps. kpage (link ?s) p \<and> p \<notin> set (ptpages (mem ?s) 2 0x80030000)"
    unfolding z by (simp add: kpage_def aligned_def link0_def PHYSTOP_val)
  ultimately have F: "vm_inv vm0 2 0x80030000 ?ps" "\<forall>va. leaf (mem vm0) 2 0x80030000 va = 0"
      "ptpages (mem vm0) 2 0x80030000 = [0x80030000]" "vm0 = ?s\<lparr>mem := mem vm0, freelist := freelist vm0\<rparr>"
    using free_all_vm [of ?s "0x80030000" "[]" ?ps] z unfolding vm0_def by simp_all
  show "vm_inv vm0 2 0x80030000 ?ps" "leaf (mem vm0) 2 0x80030000 va = 0" "ptpages (mem vm0) 2 0x80030000 = [0x80030000]"
    using F by simp_all
  show "curproc vm0 = Some 0" "p_sz (procs vm0 0) = 0x8000" "p_pagetable (procs vm0 0) = 0x80030000"
    "held vm0 = []" "p_killed (procs vm0 0) = False" "link vm0 = link0"
    by (subst F(4), simp add: proc0_def)+
qed

text \<open>With two more free pages, and two pages mapped at \<open>0x1000\<close>.\<close>

definition vm2 :: kstate where
  "vm2 = free_all [0x80043000, 0x80044000] vm0"

lemma vm2:
  "vm_inv vm2 2 0x80030000 [0x80043000, 0x80044000, 0x80040000, 0x80041000, 0x80042000]" "leaf (mem vm2) 2 0x80030000 va = 0"
  "ptpages (mem vm2) 2 0x80030000 = [0x80030000]" "vm2 = vm0\<lparr>mem := mem vm2, freelist := freelist vm2\<rparr>"
proof -
  let ?ps = "[0x80043000, 0x80044000] :: uint64 list"
  have "\<forall>p \<in> set ?ps. kpage (link vm0) p \<and> p \<notin> set (ptpages (mem vm0) 2 0x80030000)"
    unfolding vm0 by (simp add: kpage_def aligned_def link0_def PHYSTOP_val)
  then show "vm_inv vm2 2 0x80030000 [0x80043000, 0x80044000, 0x80040000, 0x80041000, 0x80042000]"
    "leaf (mem vm2) 2 0x80030000 va = 0" "ptpages (mem vm2) 2 0x80030000 = [0x80030000]"
    "vm2 = vm0\<lparr>mem := mem vm2, freelist := freelist vm2\<rparr>"
    using free_all_vm [OF vm0(1), of ?ps] vm0(2,3) unfolding vm2_def by simp_all
qed

lemma vm2_map:
  fixes perm :: uint64
  defines "pt \<equiv> 0x80030000" and "e \<equiv> \<lambda>k. PA2PTE (0x80050000 + of_nat (k * 4096)) OR perm OR PTE_V"
  shows "\<exists>s. mappages pt 0x1000 (of_nat (2 * 4096)) 0x80050000 perm vm2 = Done 0 s \<and> pt_ok (mem s) pt
    \<and> set (ptpages (mem s) 2 pt) \<subseteq> {pt, 0x80040000, 0x80041000, 0x80042000, 0x80043000, 0x80044000}
    \<and> (\<forall>x \<in> {0x1000..<0x2000}. uleaf (mem s) pt x = e 0) \<and> (\<forall>x \<in> {0x2000..<0x3000}. uleaf (mem s) pt x = e 1)
    \<and> curproc s = Some 0"
proof -
  let ?fs = "[0x80043000, 0x80044000, 0x80040000, 0x80041000, 0x80042000] :: uint64 list"
  obtain r s gs k where m: "mappages pt 0x1000 (of_nat (2 * 4096)) 0x80050000 perm vm2 = Done r s"
    "r = 0 \<and> k = 2 \<or> r = -1 \<and> k < 2 \<and> gs = [] \<and> length ?fs < 2 * Suc k"
    "mapped vm2 s pt ?fs gs (\<lambda>v. if vpn 0x1000 \<le> vpn v \<and> vpn v < vpn 0x1000 + k then e (vpn v - vpn 0x1000) else leaf (mem vm2) 2 pt v)"
  proof -
    have "\<exists>r s gs k. mappages pt 0x1000 (of_nat (2 * 4096)) 0x80050000 perm vm2 = Done r s
      \<and> (r = 0 \<and> k = 2 \<or> r = -1 \<and> k < 2 \<and> gs = [] \<and> length ?fs < 2 * Suc k)
      \<and> mapped vm2 s pt ?fs gs (\<lambda>v. if vpn 0x1000 \<le> vpn v \<and> vpn v < vpn 0x1000 + k then e (vpn v - vpn 0x1000) else leaf (mem vm2) 2 pt v)"
      unfolding pt_def e_def by (rule mappages_spec [OF vm2(1)]) (simp_all add: vm2(2) MAXVA_val)
    then show thesis using that by blast
  qed
  then have rk: "r = 0" "k = 2" by auto
  have lf: "uleaf (mem s) pt x = e (x div 4096 - 1)" if "x \<in> {0x1000..<0x3000}" for x
  proof -
    have x: "x < unat MAXVA" "unat (of_nat x :: uint64) = x" using that by (auto simp: MAXVA_val intro!: unat_of_nat64)
    then have "of_nat x < MAXVA" by (simp add: word_less_nat_alt)
    moreover have "1 \<le> x div 4096" "x div 4096 < 3" using that by auto
    ultimately show ?thesis using m(3) x rk unfolding mapped_def uleaf_def by auto
  qed
  obtain new where new: "?fs = new @ gs" "set (ptpages (mem s) 2 pt) = set (ptpages (mem vm2) 2 pt) \<union> set new"
    using m(3) unfolding mapped_def by blast
  have sub: "set new \<subseteq> set ?fs" unfolding new(1) by simp
  have sv: "s = vm2\<lparr>mem := mem s, freelist := freelist s\<rparr>" "vm_inv s 2 pt gs" using m(3) unfolding mapped_def by blast+
  have "curproc vm2 = Some 0" by (subst vm2(4)) (simp add: vm0(4))
  then have "curproc s = Some 0" by (subst sv(1)) simp
  moreover have "set (ptpages (mem s) 2 pt) \<subseteq> {pt, 0x80040000, 0x80041000, 0x80042000, 0x80043000, 0x80044000}"
    unfolding new(2) using sub vm2(3) by (auto simp: pt_def)
  moreover have "uleaf (mem s) pt x = e 0" if "x \<in> {0x1000..<0x2000}" for x
  proof -
    have "x div 4096 = 1" using that by auto
    then show ?thesis using lf [of x] that by simp
  qed
  moreover have "uleaf (mem s) pt x = e 1" if "x \<in> {0x2000..<0x3000}" for x
  proof -
    have "x div 4096 = 2" using that by auto
    then show ?thesis using lf [of x] that by simp
  qed
  ultimately show ?thesis using m(1) rk vm_inv_pt_ok [OF sv(2)] by blast
qed

section \<open>Properties\<close>

text \<open>C9: \<open>mappages\<close> on a range of unmapped pages either maps each page of the range to the corresponding
  physical page with the given permissions and returns 0, or runs out of memory for page tables and returns
  \<open>-1\<close> with a prefix mapped.  No other translation changes, the tables take pages only from the free list,
  and tree and free list stay well formed and disjoint.\<close>

theorem mappages_maps_range:
  assumes "vm_inv s 2 pt fs" "0 < n" "unat va mod 4096 = 0" "unat va + n * 4096 \<le> unat MAXVA"
    "\<forall>v < MAXVA. vpn va \<le> vpn v \<and> vpn v < vpn va + n \<longrightarrow> \<not> pvalid (leaf (mem s) 2 pt v)"
  shows "\<exists>r t gs k. mappages pt va (of_nat (n * 4096)) pa perm s = Done r t
    \<and> (r = 0 \<and> k = n \<or> r = -1 \<and> k < n \<and> gs = [] \<and> (k = 0 \<longrightarrow> length fs < 2))
    \<and> mapped s t pt fs gs (\<lambda>v. if vpn va \<le> vpn v \<and> vpn v < vpn va + k
        then PA2PTE (pa + of_nat ((vpn v - vpn va) * 4096)) OR perm OR PTE_V else leaf (mem s) 2 pt v)"
  using mappages_spec [OF assms, of pa perm] by (elim exE conjE, intro exI conjI) (assumption, auto)

theorem mappages_maps_range_witness:
  "\<exists>t gs. mappages 0x80030000 0x1000 (of_nat (1 * 4096)) 0x80050000 PTE_R vm0 = Done 0 t \<and> vm_inv t 2 0x80030000 gs
    \<and> leaf (mem t) 2 0x80030000 0x1000 = PA2PTE 0x80050000 OR PTE_R OR PTE_V \<and> leaf (mem t) 2 0x80030000 0x3000 = 0"
proof -
  have "\<exists>r t gs k. mappages 0x80030000 0x1000 (of_nat (1 * 4096)) 0x80050000 PTE_R vm0 = Done r t
    \<and> (r = 0 \<and> k = 1 \<or> r = -1 \<and> k < 1 \<and> gs = [] \<and> (k = 0 \<longrightarrow> length [0x80040000, 0x80041000, 0x80042000 :: uint64] < 2))
    \<and> mapped vm0 t 0x80030000 [0x80040000, 0x80041000, 0x80042000] gs (\<lambda>v. if vpn 0x1000 \<le> vpn v \<and> vpn v < vpn 0x1000 + k
        then PA2PTE (0x80050000 + of_nat ((vpn v - vpn 0x1000) * 4096)) OR PTE_R OR PTE_V else leaf (mem vm0) 2 0x80030000 v)"
    by (rule mappages_maps_range [OF vm0(1)]) (simp_all add: vm0(2) MAXVA_val)
  then obtain t gs where "mappages 0x80030000 0x1000 (of_nat (1 * 4096)) 0x80050000 PTE_R vm0 = Done 0 t"
    "mapped vm0 t 0x80030000 [0x80040000, 0x80041000, 0x80042000] gs (\<lambda>v. if vpn 0x1000 \<le> vpn v \<and> vpn v < vpn 0x1000 + 1
        then PA2PTE (0x80050000 + of_nat ((vpn v - vpn 0x1000) * 4096)) OR PTE_R OR PTE_V else leaf (mem vm0) 2 0x80030000 v)"
    by auto
  then show ?thesis by (auto simp: mapped_def vm0(2) MAXVA_val)
qed

text \<open>C10: A fault on lazily allocated memory: for an unmapped address below the size of the process,
  \<open>vmfault\<close> takes one free page, returns it filled with zeros and mapped readable and writable for the
  user at the faulting page, and changes no other translation.  It fails only when fewer than three
  free pages are left, and then gives the page back and leaves every translation as it was.\<close>

theorem vmfault_maps_zeroed_page:
  assumes "vm_inv s 2 pt (pg # fs)" "curproc s = Some p" "p_pagetable (procs s p) = pt"
    "va < p_sz (procs s p)" "va < MAXVA" "\<not> pvalid (leaf (mem s) 2 pt va)"
  shows "(\<exists>t gs. vmfault pt va s = Done pg t \<and> vm_inv t 2 pt gs \<and> rd (mem t) (unat pg) 4096 = replicate 4096 0
      \<and> (\<forall>v < MAXVA. leaf (mem t) 2 pt v = (if vpn v = vpn va then PA2PTE pg OR (PTE_W OR PTE_U OR PTE_R) OR PTE_V
          else leaf (mem s) 2 pt v)) \<and> t = s\<lparr>mem := mem t, freelist := freelist t\<rparr>)
    \<or> (\<exists>t. length fs < 2 \<and> vmfault pt va s = Done 0 t \<and> (\<forall>v < MAXVA. leaf (mem t) 2 pt v = leaf (mem s) 2 pt v)
        \<and> vm_inv t 2 pt [pg] \<and> t = s\<lparr>mem := mem t, freelist := freelist t\<rparr>)"
  using vmfault_spec [OF assms] .

theorem vmfault_maps_zeroed_page_witness:
  "\<exists>t. vmfault 0x80030000 0x1234 vm0 = Done 0x80040000 t \<and> rd (mem t) (unat (0x80040000 :: uint64)) 4096 = replicate 4096 0
    \<and> leaf (mem t) 2 0x80030000 0x1000 = PA2PTE 0x80040000 OR (PTE_W OR PTE_U OR PTE_R) OR PTE_V"
  using vmfault_maps_zeroed_page [OF vm0(1,4,6), of "0x1234"] vm0(2,5) by (auto simp: MAXVA_val)

text \<open>C8: What the kernel copies out to user memory it reads back: for a range mapped writable for the user, with
  different physical pages behind different virtual pages and none of them a page-table page, \<open>copyout\<close>
  succeeds and \<open>copyin\<close> of the same range then returns exactly the bytes written, whatever the alignment
  and however many pages the range crosses.  \<open>copyout\<close> changes nothing but memory, and of memory only the
  bytes behind the range.\<close>

theorem copyout_copyin_roundtrip:
  assumes "pt_ok (mem s) pt" "umapped (mem s) pt True a (length src)"
    "\<forall>x \<in> {a..<a + length src}. PTE2PA (uleaf (mem s) pt x) \<notin> set (ptpages (mem s) 2 pt)"
    "\<forall>x \<in> {a..<a + length src}. \<forall>y \<in> {a..<a + length src}. PTE2PA (uleaf (mem s) pt x) = PTE2PA (uleaf (mem s) pt y)
       \<longrightarrow> x div 4096 = y div 4096"
  shows "\<exists>t. copyout pt (of_nat a) src s = Done 0 t \<and> copyin pt (of_nat a) (length src) [] t = Done (0, src) t
    \<and> t = s\<lparr>mem := mem t\<rparr> \<and> (\<forall>x. x \<notin> uaddr (mem s) pt ` {a..<a + length src} \<longrightarrow> mem t x = mem s x)"
proof -
  let ?A = "map (uaddr (mem s) pt) [a..<a + length src]"
  define t where "t = s\<lparr>mem := wr_at (mem s) ?A src\<rparr>"
  have "mem t = wr_at (mem s) ?A src" by (simp add: t_def)
  note F = user_write_frame [OF _ _ this]
  have tp: "ptpages (mem t) 2 pt = ptpages (mem s) 2 pt" and ul: "uleaf (mem t) pt = uleaf (mem s) pt"
    and ua: "uaddr (mem t) pt = uaddr (mem s) pt"
    using F assms(1,3) by (simp_all add: pt_ok_def)
  have "inj_on (uaddr (mem s) pt) {a..<a + length src}"
  proof (rule inj_onI)
    fix x y assume x: "x \<in> {a..<a + length src}" and y: "y \<in> {a..<a + length src}" and e: "uaddr (mem s) pt x = uaddr (mem s) pt y"
    have "in_page (PTE2PA (uleaf (mem s) pt z)) (uaddr (mem s) pt z)" for z by (simp add: in_page_def uaddr_def)
    then have p: "PTE2PA (uleaf (mem s) pt x) = PTE2PA (uleaf (mem s) pt y)" using e in_page_unique aligned_PTE2PA by metis
    then have "x div 4096 = y div 4096" using assms(4) x y by blast
    moreover have "x mod 4096 = y mod 4096" using e p unfolding uaddr_def by simp
    ultimately show "x = y" by (rule div_mod_eqI)
  qed
  then have d: "distinct ?A" by (simp add: distinct_map)
  have "pt_ok (mem t) pt" using assms(1) by (simp add: pt_ok_def tp)
  moreover have "umapped (mem t) pt False a (length src)" using assms(2) by (simp add: umapped_def ul)
  ultimately have "copyin pt (of_nat a) (length src) [] t = Done (0, map (mem t) ?A) t"
    using copyin_spec [of t pt a "length src" "[]"] by (simp add: ua comp_def)
  moreover have "map (mem t) ?A = src" unfolding t_def using wr_at_get [OF d, of src "mem s"] by simp
  moreover have "copyout pt (of_nat a) src s = Done 0 t" unfolding t_def by (rule copyout_spec [OF assms(1-3)])
  moreover have "mem t x = mem s x" if "x \<notin> uaddr (mem s) pt ` {a..<a + length src}" for x
    using that by (simp add: t_def wr_at_other)
  moreover have "t = s\<lparr>mem := mem t\<rparr>" by (simp add: t_def)
  ultimately show ?thesis by (intro exI [of _ t] conjI) simp_all
qed

text \<open>Two bytes across the boundary of two pages.\<close>

theorem copyout_copyin_roundtrip_witness:
  "\<exists>s t. mappages 0x80030000 0x1000 (of_nat (2 * 4096)) 0x80050000 (PTE_R OR PTE_W OR PTE_U) vm2 = Done 0 s
    \<and> copyout 0x80030000 (of_nat 0x1fff) [1, 2] s = Done 0 t \<and> copyin 0x80030000 (of_nat 0x1fff) 2 [] t = Done (0, [1, 2]) t
    \<and> mem t 0x80050ffe = mem s 0x80050ffe \<and> mem t 0x80051001 = mem s 0x80051001"
proof -
  let ?pt = "0x80030000 :: uint64" and ?perm = "PTE_R OR PTE_W OR PTE_U"
  let ?e = "\<lambda>k. PA2PTE (0x80050000 + of_nat (k * 4096)) OR ?perm OR PTE_V"
  obtain s where s: "mappages ?pt 0x1000 (of_nat (2 * 4096)) 0x80050000 ?perm vm2 = Done 0 s" "pt_ok (mem s) ?pt"
    "set (ptpages (mem s) 2 ?pt) \<subseteq> {?pt, 0x80040000, 0x80041000, 0x80042000, 0x80043000, 0x80044000}"
    "\<forall>x \<in> {0x1000..<0x2000}. uleaf (mem s) ?pt x = ?e 0" "\<forall>x \<in> {0x2000..<0x3000}. uleaf (mem s) ?pt x = ?e 1"
    using vm2_map [of ?perm] by blast
  have r: "{0x1fff..<0x1fff + length [1, 2 :: byte]} = {0x1fff, 0x2000}" by auto
  have l: "uleaf (mem s) ?pt 0x1fff = ?e 0" "uleaf (mem s) ?pt 0x2000 = ?e 1" using s(4,5) by auto
  have e: "PTE2PA (?e 0) = 0x80050000" "PTE2PA (?e 1) = 0x80051000" "user_leaf (?e 0)" "user_leaf (?e 1)"
    "?e 0 AND PTE_W \<noteq> 0" "?e 1 AND PTE_W \<noteq> 0"
    by (simp_all add: user_leaf_def pvalid_def PTE2PA_def PA2PTE_def PTE_R_def PTE_W_def PTE_U_def PTE_V_def)
  have np: "0x80050000 \<notin> set (ptpages (mem s) 2 ?pt)" "0x80051000 \<notin> set (ptpages (mem s) 2 ?pt)" using s(3) by auto
  have a: "uaddr (mem s) ?pt 0x1fff = 0x80050fff" "uaddr (mem s) ?pt 0x2000 = 0x80051000" by (simp_all only: uaddr_def l e) simp_all
  have "\<exists>t. copyout ?pt (of_nat 0x1fff) [1, 2] s = Done 0 t \<and> copyin ?pt (of_nat 0x1fff) (length [1, 2 :: byte]) [] t = Done (0, [1, 2]) t
    \<and> t = s\<lparr>mem := mem t\<rparr> \<and> (\<forall>x. x \<notin> uaddr (mem s) ?pt ` {0x1fff..<0x1fff + length [1, 2 :: byte]} \<longrightarrow> mem t x = mem s x)"
  proof (rule copyout_copyin_roundtrip [OF s(2)])
    show "umapped (mem s) ?pt True 0x1fff (length [1, 2 :: byte])" unfolding umapped_def r using l e by (simp add: MAXVA_val)
    show "\<forall>x \<in> {0x1fff..<0x1fff + length [1, 2 :: byte]}. PTE2PA (uleaf (mem s) ?pt x) \<notin> set (ptpages (mem s) 2 ?pt)"
      unfolding r using l e np by simp
    show "\<forall>x \<in> {0x1fff..<0x1fff + length [1, 2 :: byte]}. \<forall>y \<in> {0x1fff..<0x1fff + length [1, 2 :: byte]}.
      PTE2PA (uleaf (mem s) ?pt x) = PTE2PA (uleaf (mem s) ?pt y) \<longrightarrow> x div 4096 = y div 4096"
      unfolding r using l e by simp
  qed
  then show ?thesis unfolding r using s(1) a by (auto simp: numeral_2_eq_2)
qed

text \<open>C11: The kernel does not follow bad user pointers.  For a non-empty copy whose first page is \<open>va0\<close>: \<open>copyout\<close>
  returns \<open>-1\<close> when \<open>va0\<close> is at or above \<open>MAXVA\<close>, and so does \<open>copyin\<close> when \<open>va0\<close> is also at or above the size of
  the process.  Below \<open>MAXVA\<close> both return \<open>-1\<close> when the page is not mapped for the user and either lies at or above
  the size of the process or has a valid entry without \<open>PTE_U\<close>, as the guard page below the user stack has; and
  \<open>copyout\<close> returns \<open>-1\<close> on a user page without \<open>PTE_W\<close>, such as program text.  None of them changes the kernel state.\<close>

theorem copy_bad_address_fails:
  fixes va pt :: uint64
  defines "va0 \<equiv> PGROUNDDOWN va"
  assumes "pt_ok (mem s) pt" "curproc s = Some p" "src \<noteq> []" "0 < n"
  shows "(MAXVA \<le> va0 \<longrightarrow> copyout pt va src s = Done (-1) s)
    \<and> (MAXVA \<le> va0 \<and> p_sz (procs s p) \<le> va0 \<longrightarrow> copyin pt va n [] s = Done (-1, []) s)
    \<and> (va0 < MAXVA \<and> \<not> user_leaf (leaf (mem s) 2 pt va0) \<and> (p_sz (procs s p) \<le> va0 \<or> pvalid (leaf (mem s) 2 pt va0))
        \<longrightarrow> copyout pt va src s = Done (-1) s \<and> copyin pt va n [] s = Done (-1, []) s)
    \<and> (va0 < MAXVA \<and> user_leaf (leaf (mem s) 2 pt va0) \<and> leaf (mem s) 2 pt va0 AND PTE_W = 0
        \<longrightarrow> copyout pt va src s = Done (-1) s)"
proof -
  have out: "copyout pt va src s = Done (-1) s" if "user_page pt va0 s = Done 0 s"
    using that assms(4) by (subst copyout.simps) (simp add: Let_def va0_def)
  have inn: "copyin pt va n [] s = Done (-1, []) s" if "user_page pt va0 s = Done 0 s"
    using that assms(5) by (subst copyin.simps) (simp add: Let_def va0_def)
  have "MAXVA \<le> va0 \<longrightarrow> copyout pt va src s = Done (-1) s"
    using assms(4) by (subst copyout.simps) (simp add: Let_def va0_def)
  moreover have "copyin pt va n [] s = Done (-1, []) s" if "MAXVA \<le> va0" "p_sz (procs s p) \<le> va0"
    using that assms(3) walkaddr_eq [OF assms(2), of va0] by (intro inn) (auto simp: user_page_def vmfault_def)
  moreover have "user_page pt va0 s = Done 0 s" if "va0 < MAXVA" "\<not> user_leaf (leaf (mem s) 2 pt va0)"
    "p_sz (procs s p) \<le> va0 \<or> pvalid (leaf (mem s) 2 pt va0)"
    using that user_page_bad [OF assms(2,3), of va] by (simp add: va0_def)
  moreover have "copyout pt va src s = Done (-1) s" if "va0 < MAXVA" "user_leaf (leaf (mem s) 2 pt va0)" "leaf (mem s) 2 pt va0 AND PTE_W = 0"
    using copyout_read_only [OF assms(2-4)] that by (simp add: va0_def)
  ultimately show ?thesis using out inn by blast
qed

text \<open>A read-only page, a page without \<open>PTE_U\<close> below the size of the process, and unmapped addresses above it.\<close>

theorem copy_bad_address_fails_witness:
  "(\<exists>s. mappages 0x80030000 0x1000 (of_nat (2 * 4096)) 0x80050000 (PTE_R OR PTE_U) vm2 = Done 0 s
      \<and> copyout 0x80030000 0x1004 [1] s = Done (-1) s)
    \<and> (\<exists>s. mappages 0x80030000 0x1000 (of_nat (2 * 4096)) 0x80050000 (PTE_R OR PTE_W) vm2 = Done 0 s
      \<and> copyout 0x80030000 0x1004 [1] s = Done (-1) s \<and> copyin 0x80030000 0x1004 4 [] s = Done (-1, []) s)
    \<and> copyout 0x80030000 0xf000 [1] vm0 = Done (-1) vm0 \<and> copyin 0x80030000 0xffffffffffffffff 4 [] vm0 = Done (-1, []) vm0"
proof -
  let ?pt = "0x80030000 :: uint64"
  have d: "PGROUNDDOWN 0xf000 = 0xf000" "PGROUNDDOWN 0xffffffffffffffff = 0xfffffffffffff000" "PGROUNDDOWN 0x1004 = 0x1000"
    by (simp_all add: PGROUNDDOWN_def PGSIZE_def)
  obtain s where s: "mappages ?pt 0x1000 (of_nat (2 * 4096)) 0x80050000 (PTE_R OR PTE_U) vm2 = Done 0 s" "pt_ok (mem s) ?pt"
    "\<forall>x \<in> {0x1000..<0x2000}. uleaf (mem s) ?pt x = PA2PTE (0x80050000 + of_nat (0 * 4096)) OR (PTE_R OR PTE_U) OR PTE_V"
    "curproc s = Some 0"
    using vm2_map [of "PTE_R OR PTE_U"] by blast
  obtain t where t: "mappages ?pt 0x1000 (of_nat (2 * 4096)) 0x80050000 (PTE_R OR PTE_W) vm2 = Done 0 t" "pt_ok (mem t) ?pt"
    "\<forall>x \<in> {0x1000..<0x2000}. uleaf (mem t) ?pt x = PA2PTE (0x80050000 + of_nat (0 * 4096)) OR (PTE_R OR PTE_W) OR PTE_V"
    "curproc t = Some 0"
    using vm2_map [of "PTE_R OR PTE_W"] by blast
  have "copyout ?pt 0x1004 [1] s = Done (-1) s"
    using copy_bad_address_fails [OF s(2,4), of "[1]" 1 "0x1004"] bspec [OF s(3), of "0x1000"]
    by (simp add: d uleaf_def user_leaf_def pvalid_def PA2PTE_def PTE_R_def PTE_W_def PTE_U_def PTE_V_def MAXVA_val word_less_nat_alt)
  moreover have "copyout ?pt 0x1004 [1] t = Done (-1) t \<and> copyin ?pt 0x1004 4 [] t = Done (-1, []) t"
    using copy_bad_address_fails [OF t(2,4), of "[1]" 4 "0x1004"] bspec [OF t(3), of "0x1000"]
    by (simp add: d uleaf_def user_leaf_def pvalid_def PA2PTE_def PTE_R_def PTE_W_def PTE_U_def PTE_V_def MAXVA_val word_less_nat_alt)
  moreover have "copyout ?pt 0xf000 [1] vm0 = Done (-1) vm0"
    using copy_bad_address_fails [OF vm_inv_pt_ok [OF vm0(1)] vm0(4), of "[1]" 4 "0xf000"] vm0(2,5)
    by (simp add: d user_leaf_def MAXVA_val word_less_nat_alt)
  moreover have "copyin ?pt 0xffffffffffffffff 4 [] vm0 = Done (-1, []) vm0"
    using copy_bad_address_fails [OF vm_inv_pt_ok [OF vm0(1)] vm0(4), of "[1]" 4 "0xffffffffffffffff"] vm0(2,5)
    by (simp add: d MAXVA_val word_le_nat_alt)
  ultimately show ?thesis using s(1) t(1) by blast
qed

end
