(* ===== verification/Sched.thy ===== *)
theory Sched
  imports Vm
begin

text \<open>
  Giving up the processor and getting it back (the second half of \<open>kernel/proc.c\<close>): \<open>sched\<close>, \<open>yield\<close>,
  \<open>sleep\<close>, \<open>wakeup\<close>, the scheduler loop body, killing, and process ids.  A process that calls
  \<open>swtch\<close> leaves the function with the outcome \<open>Asleep\<close>; what it does when the scheduler switches back
  to it is the separate definition with suffix \<open>_resume\<close>.
\<close>

definition allocpid :: "kstate \<Rightarrow> int kres" where
  "allocpid s =
    bnd (kacquire PidLock s) (\<lambda>_ s.
    let pid = nextpid s;
        s = s\<lparr>nextpid := nextpid s + 1\<rparr> in
    bnd (krelease PidLock s) (\<lambda>_ s. Done pid s))"

definition sched :: "kstate \<Rightarrow> 'a kres" where
  "sched s =
    bnd (myproc s) (\<lambda>p s.
    if \<not> kholding (ProcLock p) s then panic ''sched p->lock'' s
    else if length (held s) \<noteq> 1 then panic ''sched locks'' s
    else if p_state (procs s p) = RUNNING then panic ''sched RUNNING'' s
    else if held s = [] \<and> sie s then panic ''sched interruptible'' s
    else Stop Asleep s)"

definition yield :: "kstate \<Rightarrow> unit kres" where
  "yield s =
    bnd (myproc s) (\<lambda>p s.
    bnd (kacquire (ProcLock p) s) (\<lambda>_ s.
    sched (upd_proc p (\<lambda>q. q\<lparr>p_state := RUNNABLE\<rparr>) s)))"

definition yield_resume :: "kstate \<Rightarrow> unit kres" where
  "yield_resume s = bnd (myproc s) (\<lambda>p s. krelease (ProcLock p) s)"

definition sleep :: "chan \<Rightarrow> lockid \<Rightarrow> kstate \<Rightarrow> 'a kres" where
  "sleep chan lk s =
    bnd (myproc s) (\<lambda>p s.
    bnd (kacquire (ProcLock p) s) (\<lambda>_ s.
    bnd (krelease lk s) (\<lambda>_ s.
    sched (upd_proc p (\<lambda>q. q\<lparr>p_chan := chan, p_state := SLEEPING\<rparr>) s))))"

definition sleep_resume :: "lockid \<Rightarrow> kstate \<Rightarrow> unit kres" where
  "sleep_resume lk s =
    bnd (myproc s) (\<lambda>p s.
    let s = upd_proc p (\<lambda>q. q\<lparr>p_chan := ChNull\<rparr>) s in
    bnd (krelease (ProcLock p) s) (\<lambda>_ s. kacquire lk s))"

definition wakeup_one :: "chan \<Rightarrow> nat \<Rightarrow> kstate \<Rightarrow> unit kres" where
  "wakeup_one chan p s =
    (if curproc s \<noteq> Some p
     then bnd (kacquire (ProcLock p) s) (\<lambda>_ s.
       let s = (if p_state (procs s p) = SLEEPING \<and> p_chan (procs s p) = chan
                then upd_proc p (\<lambda>q. q\<lparr>p_state := RUNNABLE\<rparr>) s else s) in
       krelease (ProcLock p) s)
     else Done () s)"

definition wakeup :: "chan \<Rightarrow> kstate \<Rightarrow> unit kres" where
  "wakeup chan s = foreach (wakeup_one chan) [0..<NPROC] s"

fun kkill_loop :: "int \<Rightarrow> nat list \<Rightarrow> kstate \<Rightarrow> int kres" where
  "kkill_loop pid [] s = Done (-1) s"
| "kkill_loop pid (p # ps) s =
    bnd (kacquire (ProcLock p) s) (\<lambda>_ s.
    if p_pid (procs s p) = pid
    then let s = upd_proc p (\<lambda>q. q\<lparr>p_killed := True\<rparr>) s;
             s = (if p_state (procs s p) = SLEEPING
                  then upd_proc p (\<lambda>q. q\<lparr>p_state := RUNNABLE\<rparr>) s else s) in
      bnd (krelease (ProcLock p) s) (\<lambda>_ s. Done 0 s)
    else bnd (krelease (ProcLock p) s) (\<lambda>_ s. kkill_loop pid ps s))"

definition kkill :: "int \<Rightarrow> kstate \<Rightarrow> int kres" where
  "kkill pid s = kkill_loop pid [0..<NPROC] s"

definition setkilled :: "nat \<Rightarrow> kstate \<Rightarrow> unit kres" where
  "setkilled p s =
    bnd (kacquire (ProcLock p) s) (\<lambda>_ s.
    krelease (ProcLock p) (upd_proc p (\<lambda>q. q\<lparr>p_killed := True\<rparr>) s))"

definition killed :: "nat \<Rightarrow> kstate \<Rightarrow> bool kres" where
  "killed p s =
    bnd (kacquire (ProcLock p) s) (\<lambda>_ s.
    let k = p_killed (procs s p) in
    bnd (krelease (ProcLock p) s) (\<lambda>_ s. Done k s))"

text \<open>
  The body of the scheduler's endless loop: one visit to every process.  \<open>run p\<close> stands for what happens
  between the switch to process \<open>p\<close> and its switch back; the result says whether a process was found
  (otherwise the processor waits for an interrupt).
\<close>

definition scheduler_visit :: "(nat \<Rightarrow> kstate \<Rightarrow> kstate) \<Rightarrow> nat \<Rightarrow> bool \<Rightarrow> kstate \<Rightarrow> bool kres" where
  "scheduler_visit run p found s =
    bnd (kacquire (ProcLock p) s) (\<lambda>_ s.
    if p_state (procs s p) = RUNNABLE
    then let s = upd_proc p (\<lambda>q. q\<lparr>p_state := RUNNING\<rparr>) s;
             s = run p (s\<lparr>curproc := Some p\<rparr>);
             s = s\<lparr>curproc := None\<rparr> in
      bnd (krelease (ProcLock p) s) (\<lambda>_ s. Done True s)
    else bnd (krelease (ProcLock p) s) (\<lambda>_ s. Done found s))"

fun scheduler_scan :: "(nat \<Rightarrow> kstate \<Rightarrow> kstate) \<Rightarrow> nat list \<Rightarrow> bool \<Rightarrow> kstate \<Rightarrow> bool kres" where
  "scheduler_scan run [] found s = Done found s"
| "scheduler_scan run (p # ps) found s =
    bnd (scheduler_visit run p found s) (\<lambda>found s. scheduler_scan run ps found s)"

definition scheduler :: "(nat \<Rightarrow> kstate \<Rightarrow> kstate) \<Rightarrow> kstate \<Rightarrow> bool kres" where
  "scheduler run s = scheduler_scan run [0..<NPROC] False (s\<lparr>curproc := None\<rparr>)"

section \<open>Exact effects\<close>

definition no_proclock :: "kstate \<Rightarrow> bool" where
  "no_proclock s \<longleftrightarrow> (\<forall>p. ProcLock p \<notin> set (held s))"

definition woken :: "chan \<Rightarrow> kstate \<Rightarrow> nat set \<Rightarrow> kstate" where
  "woken c s P = s\<lparr>procs := \<lambda>p. if p \<in> P \<and> curproc s \<noteq> Some p
      \<and> p_state (procs s p) = SLEEPING \<and> p_chan (procs s p) = c
    then (procs s p)\<lparr>p_state := RUNNABLE\<rparr> else procs s p\<rparr>"

lemma woken_simps [simp]:
  "held (woken c s P) = held s" "curproc (woken c s P) = curproc s" "mem (woken c s P) = mem s"
  "bufs (woken c s P) = bufs s" "lg (woken c s P) = lg s" "dsk (woken c s P) = dsk s"
  "dwrites (woken c s P) = dwrites s" "link (woken c s P) = link s" "freelist (woken c s P) = freelist s"
  "itable (woken c s P) = itable s" "ftable (woken c s P) = ftable s" "pipes (woken c s P) = pipes s"
  "sb (woken c s P) = sb s" "ticks (woken c s P) = ticks s" "console (woken c s P) = console s"
  "p_pid (procs (woken c s P) p) = p_pid (procs s p)"
  "p_pagetable (procs (woken c s P) p) = p_pagetable (procs s p)"
  "p_sz (procs (woken c s P) p) = p_sz (procs s p)"
  by (simp_all add: woken_def)

lemma woken_upd_held: "woken c (s\<lparr>held := h\<rparr>) P = (woken c s P)\<lparr>held := h\<rparr>"
  by (simp add: woken_def cong: if_cong)

lemma woken_empty [simp]: "woken c s {} = s"
  by (simp add: woken_def)

lemma wakeup_one_eq:
  assumes "no_proclock s"
  shows "wakeup_one c p s = Done () (woken c s {p})"
  using assms unfolding wakeup_one_def no_proclock_def
  by (auto simp: Let_def upd_proc_def woken_def fun_eq_iff intro!: arg_cong [where f = "\<lambda>f. s\<lparr>procs := f\<rparr>"])

lemma woken_woken: "woken c (woken c s P) Q = woken c s (P \<union> Q)"
  by (auto simp: woken_def fun_eq_iff intro!: arg_cong [where f = "\<lambda>f. s\<lparr>procs := f\<rparr>"])

lemma wakeup_eq: "no_proclock s \<Longrightarrow> wakeup c s = Done () (woken c s {0..<NPROC})"
proof -
  have "no_proclock s \<Longrightarrow> foreach (wakeup_one c) ps s = Done () (woken c s (set ps))" for ps
  proof (induction ps arbitrary: s)
    case (Cons p ps)
    then have "no_proclock (woken c s {p})" by (simp add: no_proclock_def)
    then show ?case using Cons by (simp add: wakeup_one_eq woken_woken)
  qed simp
  then show "no_proclock s \<Longrightarrow> ?thesis" by (simp add: wakeup_def)
qed

lemma sleep_eq:
  assumes "curproc s = Some p" "held s = [lk]" "lk \<noteq> ProcLock p"
  shows "sleep c lk s = Stop Asleep
    (upd_proc p (\<lambda>q. q\<lparr>p_chan := c, p_state := SLEEPING\<rparr>) (s\<lparr>held := [ProcLock p]\<rparr>))"
  using assms by (simp add: sleep_def sched_def kholding_def upd_proc_def)

end
