(* ===== verification/Sleeplock.thy ===== *)
theory Sleeplock
  imports Sched
begin

text \<open>
  Sleep locks (\<open>kernel/sleeplock.c\<close>).  A sleep lock is embedded in a buffer or in an inode; \<open>slk\<close> names
  which one.  \<open>acquiresleep\<close> either takes the lock or leaves the process asleep on it; woken, the
  process runs \<open>acquiresleep_resume\<close>.
\<close>

datatype slk = BufSlk nat | InodeSlk nat

primrec slk_lk :: "slk \<Rightarrow> lockid" where
  "slk_lk (BufSlk b) = SleepBufLk b"
| "slk_lk (InodeSlk i) = SleepInodeLk i"

primrec slk_chan :: "slk \<Rightarrow> chan" where
  "slk_chan (BufSlk b) = ChSleepBuf b"
| "slk_chan (InodeSlk i) = ChSleepInode i"

primrec slk_get :: "slk \<Rightarrow> kstate \<Rightarrow> sleeplock" where
  "slk_get (BufSlk b) s = b_lock (bufs s b)"
| "slk_get (InodeSlk i) s = i_lock (itable s i)"

primrec slk_set :: "slk \<Rightarrow> sleeplock \<Rightarrow> kstate \<Rightarrow> kstate" where
  "slk_set (BufSlk b) l s = upd_buf b (\<lambda>r. r\<lparr>b_lock := l\<rparr>) s"
| "slk_set (InodeSlk i) l s = upd_inode i (\<lambda>r. r\<lparr>i_lock := l\<rparr>) s"

definition initsleeplock :: "slk \<Rightarrow> kstate \<Rightarrow> kstate" where
  "initsleeplock k s = slk_set k \<lparr>slk_locked = False, slk_pid = 0\<rparr> s"

definition acquiresleep_loop :: "slk \<Rightarrow> kstate \<Rightarrow> unit kres" where
  "acquiresleep_loop k s =
    (if slk_locked (slk_get k s) then sleep (slk_chan k) (slk_lk k) s
     else bnd (myproc s) (\<lambda>p s.
       let s = slk_set k \<lparr>slk_locked = True, slk_pid = p_pid (procs s p)\<rparr> s in
       krelease (slk_lk k) s))"

definition acquiresleep :: "slk \<Rightarrow> kstate \<Rightarrow> unit kres" where
  "acquiresleep k s = bnd (kacquire (slk_lk k) s) (\<lambda>_ s. acquiresleep_loop k s)"

definition acquiresleep_resume :: "slk \<Rightarrow> kstate \<Rightarrow> unit kres" where
  "acquiresleep_resume k s = bnd (sleep_resume (slk_lk k) s) (\<lambda>_ s. acquiresleep_loop k s)"

definition releasesleep :: "slk \<Rightarrow> kstate \<Rightarrow> unit kres" where
  "releasesleep k s =
    bnd (kacquire (slk_lk k) s) (\<lambda>_ s.
    let s = slk_set k \<lparr>slk_locked = False, slk_pid = 0\<rparr> s in
    bnd (wakeup (slk_chan k) s) (\<lambda>_ s. krelease (slk_lk k) s))"

definition holdingsleep :: "slk \<Rightarrow> kstate \<Rightarrow> bool kres" where
  "holdingsleep k s =
    bnd (kacquire (slk_lk k) s) (\<lambda>_ s.
    bnd (myproc s) (\<lambda>p s.
    let r = (slk_locked (slk_get k s) \<and> slk_pid (slk_get k s) = p_pid (procs s p)) in
    bnd (krelease (slk_lk k) s) (\<lambda>_ s. Done r s)))"

section \<open>Exact effects\<close>

lemma slk_get_set [simp]: "slk_get k (slk_set k l s) = l"
  by (cases k) (simp_all add: upd_buf_def upd_inode_def)

lemma slk_get_other [simp]: "j \<noteq> k \<Longrightarrow> slk_get j (slk_set k l s) = slk_get j s"
  by (cases k; cases j) (simp_all add: upd_buf_def upd_inode_def)

lemma slk_set_held [simp]: "held (slk_set k l s) = held s" "curproc (slk_set k l s) = curproc s"
  "procs (slk_set k l s) = procs s"
  by (cases k; simp add: upd_buf_def upd_inode_def)+

lemma slk_set_upd_held: "slk_set k l (s\<lparr>held := h\<rparr>) = (slk_set k l s)\<lparr>held := h\<rparr>"
  by (cases k) (simp_all add: upd_buf_def upd_inode_def)

lemma slk_get_upd_held [simp]: "slk_get k (s\<lparr>held := h\<rparr>) = slk_get k s"
  by (cases k) simp_all

text \<open>No spin lock is held when a sleep lock is taken or given back.\<close>

lemma acquiresleep_free:
  assumes "held s = []" "curproc s = Some p" "\<not> slk_locked (slk_get k s)"
  shows "acquiresleep k s = Done () (slk_set k \<lparr>slk_locked = True, slk_pid = p_pid (procs s p)\<rparr> s)"
  using assms by (simp add: acquiresleep_def acquiresleep_loop_def slk_set_upd_held)

lemma acquiresleep_busy:
  assumes "held s = []" "curproc s = Some p" "slk_locked (slk_get k s)"
  shows "acquiresleep k s = Stop Asleep
    (upd_proc p (\<lambda>q. q\<lparr>p_chan := slk_chan k, p_state := SLEEPING\<rparr>) (s\<lparr>held := [ProcLock p]\<rparr>))"
  using assms by (cases k) (simp_all add: acquiresleep_def acquiresleep_loop_def sleep_eq)

lemma releasesleep_eq:
  assumes "held s = []"
  shows "releasesleep k s =
    Done () (woken (slk_chan k) (slk_set k \<lparr>slk_locked = False, slk_pid = 0\<rparr> s) {0..<NPROC})"
proof -
  have np: "no_proclock (slk_set k l (s\<lparr>held := [slk_lk k]\<rparr>))" for l
    using assms by (cases k) (simp_all add: no_proclock_def upd_buf_def upd_inode_def)
  show ?thesis
    using assms by (simp add: releasesleep_def wakeup_eq [OF np] Let_def)
      (simp add: slk_set_upd_held woken_upd_held)
qed

lemma holdingsleep_eq:
  assumes "held s = []" "curproc s = Some p"
  shows "holdingsleep k s = Done (slk_locked (slk_get k s) \<and> slk_pid (slk_get k s) = p_pid (procs s p)) s"
  using assms by (simp add: holdingsleep_def Let_def)

end
