(* ===== verification/Numfmt.thy ===== *)
theory Numfmt
  imports Prelude
begin

text \<open>
  Numbers as text.  The kernel's and the user library's \<open>printint\<close> both produce the digits of a word
  least significant first by repeated division; the locale \<open>digit_loop\<close> is the contract of that loop
  and proves, for any width, that the digits read back as the number and how many there can be.
\<close>

section \<open>Text\<close>

definition chr :: "char \<Rightarrow> byte" where "chr c = word_of_nat (of_char c)"

definition txt_of :: "string \<Rightarrow> byte list" where "txt_of s = map chr s"

definition digit_chars :: "byte list" where "digit_chars = txt_of ''0123456789abcdef''"

lemma digit_chars_eq: "digit_chars = [48, 49, 50, 51, 52, 53, 54, 55, 56, 57, 97, 98, 99, 100, 101, 102]"
  by (simp add: digit_chars_def txt_of_def chr_def)

lemma length_digit_chars [simp]: "length digit_chars = 16"
  by (simp add: digit_chars_eq)

section \<open>Reading digits\<close>

definition digit_val :: "byte \<Rightarrow> nat" where
  "digit_val c = (if c < 58 then unat c - 48 else if c < 97 then unat c - 55 else unat c - 87)"

fun digits_val :: "nat \<Rightarrow> byte list \<Rightarrow> nat" where
  "digits_val b [] = 0"
| "digits_val b (c # cs) = digit_val c + b * digits_val b cs"

text \<open>A table of sixteen digits, in lower or upper case.\<close>

definition digit_table :: "byte list \<Rightarrow> bool" where
  "digit_table tab \<longleftrightarrow> map digit_val tab = [0..<16] \<and> 0 \<notin> set tab \<and> 45 \<notin> set tab"

lemma digit_table_lower: "digit_table digit_chars"
  by (simp add: digit_table_def digit_chars_eq digit_val_def upt_rec_numeral upt_conv_Cons)

lemma digit_table_length: "digit_table tab \<Longrightarrow> length tab = 16"
  unfolding digit_table_def by (metis diff_zero length_map length_upt)

lemma digit_val_digit:
  assumes "digit_table tab" "d < 16"
  shows "digit_val (tab ! d) = d"
proof -
  have "map digit_val tab ! d = [0..<16] ! d" using assms(1) by (simp add: digit_table_def)
  then show ?thesis using assms digit_table_length [OF assms(1)] by simp
qed

text \<open>The value of printed text: an optional minus sign and digits.\<close>

definition text_val :: "nat \<Rightarrow> byte list \<Rightarrow> int" where
  "text_val b cs = (case cs of [] \<Rightarrow> 0
     | c # ds \<Rightarrow> if c = 45 then - int (digits_val b (rev ds)) else int (digits_val b (rev cs)))"

lemma text_val_rev:
  assumes "ds \<noteq> []" "set ds \<subseteq> set tab" "digit_table tab"
  shows "text_val b (rev ds) = int (digits_val b ds)" "text_val b (45 # rev ds) = - int (digits_val b ds)"
proof -
  have "hd (rev ds) \<in> set ds" using assms(1) by (metis hd_in_set rev_is_Nil_conv set_rev)
  then have "hd (rev ds) \<noteq> 45" using assms(2,3) unfolding digit_table_def by auto
  then show "text_val b (rev ds) = int (digits_val b ds)"
    using assms(1) by (cases "rev ds") (auto simp: text_val_def)
  show "text_val b (45 # rev ds) = - int (digits_val b ds)" by (simp add: text_val_def)
qed

section \<open>The loop\<close>

locale digit_loop =
  fixes tab :: "byte list" and digits :: "'a::len word \<Rightarrow> 'a word \<Rightarrow> byte list"
  assumes tab_ok: "digit_table tab"
    and digits_eq: "2 \<le> unat base \<Longrightarrow> unat base \<le> 16 \<Longrightarrow>
    digits x base = tab ! unat (x mod base)
      # (if x div base = 0 then [] else digits (x div base) base)"
begin

lemma digits_induct:
  assumes "2 \<le> unat base" "\<And>x. (x div base \<noteq> 0 \<Longrightarrow> P (x div base)) \<Longrightarrow> P x"
  shows "P (x :: 'a word)"
proof (induction "unat x" arbitrary: x rule: less_induct)
  case less
  show ?case
  proof (rule assms(2), rule less.hyps)
    assume "x div base \<noteq> 0"
    then have "x \<noteq> 0" by auto
    then show "unat (x div base) < unat x"
      using assms(1) by (simp add: unat_div div_less_dividend unat_gt_0)
  qed
qed

lemma digits_value:
  assumes "2 \<le> unat base" "unat base \<le> 16"
  shows "digits_val (unat base) (digits x base) = unat x"
proof (induction x rule: digits_induct [OF assms(1)])
  case (1 x)
  have m: "unat (x mod base) < 16" using assms by (simp add: unat_mod less_le_trans [OF mod_less_divisor])
  have e: "unat x = unat (x mod base) + unat base * unat (x div base)"
    by (simp add: unat_mod unat_div)
  show ?case
    using 1 e by (subst digits_eq [OF assms]) (simp add: digit_val_digit [OF tab_ok m])
qed

lemma digits_chars:
  assumes "2 \<le> unat base" "unat base \<le> 16"
  shows "digits x base \<noteq> [] \<and> set (digits x base) \<subseteq> set tab"
proof (induction x rule: digits_induct [OF assms(1)])
  case (1 x)
  have m: "unat (x mod base) < 16" using assms by (simp add: unat_mod less_le_trans [OF mod_less_divisor])
  show ?case
    using 1 m digit_table_length [OF tab_ok] by (subst (1 2) digits_eq [OF assms]) simp
qed

text \<open>No digit string has a leading zero, except for zero itself.\<close>

lemma digits_last:
  assumes "2 \<le> unat base" "unat base \<le> 16" "x \<noteq> 0"
  shows "last (digits x base) \<noteq> 48"
  using assms(3)
proof (induction x rule: digits_induct [OF assms(1)])
  case (1 x)
  have m: "unat (x mod base) < 16" using assms by (simp add: unat_mod less_le_trans [OF mod_less_divisor])
  have nz: "x mod base \<noteq> 0" if "x div base = 0"
    using that 1(2) by (metis add_0 mult_zero_left word_mod_div_equality)
  have "tab ! d \<noteq> 48" if "0 < d" "d < 16" for d
    using digit_val_digit [OF tab_ok that(2)] that(1) by (auto simp: digit_val_def)
  then have "x div base = 0 \<Longrightarrow> tab ! unat (x mod base) \<noteq> 48"
    using nz m by (simp add: unat_gt_0)
  then show ?case
    using 1 digits_chars [OF assms(1,2), of "x div base"] by (subst digits_eq [OF assms(1,2)]) simp
qed

lemma digits_length:
  assumes "2 \<le> unat base" "unat base \<le> 16" "unat x < unat base ^ n" "0 < n"
  shows "length (digits x base) \<le> n"
  using assms(3,4)
proof (induction n arbitrary: x)
  case (Suc n)
  have d: "unat (x div base) < unat base ^ n"
    using Suc.prems(1) by (simp add: unat_div less_mult_imp_div_less mult.commute)
  show ?case
  proof (cases "x div base = 0")
    case True
    then show ?thesis by (subst digits_eq [OF assms(1,2)]) simp
  next
    case False
    then have "unat (x div base) \<noteq> 0" by (simp add: unsigned_eq_0_iff)
    then have "0 < n" using d by (cases n) simp_all
    then show ?thesis using Suc.IH [OF d] by (subst digits_eq [OF assms(1,2)]) simp
  qed
qed simp

end

end
