(* ===== verification/Uart.thy ===== *)
theory Uart
  imports Sched
begin

text \<open>
  The serial port (\<open>kernel/uart.c\<close>).  Reading a device register takes the next value of the arbitrary
  stream \<open>io_in\<close>, writing one appends to \<open>io_out\<close>.  Waiting for the transmitter is a loop that need not
  end, so \<open>tx_wait\<close> is a partial function: \<open>None\<close> is spinning forever.  The lemmas at the end
  say what is sent when the transmitter is always ready (\<open>uart_ok\<close>).
\<close>

section \<open>Device registers\<close>

definition io_read :: "kstate \<Rightarrow> uint64 \<times> kstate" where
  "io_read s = (io_in s (io_pos s), s\<lparr>io_pos := io_pos s + 1\<rparr>)"

definition io_write :: "uint64 \<Rightarrow> uint64 \<Rightarrow> kstate \<Rightarrow> kstate" where
  "io_write a v s = s\<lparr>io_out := io_out s @ [(a, v)]\<rparr>"

definition RHR :: nat where "RHR = 0"
definition THR :: nat where "THR = 0"
definition IER :: nat where "IER = 1"
definition IER_RX_ENABLE :: byte where "IER_RX_ENABLE = push_bit 0 1"
definition IER_TX_ENABLE :: byte where "IER_TX_ENABLE = push_bit 1 1"
definition FCR :: nat where "FCR = 2"
definition FCR_FIFO_ENABLE :: byte where "FCR_FIFO_ENABLE = push_bit 0 1"
definition FCR_FIFO_CLEAR :: byte where "FCR_FIFO_CLEAR = push_bit 1 3"
definition ISR :: nat where "ISR = 2"
definition LCR :: nat where "LCR = 3"
definition LCR_EIGHT_BITS :: byte where "LCR_EIGHT_BITS = push_bit 0 3"
definition LCR_BAUD_LATCH :: byte where "LCR_BAUD_LATCH = push_bit 7 1"
definition LSR :: nat where "LSR = 5"
definition LSR_RX_READY :: byte where "LSR_RX_READY = push_bit 0 1"
definition LSR_TX_IDLE :: byte where "LSR_TX_IDLE = push_bit 5 1"

definition Reg :: "nat \<Rightarrow> uint64" where "Reg r = UART0 + of_nat r"

definition ReadReg :: "nat \<Rightarrow> kstate \<Rightarrow> byte \<times> kstate" where
  "ReadReg r s = (case io_read s of (v, s) \<Rightarrow> (ucast v, s))"

definition WriteReg :: "nat \<Rightarrow> byte \<Rightarrow> kstate \<Rightarrow> kstate" where
  "WriteReg r v s = io_write (Reg r) (ucast v) s"

section \<open>Driver\<close>

definition uartinit :: "kstate \<Rightarrow> kstate" where
  "uartinit s =
    (let s = WriteReg IER 0 s;
         s = WriteReg LCR LCR_BAUD_LATCH s;
         s = WriteReg 0 3 s;
         s = WriteReg 1 0 s;
         s = WriteReg LCR LCR_EIGHT_BITS s;
         s = WriteReg FCR (FCR_FIFO_ENABLE OR FCR_FIFO_CLEAR) s;
         s = WriteReg IER (IER_TX_ENABLE OR IER_RX_ENABLE) s in
     s)"

text \<open>
  The loop of \<open>uartwrite\<close> over the bytes still to send, entered with \<open>tx_lock\<close> held.  When the transmitter
  is busy the process sleeps; the bytes left to send are in its stack frame and \<open>uartwrite_resume\<close>
  continues with them.
\<close>

fun uartwrite_loop :: "byte list \<Rightarrow> kstate \<Rightarrow> unit kres" where
  "uartwrite_loop [] s = krelease TxLock s"
| "uartwrite_loop (c # cs) s =
    (if tx_busy s then sleep ChTx TxLock s
     else uartwrite_loop cs ((WriteReg THR c s)\<lparr>tx_busy := True\<rparr>))"

definition uartwrite :: "byte list \<Rightarrow> kstate \<Rightarrow> unit kres" where
  "uartwrite buf s = bnd (kacquire TxLock s) (\<lambda>_ s. uartwrite_loop buf s)"

definition uartwrite_resume :: "byte list \<Rightarrow> kstate \<Rightarrow> unit kres" where
  "uartwrite_resume buf s = bnd (sleep_resume TxLock s) (\<lambda>_ s. uartwrite_loop buf s)"

partial_function (option) tx_wait :: "kstate \<Rightarrow> kstate option" where
  "tx_wait s = (case ReadReg LSR s of (v, s) \<Rightarrow>
     if v AND LSR_TX_IDLE = 0 then tx_wait s else Some s)"

text \<open>\<open>push_off\<close> and \<open>pop_off\<close> around the loop pair up and leave no lock held.\<close>

definition uartputc_sync :: "uint \<Rightarrow> kstate \<Rightarrow> unit kres" where
  "uartputc_sync c s =
    (if panicked s then Stop Diverge s
     else case tx_wait s of
       None \<Rightarrow> Stop Diverge s
     | Some s \<Rightarrow> Done () (WriteReg THR (ucast c) s))"

definition uartgetc :: "kstate \<Rightarrow> byte option \<times> kstate" where
  "uartgetc s =
    (case ReadReg LSR s of (v, s) \<Rightarrow>
     if v AND LSR_RX_READY \<noteq> 0 then (case ReadReg RHR s of (c, s) \<Rightarrow> (Some c, s)) else (None, s))"

section \<open>A transmitter that is always ready\<close>

definition uart_ok :: "kstate \<Rightarrow> bool" where
  "uart_ok s \<longleftrightarrow> \<not> panicked s \<and> (\<forall>k \<ge> io_pos s. ucast (io_in s k) AND LSR_TX_IDLE \<noteq> 0)"

text \<open>\<open>sent s n bs\<close> is \<open>s\<close> after \<open>n\<close> more register reads and after \<open>bs\<close> went to the transmitter.\<close>

definition sent :: "kstate \<Rightarrow> nat \<Rightarrow> byte list \<Rightarrow> kstate" where
  "sent s n bs = s\<lparr>io_pos := io_pos s + n, io_out := io_out s @ map (\<lambda>c. (Reg THR, ucast c)) bs\<rparr>"

lemma sent_nil [simp]: "sent s 0 [] = s"
  by (simp add: sent_def)

lemma sent_sent [simp]: "sent (sent s m as) n bs = sent s (m + n) (as @ bs)"
  by (simp add: sent_def add.assoc)

lemma sent_held [simp]: "sent (s\<lparr>held := h\<rparr>) n bs = (sent s n bs)\<lparr>held := h\<rparr>" "held (sent s n bs) = held s"
  "sent (s\<lparr>panicking := b\<rparr>) n bs = (sent s n bs)\<lparr>panicking := b\<rparr>"
  by (simp_all add: sent_def)

lemma sent_simps [simp]:
  "panicking (sent s n bs) = panicking s" "panicked (sent s n bs) = panicked s" "procs (sent s n bs) = procs s"
  "curproc (sent s n bs) = curproc s" "bufs (sent s n bs) = bufs s" "console (sent s n bs) = console s"
  "dsk (sent s n bs) = dsk s" "dwrites (sent s n bs) = dwrites s" "lg (sent s n bs) = lg s" "mem (sent s n bs) = mem s"
  by (simp_all add: sent_def)

lemma uart_ok_sent [simp]: "uart_ok s \<Longrightarrow> uart_ok (sent s n bs)"
  by (simp add: uart_ok_def sent_def)

lemma uart_ok_held [simp]: "uart_ok (s\<lparr>held := h\<rparr>) = uart_ok s"
  by (simp add: uart_ok_def)

lemma uart_ok_panicking [simp]: "uart_ok (s\<lparr>panicking := b\<rparr>) = uart_ok s"
  by (simp add: uart_ok_def)

lemma uartputc_sync_ok [kstep]: "uart_ok s \<Longrightarrow> uartputc_sync c s = Done () (sent s 1 [ucast c])"
  by (simp add: uartputc_sync_def uart_ok_def tx_wait.simps ReadReg_def io_read_def WriteReg_def io_write_def sent_def)

text \<open>The driver waits exactly for the first read that shows the transmitter idle.\<close>

lemma tx_wait_first:
  assumes "ucast (io_in s (io_pos s + k)) AND LSR_TX_IDLE \<noteq> (0 :: byte)"
    and "\<And>j. j < k \<Longrightarrow> ucast (io_in s (io_pos s + j)) AND LSR_TX_IDLE = (0 :: byte)"
  shows "tx_wait s = Some (s\<lparr>io_pos := io_pos s + k + 1\<rparr>)"
  using assms
proof (induction k arbitrary: s)
  case 0
  then show ?case by (subst tx_wait.simps) (simp add: ReadReg_def io_read_def)
next
  case (Suc k)
  let ?s = "s\<lparr>io_pos := io_pos s + 1\<rparr>"
  have "ucast (io_in s (io_pos s)) AND LSR_TX_IDLE = (0 :: byte)" using Suc.prems(2) [of 0] by simp
  then have "tx_wait s = tx_wait ?s" by (subst tx_wait.simps) (simp add: ReadReg_def io_read_def)
  also have "\<dots> = Some (?s\<lparr>io_pos := io_pos ?s + k + 1\<rparr>)"
    using Suc.prems(1) Suc.prems(2) [of "Suc _"] by (intro Suc.IH) simp_all
  finally show ?case by simp
qed

end
