(* ===== verification/Printf.thy ===== *)
theory Printf
  imports Uart Numfmt
begin

text \<open>
  Formatted kernel output (\<open>kernel/printf.c\<close>) and the console's character output (\<open>consputc\<close> of
  \<open>kernel/console.c\<close>).  The variable arguments are a list of values, a word or a string (\<open>None\<close> for
  the null pointer).  The theorems say that a number is printed so that it reads back, and give the
  exact bytes sent for the formats the kernel uses.
\<close>

definition BACKSPACE :: uint where "BACKSPACE = 0x100"

definition consputc :: "uint \<Rightarrow> kstate \<Rightarrow> unit kres" where
  "consputc c s =
    (if c = BACKSPACE
     then bnd (uartputc_sync 8 s) (\<lambda>_ s. bnd (uartputc_sync 32 s) (\<lambda>_ s. uartputc_sync 8 s))
     else uartputc_sync c s)"

text \<open>The digits as the loop of \<open>printint\<close> leaves them in \<open>buf\<close>, least significant first.\<close>

function printint_digits :: "uint64 \<Rightarrow> uint64 \<Rightarrow> byte list" where
  "printint_digits x base =
    (if unat base < 2 then []
     else digit_chars ! unat (x mod base) # (if x div base \<noteq> 0 then printint_digits (x div base) base else []))"
  by auto
termination
proof (relation "measure (\<lambda>(x, base). unat x)")
  fix x base :: uint64
  assume "\<not> unat base < 2" "x div base \<noteq> 0"
  moreover from this have "x \<noteq> 0" by auto
  ultimately show "((x div base, base), x, base) \<in> measure (\<lambda>(x, base). unat x)"
    by (simp add: unat_div div_less_dividend unat_gt_0)
qed simp

declare printint_digits.simps [simp del]

definition printint_buf :: "uint64 \<Rightarrow> uint64 \<Rightarrow> bool \<Rightarrow> byte list" where
  "printint_buf xx base sign =
    (let neg = sign \<and> sint xx < 0;
         x = (if neg then - xx else xx) in
     printint_digits x base @ (if neg then [45] else []))"

definition printint :: "uint64 \<Rightarrow> uint64 \<Rightarrow> bool \<Rightarrow> kstate \<Rightarrow> unit kres" where
  "printint xx base sign s = foreach (\<lambda>c s. consputc (ucast c) s) (rev (printint_buf xx base sign)) s"

fun printptr_loop :: "nat \<Rightarrow> uint64 \<Rightarrow> kstate \<Rightarrow> unit kres" where
  "printptr_loop 0 x s = Done () s"
| "printptr_loop (Suc n) x s =
    bnd (consputc (ucast (digit_chars ! unat (drop_bit 60 x))) s) (\<lambda>_ s. printptr_loop n (push_bit 4 x) s)"

definition printptr :: "uint64 \<Rightarrow> kstate \<Rightarrow> unit kres" where
  "printptr x s =
    bnd (consputc 48 s) (\<lambda>_ s. bnd (consputc 120 s) (\<lambda>_ s. printptr_loop 16 x s))"

datatype varg = VWord uint64 | VStr "byte list option"

definition va_word :: "varg list \<Rightarrow> (uint64 \<Rightarrow> kstate \<Rightarrow> unit kres) \<Rightarrow> kstate \<Rightarrow> unit kres" where
  "va_word ap f s = (case ap of VWord w # _ \<Rightarrow> f w s | _ \<Rightarrow> Stop (Fault ''va_arg'') s)"

definition at0 :: "byte list \<Rightarrow> nat \<Rightarrow> byte" where
  "at0 fmt i = (if i < length fmt then fmt ! i else 0)"

definition int_arg :: "uint64 \<Rightarrow> uint64" where "int_arg w = scast (ucast w :: uint)"
definition uint_arg :: "uint64 \<Rightarrow> uint64" where "uint_arg w = ucast (ucast w :: uint)"

text \<open>
  One conversion, \<open>c0\<close>, \<open>c1\<close>, \<open>c2\<close> being the characters after the percent sign.  The result is the number
  of characters and of arguments consumed, or \<open>None\<close> at the end of the format.
\<close>

definition printf_conv :: "byte \<Rightarrow> byte \<Rightarrow> byte \<Rightarrow> varg list \<Rightarrow> kstate \<Rightarrow> (nat \<times> nat) option kres" where
  "printf_conv c0 c1 c2 ap s =
    (if c0 = chr CHR ''d''
     then bnd (va_word ap (\<lambda>w. printint (int_arg w) 10 True) s) (\<lambda>_ s. Done (Some (1, 1)) s)
     else if c0 = chr CHR ''l'' \<and> c1 = chr CHR ''d''
     then bnd (va_word ap (\<lambda>w. printint w 10 True) s) (\<lambda>_ s. Done (Some (2, 1)) s)
     else if c0 = chr CHR ''l'' \<and> c1 = chr CHR ''l'' \<and> c2 = chr CHR ''d''
     then bnd (va_word ap (\<lambda>w. printint w 10 True) s) (\<lambda>_ s. Done (Some (3, 1)) s)
     else if c0 = chr CHR ''u''
     then bnd (va_word ap (\<lambda>w. printint (uint_arg w) 10 False) s) (\<lambda>_ s. Done (Some (1, 1)) s)
     else if c0 = chr CHR ''l'' \<and> c1 = chr CHR ''u''
     then bnd (va_word ap (\<lambda>w. printint w 10 False) s) (\<lambda>_ s. Done (Some (2, 1)) s)
     else if c0 = chr CHR ''l'' \<and> c1 = chr CHR ''l'' \<and> c2 = chr CHR ''u''
     then bnd (va_word ap (\<lambda>w. printint w 10 False) s) (\<lambda>_ s. Done (Some (3, 1)) s)
     else if c0 = chr CHR ''x''
     then bnd (va_word ap (\<lambda>w. printint (uint_arg w) 16 False) s) (\<lambda>_ s. Done (Some (1, 1)) s)
     else if c0 = chr CHR ''l'' \<and> c1 = chr CHR ''x''
     then bnd (va_word ap (\<lambda>w. printint w 16 False) s) (\<lambda>_ s. Done (Some (2, 1)) s)
     else if c0 = chr CHR ''l'' \<and> c1 = chr CHR ''l'' \<and> c2 = chr CHR ''x''
     then bnd (va_word ap (\<lambda>w. printint w 16 False) s) (\<lambda>_ s. Done (Some (3, 1)) s)
     else if c0 = chr CHR ''p''
     then bnd (va_word ap printptr s) (\<lambda>_ s. Done (Some (1, 1)) s)
     else if c0 = chr CHR ''c''
     then bnd (va_word ap (\<lambda>w. consputc (ucast w)) s) (\<lambda>_ s. Done (Some (1, 1)) s)
     else if c0 = chr CHR ''s''
     then (case ap of
         VStr t # _ \<Rightarrow>
           bnd (foreach (\<lambda>c s. consputc (ucast c) s)
             (takeWhile (\<lambda>c. c \<noteq> 0) (case t of None \<Rightarrow> txt_of ''(null)'' | Some cs \<Rightarrow> cs)) s)
             (\<lambda>_ s. Done (Some (1, 1)) s)
       | _ \<Rightarrow> Stop (Fault ''va_arg'') s)
     else if c0 = chr CHR ''%'' then bnd (consputc 37 s) (\<lambda>_ s. Done (Some (1, 0)) s)
     else if c0 = 0 then Done None s
     else bnd (consputc 37 s) (\<lambda>_ s. bnd (consputc (ucast c0) s) (\<lambda>_ s. Done (Some (1, 0)) s)))"

fun printf_loop :: "byte list \<Rightarrow> varg list \<Rightarrow> kstate \<Rightarrow> unit kres" where
  "printf_loop [] ap s = Done () s"
| "printf_loop (cx # fmt) ap s =
    (if cx = 0 then Done () s
     else if cx \<noteq> 37 then bnd (consputc (ucast cx) s) (\<lambda>_ s. printf_loop fmt ap s)
     else let c0 = at0 fmt 0;
              c1 = (if c0 \<noteq> 0 then at0 fmt 1 else 0);
              c2 = (if c1 \<noteq> 0 then at0 fmt 2 else 0) in
       bnd (printf_conv c0 c1 c2 ap s) (\<lambda>r s.
       case r of None \<Rightarrow> Done () s
       | Some (k, a) \<Rightarrow> printf_loop (drop k fmt) (drop a ap) s))"

definition printf :: "byte list \<Rightarrow> varg list \<Rightarrow> kstate \<Rightarrow> int kres" where
  "printf fmt ap s =
    bnd (if \<not> panicking s then kacquire PrLock s else Done () s) (\<lambda>_ s.
    bnd (printf_loop fmt ap s) (\<lambda>_ s.
    bnd (if \<not> panicking s then krelease PrLock s else Done () s) (\<lambda>_ s. Done 0 s)))"

text \<open>
  \<open>panic\<close> in full: the message on the console, then the kernel is stopped.  Elsewhere in the model
  only the fact that the kernel stops with this message is kept (\<open>panic\<close>).
\<close>

definition panic_full :: "string \<Rightarrow> kstate \<Rightarrow> unit kres" where
  "panic_full msg s =
    (let s = s\<lparr>panicking := True\<rparr> in
     bnd (printf (txt_of ''panic: '') [] s) (\<lambda>_ s.
     bnd (printf (txt_of ''%s'' @ [10]) [VStr (Some (txt_of msg))] s) (\<lambda>_ s.
     Stop (Panic msg) (s\<lparr>panicked := True\<rparr>))))"

section \<open>Numbers\<close>

interpretation kernel_digits: digit_loop digit_chars printint_digits
  by unfold_locales (rule digit_table_lower, subst printint_digits.simps, simp)

lemma sint64_eq: "sint (x :: uint64) = uint x - (if bit x 63 then 2 ^ 64 else 0)"
proof -
  have "sint x = signed_take_bit 63 (uint x)" by (simp add: sint_uint)
  also have "\<dots> = take_bit 64 (uint x) - 2 ^ 64 * of_bool (bit (uint x) 63)"
    by (simp add: signed_take_bit_eq_take_bit_minus)
  also have "take_bit 64 (uint x) = uint x" using uint_lt2p [of x] by (simp add: take_bit_int_eq_self_iff)
  finally show ?thesis by (simp add: bit_uint_iff)
qed

lemma unat_neg_sint:
  assumes "sint (x :: uint64) < 0"
  shows "int (unat (- x)) = - sint x"
proof -
  have "x \<noteq> 0" using assms by auto
  moreover have "sint x = uint x - 2 ^ 64" using assms by (simp add: sint64_eq split: if_splits)
  moreover have "uint x mod 2 ^ 64 = uint x" using uint_lt2p [of x] by (intro mod_pos_pos_trivial) simp_all
  ultimately show ?thesis by (simp add: uint_word_ariths zmod_zminus1_eq_if uint_0_iff)
qed

lemma printint_buf_text:
  assumes "2 \<le> unat base" "unat base \<le> 16"
  shows "text_val (unat base) (rev (printint_buf xx base sign)) = (if sign then sint xx else uint xx)"
proof -
  note v = kernel_digits.digits_value [OF assms] and c = kernel_digits.digits_chars [OF assms]
  show ?thesis
  proof (cases "sign \<and> sint xx < 0")
    case True
    then have "- uint (- xx) = sint xx" using unat_neg_sint [of xx] by simp
    then show ?thesis using True c [of "- xx"] by (simp add: printint_buf_def text_val_rev [OF _ _ digit_table_lower] v)
  next
    case False
    have "sint xx = uint xx" if "\<not> sint xx < 0"
      using that uint_lt2p [of xx] by (simp add: sint64_eq split: if_splits)
    then have "(if sign then sint xx else uint xx) = int (unat xx)" using False by simp
    moreover have "printint_buf xx base sign = printint_digits xx base"
      using False by (cases sign) (simp_all add: printint_buf_def)
    ultimately show ?thesis using text_val_rev(1) [of "printint_digits xx base" digit_chars] digit_table_lower c [of xx] v [of xx] by metis
  qed
qed

text \<open>The array \<open>buf\<close> of \<open>printint\<close> has 20 elements.\<close>

lemma printint_buf_fits: "base \<in> {10, 16} \<Longrightarrow> length (printint_buf xx base sign) \<le> 20"
proof -
  assume b: "base \<in> {10, 16}"
  have l: "length (printint_digits x base) \<le> n" if "unat x < 10 ^ n" "0 < n" for x n
  proof (rule kernel_digits.digits_length)
    have "(10 :: nat) ^ n \<le> 16 ^ n" by (rule power_mono) simp_all
    then show "unat x < unat base ^ n" using b that(1) by auto
  qed (use b that in auto)
  have "unat (- xx) < 10 ^ 19" if "sint xx < 0"
  proof -
    have "- sint xx \<le> 2 ^ 63" using sint_ge [of xx] by simp
    then have "int (unat (- xx)) \<le> 2 ^ 63" using unat_neg_sint [OF that] by linarith
    then have "unat (- xx) \<le> 2 ^ 63" by (subst of_nat_le_iff [where 'a = int, symmetric]) simp
    then show ?thesis by (rule le_less_trans) simp
  qed
  moreover have "unat xx < 10 ^ 20" by (rule less_le_trans [OF unat_lt64]) simp
  ultimately show ?thesis
    using l [of xx 20] l [of "- xx" 19] by (simp add: printint_buf_def Let_def)
qed

section \<open>What is sent\<close>

lemma consputc_ok [kstep]: "uart_ok s \<Longrightarrow> c \<noteq> BACKSPACE \<Longrightarrow> consputc c s = Done () (sent s 1 [ucast c])"
  by (simp add: consputc_def uartputc_sync_ok)

lemma byte_not_backspace [simp]: "(ucast (c :: byte) :: uint) \<noteq> BACKSPACE"
proof
  assume "(ucast c :: uint) = BACKSPACE"
  then have "unat (ucast c :: uint) = 256" by (simp add: BACKSPACE_def)
  then show False using unat_lt8 [of c] take_bit_nat_less_eq_self [of 32 "unat c"]
    by (simp add: unsigned_ucast_eq)
qed

lemma ucast_ucast_byte [simp]: "ucast (ucast (c :: byte) :: uint) = c"
  by (rule bit_word_eqI) (simp add: bit_simps)

lemma consputc_byte [kstep]: "uart_ok s \<Longrightarrow> consputc (ucast (c :: byte)) s = Done () (sent s 1 [c])"
  by (simp add: consputc_ok ucast_ucast_byte)

lemma consputc_bytes [kstep]:
  "uart_ok s \<Longrightarrow> foreach (\<lambda>c s. consputc (ucast (c :: byte)) s) cs s = Done () (sent s (length cs) cs)"
  by (induction cs arbitrary: s) (simp_all add: consputc_byte)

lemma printint_ok [kstep]:
  "uart_ok s \<Longrightarrow> printint xx base sign s
     = Done () (sent s (length (printint_buf xx base sign)) (rev (printint_buf xx base sign)))"
  by (simp add: printint_def consputc_bytes)

fun ptr_text :: "nat \<Rightarrow> uint64 \<Rightarrow> byte list" where
  "ptr_text 0 x = []"
| "ptr_text (Suc n) x = digit_chars ! unat (drop_bit 60 x) # ptr_text n (push_bit 4 x)"

lemma length_ptr_text [simp]: "length (ptr_text n x) = n"
  by (induction n arbitrary: x) simp_all

lemma printptr_loop_ok: "uart_ok s \<Longrightarrow> printptr_loop n x s = Done () (sent s n (ptr_text n x))"
  by (induction n arbitrary: s x) (simp_all add: consputc_byte)

lemma printptr_ok [kstep]: "uart_ok s \<Longrightarrow> printptr x s = Done () (sent s 18 (48 # 120 # ptr_text 16 x))"
  by (simp add: printptr_def consputc_ok printptr_loop_ok BACKSPACE_def)

text \<open>The text \<open>printf\<close> sends: a specification by cases on the format alone.\<close>

definition conv_text :: "byte \<Rightarrow> byte \<Rightarrow> byte \<Rightarrow> varg list \<Rightarrow> (byte list \<times> (nat \<times> nat) option) option" where
  "conv_text c0 c1 c2 ap =
    (if c0 = 0 then Some ([], None) else if c0 = 37 then Some ([37], Some (1, 0))
     else if c0 = 115 then (case ap of VStr t # _ \<Rightarrow>
         Some (takeWhile (\<lambda>c. c \<noteq> 0) (case t of None \<Rightarrow> txt_of ''(null)'' | Some cs \<Rightarrow> cs), Some (1, 1)) | _ \<Rightarrow> None)
     else
       let (long, c) = (if c0 = 108 \<and> c1 \<in> {100, 117, 120} then (1, c1)
           else if c0 = 108 \<and> c1 = 108 \<and> c2 \<in> {100, 117, 120} then (2, c2) else (0, c0)) in
       if c \<in> {100, 117, 120, 112, 99}
       then (case ap of VWord w # _ \<Rightarrow>
           Some (if c = 112 then 48 # 120 # ptr_text 16 w
             else if c = 99 then (if (ucast w :: uint) = BACKSPACE then [8, 32, 8] else [ucast (ucast w :: uint)])
             else rev (printint_buf (if long \<noteq> 0 then w else if c = 100 then int_arg w else uint_arg w)
                 (if c = 120 then 16 else 10) (c = 100)), Some (long + 1, 1))
         | _ \<Rightarrow> None)
       else Some ([37, c0], Some (1, 0)))"

lemma chr_vals [simp]:
  "chr CHR ''d'' = 100" "chr CHR ''l'' = 108" "chr CHR ''u'' = 117" "chr CHR ''x'' = 120" "chr CHR ''p'' = 112"
  "chr CHR ''c'' = 99" "chr CHR ''s'' = 115" "chr CHR ''%'' = 37"
  by (simp_all add: chr_def)

lemma va_word_eq:
  "va_word (VWord w # ap) f = f w" "va_word [] f s = Stop (Fault ''va_arg'') s"
  "va_word (VStr x # ap) f s = Stop (Fault ''va_arg'') s"
  by (simp_all add: va_word_def fun_eq_iff)

lemma consputc_any: "uart_ok s \<Longrightarrow> \<exists>n. consputc c s = Done () (sent s n (if c = BACKSPACE then [8, 32, 8] else [ucast c]))"
  by (cases "c = BACKSPACE") (auto simp: consputc_def uartputc_sync_ok)

lemma printf_conv_ok:
  assumes u: "uart_ok s" and c: "conv_text c0 c1 c2 ap = Some (bs, r)"
  shows "\<exists>n. printf_conv c0 c1 c2 ap s = Done r (sent s n bs)"
proof -
  consider "c0 = 0" | "c0 = 37" | "c0 = 115" | "c0 = 108" | "c0 \<notin> {0, 37, 115, 108}" by auto
  then show ?thesis
  proof cases
    case 1
    then show ?thesis using c by (auto simp: conv_text_def printf_conv_def intro: exI [of _ 0])
  next
    case 2
    then show ?thesis using c u consputc_ok [of s 37] by (auto simp: conv_text_def printf_conv_def BACKSPACE_def)
  next
    case 3
    then show ?thesis using c u
      by (auto simp: conv_text_def printf_conv_def consputc_bytes split: list.splits varg.splits)
  next
    case 4
    then show ?thesis using c u consputc_any [of s 37]
      by (auto simp: conv_text_def printf_conv_def va_word_eq printint_ok consputc_ok BACKSPACE_def
          split: list.splits varg.splits if_splits)
  next
    case 5
    then show ?thesis using c u consputc_any [of s "ucast (case hd ap of VWord w \<Rightarrow> w | _ \<Rightarrow> 0)"]
      by (auto simp: conv_text_def printf_conv_def va_word_eq printint_ok printptr_ok consputc_ok consputc_byte BACKSPACE_def
          split: list.splits varg.splits if_splits)
  qed
qed

fun fmt_text :: "byte list \<Rightarrow> varg list \<Rightarrow> byte list option" where
  "fmt_text [] ap = Some []"
| "fmt_text (cx # fmt) ap =
    (if cx = 0 then Some []
     else if cx \<noteq> 37 then map_option (\<lambda>bs. cx # bs) (fmt_text fmt ap)
     else let c0 = at0 fmt 0;
              c1 = (if c0 \<noteq> 0 then at0 fmt 1 else 0);
              c2 = (if c1 \<noteq> 0 then at0 fmt 2 else 0) in
       (case conv_text c0 c1 c2 ap of
         None \<Rightarrow> None
       | Some (bs, None) \<Rightarrow> Some bs
       | Some (bs, Some (k, a)) \<Rightarrow> map_option (\<lambda>cs. bs @ cs) (fmt_text (drop k fmt) (drop a ap))))"

declare fmt_text.simps(2) [simp del]
declare printf_loop.simps(2) [simp del]

lemma printf_loop_ok:
  "uart_ok s \<Longrightarrow> fmt_text fmt ap = Some bs \<Longrightarrow> \<exists>n. printf_loop fmt ap s = Done () (sent s n bs)"
proof (induction fmt ap arbitrary: s bs rule: fmt_text.induct)
  case (1 ap)
  then show ?case by (auto intro: exI [of _ 0])
next
  case (2 cx fmt ap)
  define c0 where "c0 = at0 fmt 0"
  define c1 where "c1 = (if c0 \<noteq> 0 then at0 fmt 1 else 0)"
  define c2 where "c2 = (if c1 \<noteq> 0 then at0 fmt 2 else 0)"
  consider "cx = 0" | "cx \<noteq> 0" "cx \<noteq> 37" | "cx = 37" by blast
  then show ?case
  proof cases
    case 1
    then show ?thesis using 2 by (auto simp: fmt_text.simps printf_loop.simps intro: exI [of _ 0])
  next
    case b: 2
    then obtain cs where cs: "fmt_text fmt ap = Some cs" "bs = cx # cs"
      using 2(4) by (auto simp: fmt_text.simps)
    obtain n where "printf_loop fmt ap (sent s 1 [cx]) = Done () (sent (sent s 1 [cx]) n cs)"
      using 2(1) [OF b _ cs(1), of "sent s 1 [cx]"] 2(3) by auto
    then show ?thesis using b 2(3) cs(2) by (auto simp: printf_loop.simps consputc_byte)
  next
    case 3
    obtain b1 r where c: "conv_text c0 c1 c2 ap = Some (b1, r)"
      using 3 2(4) by (auto simp: fmt_text.simps Let_def c0_def c1_def c2_def split: option.splits)
    obtain n where n: "printf_conv c0 c1 c2 ap s = Done r (sent s n b1)" using printf_conv_ok [OF 2(3) c] by blast
    have l: "printf_loop (cx # fmt) ap s = (case r of None \<Rightarrow> Done () (sent s n b1)
        | Some (k, a) \<Rightarrow> printf_loop (drop k fmt) (drop a ap) (sent s n b1))"
      using 3 n by (simp add: printf_loop.simps Let_def c0_def c1_def c2_def split del: if_split)
    have f: "(case r of None \<Rightarrow> Some b1 | Some (k, a) \<Rightarrow> map_option (\<lambda>cs. b1 @ cs) (fmt_text (drop k fmt) (drop a ap)))
        = Some bs"
      using 3 2(4) c by (simp add: fmt_text.simps Let_def c0_def c1_def c2_def split del: if_split)
    show ?thesis
    proof (cases r)
      case None
      then show ?thesis using l f by auto
    next
      case (Some ka)
      obtain k a where ka: "ka = (k, a)" by fastforce
      obtain cs where cs: "fmt_text (drop k fmt) (drop a ap) = Some cs" "bs = b1 @ cs" using f Some ka by auto
      have "\<exists>m. printf_loop (drop k fmt) (drop a ap) (sent s n b1) = Done () (sent (sent s n b1) m cs)"
        using 3 c Some ka cs(1) 2(3)
        by (intro 2(2) [where x = c0 and xa = c1 and xb = c2]) (auto simp: c0_def c1_def c2_def)
      then show ?thesis using l Some ka cs(2) by auto
    qed
  qed
qed

lemma printf_ok:
  assumes u: "uart_ok s" and l: "panicking s \<or> PrLock \<notin> set (held s)" and f: "fmt_text fmt ap = Some bs"
  shows "\<exists>n. printf fmt ap s = Done 0 (sent s n bs)"
proof (cases "panicking s")
  case True
  then show ?thesis using printf_loop_ok [OF u f] by (auto simp: printf_def)
next
  case False
  have u': "uart_ok (s\<lparr>held := PrLock # held s\<rparr>)" using u by simp
  obtain n where "printf_loop fmt ap (s\<lparr>held := PrLock # held s\<rparr>) = Done () (sent (s\<lparr>held := PrLock # held s\<rparr>) n bs)"
    using printf_loop_ok [OF u' f] by blast
  then show ?thesis using False l by (auto simp: printf_def)
qed

lemma fmt_text_plain: "0 \<notin> set fmt \<Longrightarrow> 37 \<notin> set fmt \<Longrightarrow> fmt_text fmt ap = Some fmt"
  by (induction fmt) (auto simp: fmt_text.simps)

section \<open>Properties\<close>

text \<open>C23: \<open>printint\<close> prints a number so that the text, an optional minus sign and digits in the
  base, reads back as the argument taken as signed or unsigned, and its 20-byte buffer never overflows.\<close>

theorem printint_reads_back:
  assumes "uart_ok s" "base \<in> {10, 16}"
  shows "\<exists>cs. printint xx base sign s = Done () (sent s (length cs) cs) \<and> length cs \<le> 20
    \<and> text_val (unat base) cs = (if sign then sint xx else uint xx)"
proof -
  have b: "2 \<le> unat base" "unat base \<le> 16" using assms(2) by auto
  show ?thesis
    using printint_ok [OF assms(1), of xx base sign] printint_buf_fits [OF assms(2)] printint_buf_text [OF b]
    by (intro exI [of _ "rev (printint_buf xx base sign)"]) simp
qed

definition ready0 :: kstate where "ready0 = kboot0\<lparr>io_in := \<lambda>_. 0x60\<rparr>"

lemma uart_ok_ready0: "uart_ok ready0"
  by (simp add: uart_ok_def ready0_def LSR_TX_IDLE_def push_bit_eq_mult)

lemma held_ready0: "held ready0 = []" "panicking ready0 = False"
  by (simp_all add: ready0_def)

theorem printint_reads_back_witness:
  "\<exists>cs. printint (- 42) 10 True ready0 = Done () (sent ready0 (length cs) cs) \<and> length cs \<le> 20
    \<and> text_val 10 cs = - 42"
  using printint_reads_back [of ready0 10 "- 42" True] uart_ok_ready0 by simp

text \<open>C24: Kernel \<open>printf\<close> sends exactly the text its format and arguments denote: literal characters as they
  are, each conversion as \<open>conv_text\<close> gives it, and it returns 0 with its lock released, whenever the
  serial port's transmitter becomes ready.\<close>

theorem printf_sends_text:
  assumes "uart_ok s" "panicking s \<or> PrLock \<notin> set (held s)" "fmt_text fmt ap = Some bs"
  shows "\<exists>n. printf fmt ap s = Done 0 (sent s n bs)"
  using assms by (rule printf_ok)

theorem printf_sends_text_witness:
  "\<exists>n. printf (txt_of ''pid %d %s%%'') [VWord 7, VStr None] ready0 = Done 0 (sent ready0 n (txt_of ''pid 7 (null)%''))"
  by (rule printf_sends_text)
    (simp_all add: uart_ok_ready0 held_ready0 txt_of_def chr_def fmt_text.simps at0_def conv_text_def int_arg_def
      printint_buf_def printint_digits.simps [of 7] digit_chars_eq unat_word_ariths)

text \<open>C25: \<open>panic\<close> puts its message on the console, even while the printing lock is held, and stops
  the kernel with the flag set that freezes the output of the other processors.\<close>

theorem panic_prints_and_stops:
  assumes "uart_ok s" "0 \<notin> set (txt_of msg)"
  shows "\<exists>n. panic_full msg s = Stop (Panic msg)
    ((sent s n (txt_of ''panic: '' @ txt_of msg @ [10]))\<lparr>panicking := True, panicked := True\<rparr>)"
proof -
  let ?s = "s\<lparr>panicking := True\<rparr>"
  have f: "fmt_text (txt_of ''panic: '') [] = Some (txt_of ''panic: '')"
    by (rule fmt_text_plain) (simp_all add: txt_of_def chr_def)
  obtain n where n: "printf (txt_of ''panic: '') [] ?s = Done 0 (sent ?s n (txt_of ''panic: ''))"
    using printf_ok [OF _ _ f, of ?s] assms by auto
  let ?t = "sent ?s n (txt_of ''panic: '')"
  have "takeWhile (\<lambda>c. c \<noteq> 0) (txt_of msg) = txt_of msg"
    by (subst takeWhile_eq_all_conv) (use assms(2) in auto)
  then have g: "fmt_text (txt_of ''%s'' @ [10]) [VStr (Some (txt_of msg))] = Some (txt_of msg @ [10])"
    by (simp add: txt_of_def chr_def fmt_text.simps at0_def conv_text_def)
  obtain m where "printf (txt_of ''%s'' @ [10]) [VStr (Some (txt_of msg))] ?t = Done 0 (sent ?t m (txt_of msg @ [10]))"
    using printf_ok [OF _ _ g, of ?t] assms by auto
  then show ?thesis using n by (auto simp: panic_full_def Let_def)
qed

theorem panic_prints_and_stops_witness:
  "\<exists>n. panic_full ''kfree'' ready0 = Stop (Panic ''kfree'')
    ((sent ready0 n (txt_of ''panic: kfree'' @ [10]))\<lparr>panicking := True, panicked := True\<rparr>)"
  using panic_prints_and_stops [of ready0 "''kfree''"] uart_ok_ready0 by (simp add: txt_of_def chr_def)

end
