(* ===== verification/Bio.thy ===== *)
theory Bio
  imports Sleeplock Printf
begin

text \<open>
  The buffer cache (\<open>kernel/bio.c\<close>).  Buffers \<open>0..<NBUF\<close> and the list head, index \<open>NBUF\<close>, are linked
  through \<open>b_prev\<close> and \<open>b_next\<close>; the scans along the list are bounded by the number of
  buffers, which suffices on a well-formed ring.  The disk driver appears as \<open>virtio_disk_rw\<close>
  on whole blocks.  The lemmas abstract the cache to what a client sees of a block: its
  content (\<open>view\<close>), its reference count (\<open>refs\<close>) and whether it is locked (\<open>lckd\<close>).
\<close>

section \<open>The code\<close>

definition bhead :: nat where "bhead = NBUF"

definition binit_step :: "nat \<Rightarrow> kstate \<Rightarrow> unit kres" where
  "binit_step b s =
    (let s = upd_buf b (\<lambda>r. r\<lparr>b_next := b_next (bufs s bhead), b_prev := bhead\<rparr>) s;
         s = initsleeplock (BufSlk b) s;
         s = upd_buf (b_next (bufs s bhead)) (\<lambda>r. r\<lparr>b_prev := b\<rparr>) s;
         s = upd_buf bhead (\<lambda>r. r\<lparr>b_next := b\<rparr>) s in
     Done () s)"

definition binit :: "kstate \<Rightarrow> unit kres" where
  "binit s =
    (let s = upd_buf bhead (\<lambda>r. r\<lparr>b_prev := bhead, b_next := bhead\<rparr>) s in
     foreach binit_step [0..<NBUF] s)"

fun bscan :: "nat \<Rightarrow> (nat \<Rightarrow> nat) \<Rightarrow> (nat \<Rightarrow> bool) \<Rightarrow> nat \<Rightarrow> nat option option" where
  "bscan n next_of found b =
    (if b = bhead then Some None
     else case n of 0 \<Rightarrow> None
       | Suc n \<Rightarrow> if found b then Some (Some b) else bscan n next_of found (next_of b))"

declare bscan.simps [simp del]

definition bget_lock :: "nat \<Rightarrow> kstate \<Rightarrow> nat kres" where
  "bget_lock b s =
    bnd (krelease BcacheLock s) (\<lambda>_ s.
    bnd (acquiresleep (BufSlk b) s) (\<lambda>_ s. Done b s))"

definition bget :: "uint \<Rightarrow> uint \<Rightarrow> kstate \<Rightarrow> nat kres" where
  "bget dev blockno s =
    bnd (kacquire BcacheLock s) (\<lambda>_ s.
    case bscan NBUF (\<lambda>b. b_next (bufs s b))
        (\<lambda>b. b_dev (bufs s b) = dev \<and> b_blockno (bufs s b) = blockno) (b_next (bufs s bhead)) of
      None \<Rightarrow> Stop Diverge s
    | Some (Some b) \<Rightarrow> bget_lock b (upd_buf b (\<lambda>r. r\<lparr>b_refcnt := b_refcnt r + 1\<rparr>) s)
    | Some None \<Rightarrow>
      (case bscan NBUF (\<lambda>b. b_prev (bufs s b)) (\<lambda>b. b_refcnt (bufs s b) = 0) (b_prev (bufs s bhead)) of
         None \<Rightarrow> Stop Diverge s
       | Some (Some b) \<Rightarrow> bget_lock b (upd_buf b (\<lambda>r. r\<lparr>b_dev := dev, b_blockno := blockno,
           b_valid := False, b_refcnt := 1\<rparr>) s)
       | Some None \<Rightarrow> panic ''bget: no buffers'' s))"

text \<open>One block moved between buffer and disk, and every write recorded.\<close>

definition virtio_disk_rw :: "nat \<Rightarrow> bool \<Rightarrow> kstate \<Rightarrow> unit kres" where
  "virtio_disk_rw b write s =
    (let n = unat (b_blockno (bufs s b)) in
     if write then Done () (s\<lparr>dsk := (dsk s)(n := b_data (bufs s b)),
                             dwrites := dwrites s @ [(n, b_data (bufs s b))]\<rparr>)
     else Done () (upd_buf b (\<lambda>r. r\<lparr>b_data := dsk s n\<rparr>) s))"

definition bread :: "uint \<Rightarrow> uint \<Rightarrow> kstate \<Rightarrow> nat kres" where
  "bread dev blockno s =
    bnd (bget dev blockno s) (\<lambda>b s.
    if \<not> b_valid (bufs s b)
    then bnd (virtio_disk_rw b False s) (\<lambda>_ s. Done b (upd_buf b (\<lambda>r. r\<lparr>b_valid := True\<rparr>) s))
    else Done b s)"

definition bwrite :: "nat \<Rightarrow> kstate \<Rightarrow> unit kres" where
  "bwrite b s =
    bnd (holdingsleep (BufSlk b) s) (\<lambda>h s.
    if \<not> h then panic ''bwrite'' s else virtio_disk_rw b True s)"

definition brelink :: "nat \<Rightarrow> kstate \<Rightarrow> kstate" where
  "brelink b s =
    (let s = upd_buf (b_next (bufs s b)) (\<lambda>r. r\<lparr>b_prev := b_prev (bufs s b)\<rparr>) s;
         s = upd_buf (b_prev (bufs s b)) (\<lambda>r. r\<lparr>b_next := b_next (bufs s b)\<rparr>) s;
         s = upd_buf b (\<lambda>r. r\<lparr>b_next := b_next (bufs s bhead)\<rparr>) s;
         s = upd_buf b (\<lambda>r. r\<lparr>b_prev := bhead\<rparr>) s;
         s = upd_buf (b_next (bufs s bhead)) (\<lambda>r. r\<lparr>b_prev := b\<rparr>) s
     in upd_buf bhead (\<lambda>r. r\<lparr>b_next := b\<rparr>) s)"

definition brelse :: "nat \<Rightarrow> kstate \<Rightarrow> unit kres" where
  "brelse b s =
    bnd (holdingsleep (BufSlk b) s) (\<lambda>h s.
    if \<not> h then panic ''brelse'' s
    else bnd (releasesleep (BufSlk b) s) (\<lambda>_ s.
      bnd (kacquire BcacheLock s) (\<lambda>_ s.
      let s = upd_buf b (\<lambda>r. r\<lparr>b_refcnt := b_refcnt r - 1\<rparr>) s;
          s = (if b_refcnt (bufs s b) = 0 then brelink b s else s) in
      krelease BcacheLock s)))"

definition bpin :: "nat \<Rightarrow> kstate \<Rightarrow> unit kres" where
  "bpin b s =
    bnd (kacquire BcacheLock s) (\<lambda>_ s.
    krelease BcacheLock (upd_buf b (\<lambda>r. r\<lparr>b_refcnt := b_refcnt r + 1\<rparr>) s))"

definition bunpin :: "nat \<Rightarrow> kstate \<Rightarrow> unit kres" where
  "bunpin b s =
    bnd (kacquire BcacheLock s) (\<lambda>_ s.
    krelease BcacheLock (upd_buf b (\<lambda>r. r\<lparr>b_refcnt := b_refcnt r - 1\<rparr>) s))"

section \<open>The list of buffers\<close>

fun chain :: "(nat \<Rightarrow> nat) \<Rightarrow> nat \<Rightarrow> nat list \<Rightarrow> nat \<Rightarrow> bool" where
  "chain f a [] z \<longleftrightarrow> f a = z"
| "chain f a (x # xs) z \<longleftrightarrow> f a = x \<and> chain f x xs z"

abbreviation nxt :: "kstate \<Rightarrow> nat \<Rightarrow> nat" where "nxt s \<equiv> \<lambda>b. b_next (bufs s b)"
abbreviation prv :: "kstate \<Rightarrow> nat \<Rightarrow> nat" where "prv s \<equiv> \<lambda>b. b_prev (bufs s b)"

definition ring :: "kstate \<Rightarrow> nat list \<Rightarrow> bool" where
  "ring s xs \<longleftrightarrow> chain (nxt s) bhead xs bhead \<and> chain (prv s) bhead (rev xs) bhead
    \<and> distinct xs \<and> set xs = {0..<NBUF}"

lemma chain_append: "chain f a (xs @ y # ys) z \<longleftrightarrow> chain f a xs y \<and> chain f y ys z"
  by (induction xs arbitrary: a) auto

lemma chain_upd: "x \<notin> set (a # xs) \<Longrightarrow> chain (f(x := v)) a xs z = chain f a xs z"
  by (induction xs arbitrary: a) auto

lemma chain_hd: "chain f a xs z \<Longrightarrow> f a = hd (xs @ [z])"
  by (cases xs) auto

lemma chain_redirect:
  "chain f a xs z \<Longrightarrow> distinct (a # xs) \<Longrightarrow> chain (f(last (a # xs) := w)) a xs w"
proof (induction xs arbitrary: a)
  case (Cons x xs)
  then have "last (x # xs) \<noteq> a" by (metis distinct.simps(2) last_in_set list.distinct(1))
  then show ?case using Cons by simp
qed simp

text \<open>Unlinking \<open>b\<close> from a chain, and linking it in at the front or at the end.\<close>

lemma chain_remove:
  assumes "chain f h (ys @ b # zs) h" "distinct (h # ys @ b # zs)"
  shows "chain (f(last (h # ys) := f b)) h (ys @ zs) h"
proof -
  let ?u = "last (h # ys)" and ?g = "f(last (h # ys) := f b)"
  have c: "chain f h ys b" "chain f b zs h" using assms(1) by (simp_all add: chain_append)
  have u: "?u \<in> set (h # ys)" by (rule last_in_set) simp
  have ys: "chain ?g h ys (f b)" by (rule chain_redirect [OF c(1)]) (use assms(2) in simp)
  show ?thesis
  proof (cases zs)
    case Nil
    then show ?thesis using ys c(2) by simp
  next
    case (Cons w zs')
    then have "f b = w" "chain f w zs' h" using c(2) by simp_all
    moreover have "?u \<notin> set (w # zs')" using u assms(2) Cons by auto
    ultimately show ?thesis using ys Cons by (simp add: chain_append chain_upd)
  qed
qed

lemma chain_push:
  assumes "chain f h L h" "b \<notin> set (h # L)" "h \<notin> set L"
  shows "chain (f(b := f h, h := b)) h (b # L) h"
  using assms by (cases L) (auto simp: chain_upd)

lemma chain_snoc:
  assumes "chain f h L h" "b \<notin> set (h # L)" "distinct (h # L)"
  shows "chain (f(b := h, last (h # L) := b)) h (L @ [b]) h"
proof -
  have u: "last (h # L) \<in> set (h # L)" by (rule last_in_set) simp
  then have "last (h # L) \<noteq> b" using assms(2) by metis
  moreover have "chain (f(b := h)) h L h" using assms(1,2) chain_upd by blast
  ultimately show ?thesis using chain_redirect [of "f(b := h)" h L h b] assms(3) by (simp add: chain_append)
qed

lemma bscan_chain:
  assumes "chain f a xs bhead" "bhead \<notin> set xs" "length xs \<le> n"
  shows "bscan n f P (f a) = Some (find P xs)"
  using assms
proof (induction xs arbitrary: a n)
  case Nil
  then show ?case by (subst bscan.simps) simp
next
  case (Cons x xs)
  then obtain k where n: "n = Suc k" by (cases n) auto
  have "bscan k f P (f x) = Some (find P xs)" using Cons n by simp
  then show ?case using Cons.prems n by (subst bscan.simps) auto
qed

lemma last_rev_hd: "last (h # rev L) = hd (L @ [h])"
  by (cases L) auto

lemma upd_buf_links:
  "b_next (bufs (upd_buf b (\<lambda>r. r\<lparr>b_next := v\<rparr>) s) i) = (if i = b then v else b_next (bufs s i))"
  "b_prev (bufs (upd_buf b (\<lambda>r. r\<lparr>b_next := v\<rparr>) s) i) = b_prev (bufs s i)"
  "b_next (bufs (upd_buf b (\<lambda>r. r\<lparr>b_prev := v\<rparr>) s) i) = b_next (bufs s i)"
  "b_prev (bufs (upd_buf b (\<lambda>r. r\<lparr>b_prev := v\<rparr>) s) i) = (if i = b then v else b_prev (bufs s i))"
  by (simp_all add: upd_buf_def)

lemma brelink_eqs:
  assumes "nxt s b \<noteq> b" "prv s b \<noteq> b" "b \<noteq> bhead"
  shows "nxt (brelink b s) = (let n1 = (nxt s)(prv s b := nxt s b) in n1(b := n1 bhead, bhead := b))"
    and "prv (brelink b s) = (prv s)(nxt s b := prv s b, b := bhead, ((nxt s)(prv s b := nxt s b)) bhead := b)"
  using assms by (simp_all add: brelink_def upd_buf_links Let_def fun_eq_iff)

definition bcore :: "buf \<Rightarrow> bool \<times> bool \<times> uint \<times> uint \<times> sleeplock \<times> uint \<times> block" where
  "bcore r = (b_valid r, b_disk r, b_dev r, b_blockno r, b_lock r, b_refcnt r, b_data r)"

definition same_but_links :: "kstate \<Rightarrow> kstate \<Rightarrow> bool" where
  "same_but_links s t \<longleftrightarrow> (\<exists>B. t = s\<lparr>bufs := B\<rparr> \<and> (\<forall>i. bcore (B i) = bcore (bufs s i)))"

lemma same_but_links_upd:
  assumes "same_but_links s t"
  shows "same_but_links s (upd_buf b (\<lambda>r. r\<lparr>b_next := n\<rparr>) t)" "same_but_links s (upd_buf b (\<lambda>r. r\<lparr>b_prev := n\<rparr>) t)"
proof -
  obtain B where "t = s\<lparr>bufs := B\<rparr>" "\<forall>i. bcore (B i) = bcore (bufs s i)"
    using assms by (auto simp: same_but_links_def)
  note B = this
  show "same_but_links s (upd_buf b (\<lambda>r. r\<lparr>b_next := n\<rparr>) t)"
    unfolding same_but_links_def B(1)
    by (intro exI [of _ "B(b := (B b)\<lparr>b_next := n\<rparr>)"]) (use B(2) in \<open>simp add: upd_buf_def bcore_def\<close>)
  show "same_but_links s (upd_buf b (\<lambda>r. r\<lparr>b_prev := n\<rparr>) t)"
    unfolding same_but_links_def B(1)
    by (intro exI [of _ "B(b := (B b)\<lparr>b_prev := n\<rparr>)"]) (use B(2) in \<open>simp add: upd_buf_def bcore_def\<close>)
qed

lemma brelink_same: "same_but_links s (brelink b s)"
proof -
  have "same_but_links s s" unfolding same_but_links_def by (rule exI [of _ "bufs s"]) simp
  then show ?thesis unfolding brelink_def Let_def by (intro same_but_links_upd)
qed

lemma ring_relink:
  assumes "ring s (ys @ b # zs)"
  shows "ring (brelink b s) (b # ys @ zs)"
proof -
  let ?h = bhead and ?L = "ys @ zs"
  have n: "chain (nxt s) ?h (ys @ b # zs) ?h" and p: "chain (prv s) ?h (rev zs @ b # rev ys) ?h"
    and d: "distinct (ys @ b # zs)" and st: "set (ys @ b # zs) = {0..<NBUF}"
    using assms by (simp_all add: ring_def)
  have h: "?h \<notin> set (ys @ b # zs)" unfolding st by (simp add: bhead_def)
  have w: "nxt s b = hd (zs @ [?h])" using n chain_hd [of "nxt s" b zs ?h] by (simp add: chain_append)
  have u: "prv s b = last (?h # ys)"
    using p chain_hd [of "prv s" b "rev ys" ?h] last_rev_hd [of ?h "rev ys"] by (simp add: chain_append)
  have "hd (zs @ [?h]) \<in> insert ?h (set zs)" "last (?h # ys) \<in> set (?h # ys)"
    by (cases zs; simp) (rule last_in_set; simp)
  then have ne: "nxt s b \<noteq> b" "prv s b \<noteq> b" "b \<noteq> ?h" using w u d h by auto
  let ?n1 = "(nxt s)(prv s b := nxt s b)"
  note eqs = brelink_eqs [OF ne]
  have n1: "chain ?n1 ?h ?L ?h"
    using chain_remove [OF n] d h u by simp
  have p1: "chain ((prv s)(nxt s b := prv s b)) ?h (rev ?L) ?h"
    using chain_remove [OF p] d h w last_rev_hd [of ?h zs] by (simp add: Int_commute)
  have "chain (nxt (brelink b s)) ?h (b # ?L) ?h"
    unfolding eqs(1) Let_def using chain_push [OF n1, of b] d h by simp
  moreover have "?n1 ?h = last (?h # rev ?L)" using chain_hd [OF n1] last_rev_hd [of ?h ?L] by simp
  then have "chain (prv (brelink b s)) ?h (rev ?L @ [b]) ?h"
    unfolding eqs(2) using chain_snoc [OF p1, of b] d h by (simp add: Int_commute)
  ultimately show ?thesis using d st by (auto simp: ring_def)
qed

section \<open>What a client sees of the cache\<close>

definition bidx :: "kstate \<Rightarrow> uint \<Rightarrow> uint \<Rightarrow> nat option" where
  "bidx s dev bn = find (\<lambda>i. b_dev (bufs s i) = dev \<and> b_blockno (bufs s i) = bn) [0..<NBUF]"

definition view :: "kstate \<Rightarrow> uint \<Rightarrow> uint \<Rightarrow> block" where
  "view s dev bn = (case bidx s dev bn of
     Some i \<Rightarrow> if b_valid (bufs s i) then b_data (bufs s i) else dsk s (unat bn) | None \<Rightarrow> dsk s (unat bn))"

definition refs :: "kstate \<Rightarrow> uint \<Rightarrow> uint \<Rightarrow> nat" where
  "refs s dev bn = (case bidx s dev bn of Some i \<Rightarrow> unat (b_refcnt (bufs s i)) | None \<Rightarrow> 0)"

definition lckd :: "kstate \<Rightarrow> uint \<Rightarrow> uint \<Rightarrow> bool" where
  "lckd s dev bn = (case bidx s dev bn of Some i \<Rightarrow> slk_locked (b_lock (bufs s i)) | None \<Rightarrow> False)"

definition inuse :: "kstate \<Rightarrow> nat" where
  "inuse s = card {i. i < NBUF \<and> b_refcnt (bufs s i) \<noteq> 0}"

text \<open>
  The invariant: the list is a ring of all buffers; a block of a real device (number not 0) is in
  at most one buffer; a buffer nobody references is unlocked and agrees with the disk; the
  blocks cached are those of the one disk there is.
\<close>

definition buniq :: "kstate \<Rightarrow> bool" where
  "buniq s \<longleftrightarrow> (\<forall>i < NBUF. \<forall>j < NBUF. b_dev (bufs s i) \<noteq> 0 \<and> b_dev (bufs s i) = b_dev (bufs s j)
     \<and> b_blockno (bufs s i) = b_blockno (bufs s j) \<longrightarrow> i = j)"

definition bclean :: "kstate \<Rightarrow> bool" where
  "bclean s \<longleftrightarrow> (\<forall>i < NBUF. b_refcnt (bufs s i) = 0 \<longrightarrow> \<not> slk_locked (b_lock (bufs s i))
     \<and> (b_valid (bufs s i) \<longrightarrow> b_data (bufs s i) = dsk s (unat (b_blockno (bufs s i)))))"

definition bsize :: "kstate \<Rightarrow> bool" where
  "bsize s \<longleftrightarrow> (\<forall>i < NBUF. length (b_data (bufs s i)) = BSIZE) \<and> (\<forall>n. length (dsk s n) = BSIZE)"

definition binv :: "kstate \<Rightarrow> bool" where
  "binv s \<longleftrightarrow> (\<exists>xs. ring s xs) \<and> buniq s \<and> bclean s \<and> bsize s
    \<and> (\<forall>i < NBUF. b_valid (bufs s i) \<longrightarrow> b_dev (bufs s i) = ROOTDEV)"

lemma buniqD:
  "\<lbrakk>buniq s; i < NBUF; j < NBUF; b_dev (bufs s i) \<noteq> 0; b_dev (bufs s i) = b_dev (bufs s j);
    b_blockno (bufs s i) = b_blockno (bufs s j)\<rbrakk> \<Longrightarrow> i = j"
  unfolding buniq_def by blast

lemma bidx_Some_iff:
  assumes "buniq s" "dev \<noteq> 0"
  shows "bidx s dev bn = Some i \<longleftrightarrow> i < NBUF \<and> b_dev (bufs s i) = dev \<and> b_blockno (bufs s i) = bn"
proof
  assume "bidx s dev bn = Some i"
  then show "i < NBUF \<and> b_dev (bufs s i) = dev \<and> b_blockno (bufs s i) = bn"
    by (auto simp: bidx_def find_Some_iff)
next
  assume i: "i < NBUF \<and> b_dev (bufs s i) = dev \<and> b_blockno (bufs s i) = bn"
  then have "bidx s dev bn \<noteq> None" by (auto simp: bidx_def find_None_iff)
  then obtain j where j: "bidx s dev bn = Some j" by blast
  then have "j < NBUF \<and> b_dev (bufs s j) = dev \<and> b_blockno (bufs s j) = bn"
    by (auto simp: bidx_def find_Some_iff)
  then show "bidx s dev bn = Some i" using i j assms unfolding buniq_def by metis
qed

lemma bidx_None_iff: "bidx s dev bn = None \<longleftrightarrow> (\<forall>i < NBUF. \<not> (b_dev (bufs s i) = dev \<and> b_blockno (bufs s i) = bn))"
  by (auto simp: bidx_def find_None_iff)

lemma bidx_cong:
  "(\<And>i. i < NBUF \<Longrightarrow> b_dev (bufs t i) = b_dev (bufs s i) \<and> b_blockno (bufs t i) = b_blockno (bufs s i))
    \<Longrightarrow> bidx t = bidx s"
  unfolding bidx_def by (intro ext find_cong) auto

text \<open>The two scans of \<open>bget\<close> on a ring.\<close>

lemma ring_scan:
  assumes "ring s xs"
  shows "bscan NBUF (nxt s) P (nxt s bhead) = Some (find P xs)"
    and "bscan NBUF (prv s) P (prv s bhead) = Some (find P (rev xs))"
proof -
  have "length xs = NBUF" using assms distinct_card [of xs] by (simp add: ring_def)
  moreover have "bhead \<notin> set xs" using assms by (simp add: ring_def bhead_def)
  ultimately show "bscan NBUF (nxt s) P (nxt s bhead) = Some (find P xs)"
    "bscan NBUF (prv s) P (prv s bhead) = Some (find P (rev xs))"
    using assms bscan_chain [of "nxt s" bhead xs NBUF P] bscan_chain [of "prv s" bhead "rev xs" NBUF P]
    by (simp_all add: ring_def)
qed

lemma find_ring:
  assumes "ring s xs" "buniq s" "dev \<noteq> 0"
  shows "find (\<lambda>b. b_dev (bufs s b) = dev \<and> b_blockno (bufs s b) = bn) xs = bidx s dev bn"
proof -
  let ?P = "\<lambda>b. b_dev (bufs s b) = dev \<and> b_blockno (bufs s b) = bn"
  have st: "set xs = {0..<NBUF}" using assms(1) by (simp add: ring_def)
  show ?thesis
  proof (cases "find ?P xs")
    case None
    then have "bidx s dev bn = None" using st by (auto simp: find_None_iff bidx_None_iff)
    then show ?thesis using None by simp
  next
    case (Some i)
    then have "i \<in> set xs \<and> ?P i" by (auto simp: find_Some_iff)
    then have "bidx s dev bn = Some i" using bidx_Some_iff [OF assms(2,3)] st by simp
    then show ?thesis using Some by simp
  qed
qed

section \<open>\<open>bread\<close>\<close>

definition mylock :: "kstate \<Rightarrow> sleeplock" where
  "mylock s = \<lparr>slk_locked = True, slk_pid = (case curproc s of Some p \<Rightarrow> p_pid (procs s p) | None \<Rightarrow> 0)\<rparr>"

text \<open>The buffer \<open>i\<close> once \<open>bread\<close> has made it hold the block.\<close>

definition bfilled :: "kstate \<Rightarrow> nat \<Rightarrow> uint \<Rightarrow> uint \<Rightarrow> buf" where
  "bfilled s i dev bn = (bufs s i)\<lparr>b_dev := dev, b_blockno := bn, b_valid := True,
     b_refcnt := of_nat (refs s dev bn) + 1, b_lock := mylock s, b_data := view s dev bn\<rparr>"

lemma bfilled_simps [simp]:
  "b_dev (bfilled s i dev bn) = dev" "b_blockno (bfilled s i dev bn) = bn" "b_valid (bfilled s i dev bn)"
  "b_refcnt (bfilled s i dev bn) = of_nat (refs s dev bn) + 1" "b_data (bfilled s i dev bn) = view s dev bn"
  "b_lock (bfilled s i dev bn) = mylock s" "b_next (bfilled s i dev bn) = b_next (bufs s i)"
  "b_prev (bfilled s i dev bn) = b_prev (bufs s i)"
  by (simp_all add: bfilled_def)

lemma bget_lock_eq:
  assumes "held s = [BcacheLock]" "curproc s = Some p" "\<not> slk_locked (b_lock (bufs s i))"
  shows "bget_lock i s = Done i (upd_buf i (\<lambda>r. r\<lparr>b_lock := mylock s\<rparr>) (s\<lparr>held := []\<rparr>))"
  using assms acquiresleep_free [of "s\<lparr>held := []\<rparr>" p "BufSlk i"] by (simp add: bget_lock_def mylock_def)

lemma bread_eq:
  assumes inv: "binv s" and dev: "dev \<noteq> 0" and h: "held s = []" and cp: "curproc s = Some p"
    and nl: "\<not> lckd s dev bn" and free: "refs s dev bn = 0 \<Longrightarrow> inuse s < NBUF"
  shows "\<exists>i < NBUF. (bidx s dev bn = Some i \<or> bidx s dev bn = None \<and> b_refcnt (bufs s i) = 0)
    \<and> bread dev bn s = Done i (s\<lparr>bufs := (bufs s)(i := bfilled s i dev bn)\<rparr>)"
proof -
  obtain xs where r: "ring s xs" using inv by (auto simp: binv_def)
  have u: "buniq s" and c: "bclean s" using inv by (simp_all add: binv_def)
  let ?s = "s\<lparr>held := [BcacheLock]\<rparr>"
  have rs: "ring ?s xs" using r by (simp add: ring_def)
  have scan: "bscan NBUF (nxt ?s) (\<lambda>b. b_dev (bufs ?s b) = dev \<and> b_blockno (bufs ?s b) = bn) (nxt ?s bhead)
      = Some (bidx s dev bn)"
    using ring_scan(1) [OF rs] find_ring [OF r u dev] by simp
  show ?thesis
  proof (cases "bidx s dev bn")
    case (Some i)
    then have i: "i < NBUF" "b_dev (bufs s i) = dev" "b_blockno (bufs s i) = bn"
      using bidx_Some_iff [OF u dev] by auto
    let ?s1 = "upd_buf i (\<lambda>r. r\<lparr>b_refcnt := b_refcnt r + 1\<rparr>) ?s"
    have "bget dev bn s = bget_lock i ?s1" using scan Some h by (simp add: bget_def)
    also have "\<dots> = Done i (upd_buf i (\<lambda>r. r\<lparr>b_lock := mylock ?s1\<rparr>) (?s1\<lparr>held := []\<rparr>))"
      using nl Some cp by (intro bget_lock_eq [where p = p]) (simp_all add: upd_buf_def lckd_def)
    finally have g: "bget dev bn s = Done i (s\<lparr>bufs := (bufs s)(i := (bufs s i)\<lparr>
        b_refcnt := b_refcnt (bufs s i) + 1, b_lock := mylock s\<rparr>)\<rparr>)"
      using h cp by (simp add: upd_buf_def mylock_def)
    have f: "bfilled s i dev bn = (if b_valid (bufs s i)
        then (bufs s i)\<lparr>b_refcnt := b_refcnt (bufs s i) + 1, b_lock := mylock s\<rparr>
        else (bufs s i)\<lparr>b_refcnt := b_refcnt (bufs s i) + 1, b_lock := mylock s,
          b_data := dsk s (unat bn), b_valid := True\<rparr>)"
      using i Some by (intro buf.equality) (simp_all add: bfilled_def refs_def view_def)
    have "bread dev bn s = Done i (s\<lparr>bufs := (bufs s)(i := bfilled s i dev bn)\<rparr>)"
      using g i unfolding f by (simp add: bread_def virtio_disk_rw_def upd_buf_def)
    then show ?thesis using i Some by blast
  next
    case None
    have n0: "refs s dev bn = 0" using None by (simp add: refs_def)
    have "\<exists>i < NBUF. b_refcnt (bufs s i) = 0"
    proof (rule ccontr)
      assume "\<not> ?thesis"
      then have "{i. i < NBUF \<and> b_refcnt (bufs s i) \<noteq> 0} = {..<NBUF}" by auto
      then have "inuse s = NBUF" by (simp add: inuse_def)
      then show False using free [OF n0] by simp
    qed
    then have "find (\<lambda>b. b_refcnt (bufs s b) = 0) (rev xs) \<noteq> None"
      using r by (auto simp: find_None_iff ring_def)
    then obtain i where f: "find (\<lambda>b. b_refcnt (bufs s b) = 0) (rev xs) = Some i" by blast
    then have i: "i < NBUF" "b_refcnt (bufs s i) = 0" using r find_SomeD [OF f] by (auto simp: ring_def)
    let ?s1 = "upd_buf i (\<lambda>r. r\<lparr>b_dev := dev, b_blockno := bn, b_valid := False, b_refcnt := 1\<rparr>) ?s"
    have "bget dev bn s = bget_lock i ?s1"
      using scan None h f ring_scan(2) [OF rs] by (simp add: bget_def)
    also have "\<dots> = Done i (upd_buf i (\<lambda>r. r\<lparr>b_lock := mylock ?s1\<rparr>) (?s1\<lparr>held := []\<rparr>))"
      using c i cp by (intro bget_lock_eq [where p = p]) (simp_all add: upd_buf_def bclean_def)
    finally have "bread dev bn s = Done i (s\<lparr>bufs := (bufs s)(i := bfilled s i dev bn)\<rparr>)"
      using h cp None n0
      by (simp add: bread_def virtio_disk_rw_def upd_buf_def bfilled_def view_def mylock_def)
        (rule arg_cong [where f = "\<lambda>r. s\<lparr>bufs := (bufs s)(i := r)\<rparr>"], rule buf.equality; simp)
    then show ?thesis using i None by blast
  qed
qed

text \<open>How one buffer taken over by a block changes the client's view.\<close>

definition bfill :: "kstate \<Rightarrow> kstate \<Rightarrow> nat \<Rightarrow> uint \<Rightarrow> uint \<Rightarrow> bool" where
  "bfill s t i dev bn \<longleftrightarrow> binv s \<and> dev \<noteq> 0 \<and> i < NBUF
    \<and> (bidx s dev bn = Some i \<or> bidx s dev bn = None \<and> b_refcnt (bufs s i) = 0)
    \<and> refs s dev bn + 1 < 2 ^ 32 \<and> t = s\<lparr>bufs := (bufs s)(i := bfilled s i dev bn)\<rparr>"

lemma bfillD:
  assumes "bfill s t i dev bn"
  shows "binv s" "dev \<noteq> 0" "i < NBUF" "buniq s" "bclean s"
    "bidx s dev bn = Some i \<or> bidx s dev bn = None \<and> b_refcnt (bufs s i) = 0"
    "unat (of_nat (refs s dev bn) + 1 :: uint) = refs s dev bn + 1"
    "bufs t j = (if j = i then bfilled s i dev bn else bufs s j)" "dsk t = dsk s"
  using assms by (auto simp: bfill_def binv_def unat_of_nat unat_word_ariths)

lemma bfill_only:
  assumes f: "bfill s t i dev bn" and j: "j < NBUF" "b_dev (bufs s j) = dev" "b_blockno (bufs s j) = bn"
  shows "j = i"
proof -
  note F = bfillD [OF f]
  have "bidx s dev bn \<noteq> None" using j by (auto simp: bidx_None_iff)
  then have "bidx s dev bn = Some i" using F(6) by auto
  then have "i < NBUF" "b_dev (bufs s i) = dev" "b_blockno (bufs s i) = bn" using bidx_Some_iff [OF F(4,2)] by auto
  then show ?thesis using buniqD [OF F(4) j(1)] j F(2) by simp
qed

lemma bfill_uniq:
  assumes f: "bfill s t i dev bn"
  shows "buniq t"
  unfolding buniq_def
proof (intro allI impI)
  fix j k
  assume jk: "j < NBUF" "k < NBUF" and e: "b_dev (bufs t j) \<noteq> 0 \<and> b_dev (bufs t j) = b_dev (bufs t k)
    \<and> b_blockno (bufs t j) = b_blockno (bufs t k)"
  show "j = k"
  proof (cases "j = i \<or> k = i")
    case True
    then show ?thesis using e jk bfill_only [OF f, of j] bfill_only [OF f, of k]
      by (auto simp: bfillD(8) [OF f] split: if_splits)
  next
    case False
    then show ?thesis using e buniqD [OF bfillD(4) [OF f] jk] by (auto simp: bfillD(8) [OF f])
  qed
qed

lemma bfill_idx:
  assumes f: "bfill s t i dev bn"
  shows "bidx t dev bn = Some i"
  using bidx_Some_iff [OF bfill_uniq [OF f] bfillD(2) [OF f]] bfillD(3,8) [OF f] by simp

lemma bfill_idx_other:
  assumes f: "bfill s t i dev bn" and d: "d \<noteq> 0" "(d, b) \<noteq> (dev, bn)" "bidx s d b \<noteq> Some i"
  shows "bidx t d b = bidx s d b"
proof (cases "bidx s d b")
  case None
  then have "bidx t d b = None"
    using d(2) by (auto simp: bidx_None_iff bfillD(8) [OF f])
  then show ?thesis using None by simp
next
  case (Some j)
  then have "bidx t d b = Some j"
    using d bidx_Some_iff [OF bfill_uniq [OF f] d(1), of b j] bidx_Some_iff [OF bfillD(4) [OF f] d(1), of b j]
    by (simp add: bfillD(8) [OF f])
  then show ?thesis using Some by simp
qed

lemma bfill_evicted:
  assumes f: "bfill s t i dev bn" and d: "d \<noteq> 0" "(d, b) \<noteq> (dev, bn)" "bidx s d b = Some i"
  shows "bidx t d b = None" "b_refcnt (bufs s i) = 0"
proof -
  note F = bfillD [OF f]
  have b: "b_dev (bufs s i) = d" "b_blockno (bufs s i) = b" using bidx_Some_iff [OF F(4) d(1)] d(3) by auto
  show "b_refcnt (bufs s i) = 0" using F(6) b d(2) bidx_Some_iff [OF F(4,2), of bn i] by auto
  have "\<not> (b_dev (bufs t j) = d \<and> b_blockno (bufs t j) = b)" if "j < NBUF" for j
    using d(2,3) bidx_Some_iff [OF F(4) d(1), of b j] that by (auto simp: F(8))
  then show "bidx t d b = None" by (simp add: bidx_None_iff)
qed

lemma bfill_view:
  assumes f: "bfill s t i dev bn" and d: "d \<noteq> 0"
  shows "view t d b = view s d b"
proof -
  note F = bfillD [OF f]
  consider "(d, b) = (dev, bn)" | "(d, b) \<noteq> (dev, bn)" "bidx s d b \<noteq> Some i"
    | "(d, b) \<noteq> (dev, bn)" "bidx s d b = Some i" by blast
  then show "view t d b = view s d b"
  proof cases
    case 1
    then show ?thesis using bfill_idx [OF f] by (simp add: view_def [of t] F(8))
  next
    case 2
    then show ?thesis using bfill_idx_other [OF f d 2] by (auto simp: view_def F(8,9) split: option.splits)
  next
    case 3
    have "b_valid (bufs s i) \<Longrightarrow> b_data (bufs s i) = dsk s (unat b)"
      using F(3,5) bfill_evicted(2) [OF f d 3] bidx_Some_iff [OF F(4) d, of b i] 3 by (auto simp: bclean_def)
    then show ?thesis using bfill_evicted(1) [OF f d 3] 3 by (simp add: view_def F(9))
  qed
qed

lemma bfill_refs:
  assumes f: "bfill s t i dev bn" and d: "d \<noteq> 0"
  shows "refs t d b = refs s d b + (if (d, b) = (dev, bn) then 1 else 0)"
proof (cases "(d, b) = (dev, bn)")
  case True
  then show ?thesis using bfill_idx [OF f] bfillD(7,8) [OF f] by (simp add: refs_def [of t])
next
  case False
  then show ?thesis
    using bfill_idx_other [OF f d False] bfill_evicted [OF f d False]
    by (cases "bidx s d b = Some i") (auto simp: refs_def bfillD(8) [OF f] split: option.splits)
qed

lemma bfill_lckd:
  assumes f: "bfill s t i dev bn" and d: "d \<noteq> 0"
  shows "lckd t d b \<longleftrightarrow> lckd s d b \<or> (d, b) = (dev, bn)"
proof (cases "(d, b) = (dev, bn)")
  case True
  then show ?thesis using bfill_idx [OF f] bfillD(8) [OF f] by (simp add: lckd_def [of t] mylock_def)
next
  case False
  then show ?thesis
    using bfill_idx_other [OF f d False] bfill_evicted [OF f d False] bfillD(3,5) [OF f]
    by (cases "bidx s d b = Some i") (auto simp: lckd_def bfillD(8) [OF f] bclean_def split: option.splits)
qed

lemma bfill_others:
  assumes f: "bfill s t i dev bn" and d: "d \<noteq> 0" "(d, b) \<noteq> (dev, bn)" "refs s d b \<noteq> 0"
  shows "bidx t d b = bidx s d b" "bidx s d b = Some j \<Longrightarrow> bufs t j = bufs s j"
proof -
  have ne: "bidx s d b \<noteq> Some i" using bfill_evicted(2) [OF f d(1,2)] d(3) by (auto simp: refs_def)
  show "bidx t d b = bidx s d b" using bfill_idx_other [OF f d(1,2) ne] .
  show "bidx s d b = Some j \<Longrightarrow> bufs t j = bufs s j" using ne by (auto simp: bfillD(8) [OF f])
qed

lemma bfill_nz:
  assumes f: "bfill s t i dev bn"
  shows "b_refcnt (bfilled s i dev bn) \<noteq> 0"
  using bfillD(7) [OF f] by auto

lemma bfill_inuse:
  assumes f: "bfill s t i dev bn"
  shows "inuse t = inuse s + (if refs s dev bn = 0 then 1 else 0)"
proof -
  note F = bfillD [OF f]
  have "{j. j < NBUF \<and> b_refcnt (bufs t j) \<noteq> 0} = insert i {j. j < NBUF \<and> b_refcnt (bufs s j) \<noteq> 0}"
    using F(3) bfill_nz [OF f] by (auto simp: F(8))
  moreover have "b_refcnt (bufs s i) = 0 \<longleftrightarrow> refs s dev bn = 0"
    using F(6) by (auto simp: refs_def unsigned_eq_0_iff)
  ultimately show ?thesis using F(3) by (simp add: inuse_def card_insert_if)
qed

lemma bfill_inv:
  assumes f: "bfill s t i dev bn" and root: "dev = ROOTDEV"
  shows "binv t"
proof -
  note F = bfillD [OF f]
  have "nxt t = nxt s" "prv t = prv s" by (auto simp: fun_eq_iff F(8) bfilled_def)
  then have "ring t xs \<longleftrightarrow> ring s xs" for xs by (simp add: ring_def)
  moreover have "length (view s dev bn) = BSIZE"
    using F(1) bidx_Some_iff [OF F(4,2)] by (auto simp: view_def binv_def bsize_def split: option.splits)
  then have "bsize t" using F(1) by (auto simp: binv_def bsize_def F(8,9))
  moreover have "bclean t"
    unfolding bclean_def F(8,9) using F(5) bfill_nz [OF f] by (auto simp: bclean_def)
  moreover have "\<forall>j < NBUF. b_valid (bufs t j) \<longrightarrow> b_dev (bufs t j) = ROOTDEV"
    using F(1) root by (auto simp: binv_def F(8))
  ultimately show ?thesis using F(1) bfill_uniq [OF f] by (auto simp: binv_def)
qed

section \<open>The operations seen by a client\<close>

text \<open>What the file-system code above the cache may see change: buffers, the disk, process states,
  and what was printed.\<close>

definition bframe :: "kstate \<Rightarrow> kstate \<Rightarrow> bool" where
  "bframe s t \<longleftrightarrow> t = s\<lparr>procs := procs t, bufs := bufs t, dsk := dsk t, dwrites := dwrites t,
      io_pos := io_pos t, io_out := io_out t\<rparr>
    \<and> io_pos s \<le> io_pos t \<and> (\<forall>i. \<exists>st. procs t i = (procs s i)\<lparr>p_state := st\<rparr>)"

lemma bframe_refl: "bframe s s"
proof -
  have "\<exists>st. procs s i = (procs s i)\<lparr>p_state := st\<rparr>" for i
    by (rule exI [of _ "p_state (procs s i)"]) simp
  then show ?thesis by (simp add: bframe_def)
qed

lemma bframe_trans:
  assumes "bframe s t" "bframe t u"
  shows "bframe s u"
proof -
  have t: "t = s\<lparr>procs := procs t, bufs := bufs t, dsk := dsk t, dwrites := dwrites t,
      io_pos := io_pos t, io_out := io_out t\<rparr>"
    and u: "u = t\<lparr>procs := procs u, bufs := bufs u, dsk := dsk u, dwrites := dwrites u,
      io_pos := io_pos u, io_out := io_out u\<rparr>"
    using assms unfolding bframe_def by blast+
  have "t\<lparr>procs := procs u, bufs := bufs u, dsk := dsk u, dwrites := dwrites u,
      io_pos := io_pos u, io_out := io_out u\<rparr> =
      s\<lparr>procs := procs u, bufs := bufs u, dsk := dsk u, dwrites := dwrites u,
      io_pos := io_pos u, io_out := io_out u\<rparr>"
    by (subst t) simp
  then have "u = s\<lparr>procs := procs u, bufs := bufs u, dsk := dsk u, dwrites := dwrites u,
      io_pos := io_pos u, io_out := io_out u\<rparr>"
    using u by (rule trans [rotated])
  moreover have "\<exists>st. procs u i = (procs s i)\<lparr>p_state := st\<rparr>" for i
  proof -
    obtain a b where "procs t i = (procs s i)\<lparr>p_state := a\<rparr>" "procs u i = (procs t i)\<lparr>p_state := b\<rparr>"
      using assms unfolding bframe_def by blast
    then have "procs u i = (procs s i)\<lparr>p_state := b\<rparr>" by simp
    then show ?thesis by blast
  qed
  moreover have "io_pos s \<le> io_pos u" using assms by (auto simp: bframe_def)
  ultimately show ?thesis by (simp add: bframe_def)
qed

lemma bframeD:
  assumes "bframe s t"
  shows "held t = held s" "curproc t = curproc s" "p_pid (procs t i) = p_pid (procs s i)" "lg t = lg s"
    "sb t = sb s" "mem t = mem s" "itable t = itable s" "mylock t = mylock s" "link t = link s" "freelist t = freelist s"
    "ftable t = ftable s" "panicking t = panicking s" "uart_ok s \<Longrightarrow> uart_ok t"
proof -
  have t: "t = s\<lparr>procs := procs t, bufs := bufs t, dsk := dsk t, dwrites := dwrites t,
      io_pos := io_pos t, io_out := io_out t\<rparr>"
    using assms unfolding bframe_def by blast
  show "held t = held s" "curproc t = curproc s" "lg t = lg s" "sb t = sb s" "mem t = mem s" "itable t = itable s"
    "link t = link s" "freelist t = freelist s" "ftable t = ftable s" "panicking t = panicking s" by (subst t; simp)+
  have "panicked t = panicked s" "io_in t = io_in s" by (subst t; simp)+
  then show "uart_ok s \<Longrightarrow> uart_ok t" using assms by (auto simp: uart_ok_def bframe_def)
  obtain st where "procs t j = (procs s j)\<lparr>p_state := st j\<rparr>" for j
    using assms unfolding bframe_def by metis
  then have pid: "p_pid (procs t j) = p_pid (procs s j)" for j by simp
  then show "p_pid (procs t i) = p_pid (procs s i)" .
  show "mylock t = mylock s" using pid \<open>curproc t = curproc s\<close> by (simp add: mylock_def split: option.splits)
qed

lemma bframe_bufs: "bframe s (s\<lparr>bufs := B\<rparr>)"
  using bframe_refl [of s] by (simp add: bframe_def)

lemma bframe_woken: "bframe s (woken c (s\<lparr>bufs := B\<rparr>) P)"
proof -
  have "\<exists>st. procs (woken c (s\<lparr>bufs := B\<rparr>) P) i = (procs s i)\<lparr>p_state := st\<rparr>" for i
    by (rule exI [of _ "p_state (procs (woken c (s\<lparr>bufs := B\<rparr>) P) i)"]) (simp add: woken_def)
  then show ?thesis by (simp add: bframe_def woken_def)
qed

lemma bframe_sent: "bframe s (sent s n bs)"
  using bframe_refl [of s] by (simp add: bframe_def sent_def)

text \<open>Holding a block: the buffer the client got from \<open>bread\<close>, locked by it.\<close>

definition bheld :: "kstate \<Rightarrow> nat \<Rightarrow> uint \<Rightarrow> uint \<Rightarrow> bool" where
  "bheld s i dev bn \<longleftrightarrow> bidx s dev bn = Some i \<and> b_valid (bufs s i) \<and> b_lock (bufs s i) = mylock s
    \<and> refs s dev bn \<noteq> 0"

lemma bheld_view: "bheld s i dev bn \<Longrightarrow> b_data (bufs s i) = view s dev bn"
  by (simp add: bheld_def view_def)

lemma ROOTDEV_nz [simp]: "ROOTDEV \<noteq> 0"
  by (simp add: ROOTDEV_def)

text \<open>The one disk: what is seen of its block \<open>bn\<close>.\<close>

abbreviation rview :: "kstate \<Rightarrow> uint \<Rightarrow> block" where "rview s \<equiv> view s ROOTDEV"
abbreviation rrefs :: "kstate \<Rightarrow> uint \<Rightarrow> nat" where "rrefs s \<equiv> refs s ROOTDEV"
abbreviation rlckd :: "kstate \<Rightarrow> uint \<Rightarrow> bool" where "rlckd s \<equiv> lckd s ROOTDEV"
abbreviation rheld :: "kstate \<Rightarrow> nat \<Rightarrow> uint \<Rightarrow> bool" where "rheld s i bn \<equiv> bheld s i ROOTDEV bn"

definition bsame :: "kstate \<Rightarrow> kstate \<Rightarrow> uint \<Rightarrow> bool" where
  "bsame s t bn \<longleftrightarrow> (\<forall>b. b \<noteq> bn \<longrightarrow> rview t b = rview s b \<and> rrefs t b = rrefs s b \<and> rlckd t b = rlckd s b
    \<and> (\<forall>j. rheld s j b \<longrightarrow> rheld t j b))"

lemma bread_spec:
  assumes "binv s" "held s = []" "curproc s = Some p" "\<not> rlckd s bn"
    "rrefs s bn = 0 \<Longrightarrow> inuse s < NBUF" "rrefs s bn + 1 < 2 ^ 32"
  shows "\<exists>i t. bread ROOTDEV bn s = Done i t \<and> binv t \<and> bframe s t \<and> rheld t i bn \<and> bsame s t bn
    \<and> dsk t = dsk s \<and> dwrites t = dwrites s \<and> inuse t = inuse s + (if rrefs s bn = 0 then 1 else 0)
    \<and> rview t bn = rview s bn \<and> rrefs t bn = rrefs s bn + 1 \<and> rlckd t bn"
proof -
  obtain i where i: "i < NBUF" "bidx s ROOTDEV bn = Some i \<or> bidx s ROOTDEV bn = None \<and> b_refcnt (bufs s i) = 0"
    "bread ROOTDEV bn s = Done i (s\<lparr>bufs := (bufs s)(i := bfilled s i ROOTDEV bn)\<rparr>)"
    using bread_eq [OF assms(1) ROOTDEV_nz assms(2-5)] by blast
  define t where "t = s\<lparr>bufs := (bufs s)(i := bfilled s i ROOTDEV bn)\<rparr>"
  have f: "bfill s t i ROOTDEV bn" using assms i by (simp add: bfill_def t_def)
  note refs = bfill_refs [OF f ROOTDEV_nz] and lckd = bfill_lckd [OF f ROOTDEV_nz] and view = bfill_view [OF f ROOTDEV_nz]
  have fr: "bframe s t" unfolding t_def by (rule bframe_bufs)
  have h: "rheld t i bn"
    using bfill_idx [OF f] refs [of bn] bfillD(8) [OF f] bframeD(8) [OF fr] by (simp add: bheld_def)
  have o: "rheld t j b" if "b \<noteq> bn" "rheld s j b" for j b
    using bfill_others [OF f ROOTDEV_nz, of b] refs [of b] that bframeD(8) [OF fr] by (auto simp: bheld_def)
  have "bread ROOTDEV bn s = Done i t" "dsk t = dsk s" "dwrites t = dwrites s" using i(3) by (simp_all add: t_def)
  moreover have "bsame s t bn" using o view refs lckd by (simp add: bsame_def)
  ultimately show ?thesis
    using h fr bfill_inv [OF f] bfill_inuse [OF f] view [of bn] refs [of bn] lckd [of bn]
    by (intro exI [of _ i] exI [of _ t]) simp
qed

text \<open>Changing lock, count and content of a cached block.\<close>

lemma bset_spec:
  assumes inv: "binv s" and b: "bidx s ROOTDEV bn = Some i" "b_valid (bufs s i)" and len: "length v = BSIZE"
    and zero: "c = 0 \<Longrightarrow> \<not> slk_locked l \<and> v = dsk s (unat bn)"
    and t: "t = s\<lparr>bufs := (bufs s)(i := (bufs s i)\<lparr>b_lock := l, b_refcnt := c, b_data := v\<rparr>)\<rparr>"
  shows "binv t" "bidx t = bidx s" "bframe s t" "bsame s t bn" "rview t bn = v" "rrefs t bn = unat c"
    "rlckd t bn = slk_locked l"
    "inuse t + (if rrefs s bn = 0 then 0 else 1) = inuse s + (if c = 0 then 0 else 1)"
proof -
  have u: "buniq s" using inv by (simp add: binv_def)
  have i: "i < NBUF" "b_dev (bufs s i) = ROOTDEV" "b_blockno (bufs s i) = bn"
    using bidx_Some_iff [OF u ROOTDEV_nz] b by auto
  let ?r = "(bufs s i)\<lparr>b_lock := l, b_refcnt := c, b_data := v\<rparr>"
  have B: "bufs t j = (if j = i then ?r else bufs s j)" for j by (simp add: t)
  have D: "dsk t = dsk s" by (simp add: t)
  show id: "bidx t = bidx s" by (rule bidx_cong) (simp add: B)
  show fr: "bframe s t" unfolding t by (rule bframe_bufs)
  have ne: "bidx s ROOTDEV b \<noteq> Some i" if "b \<noteq> bn" for b using that bidx_Some_iff [OF u ROOTDEV_nz] i by auto
  show "rview t bn = v" "rrefs t bn = unat c" "rlckd t bn = slk_locked l"
    using b by (simp_all add: view_def refs_def lckd_def id B)
  have "rview t b = rview s b \<and> rrefs t b = rrefs s b \<and> rlckd t b = rlckd s b \<and> (\<forall>j. rheld s j b \<longrightarrow> rheld t j b)"
    if "b \<noteq> bn" for b
    using ne [OF that] bframeD(8) [OF fr]
    by (auto simp: view_def refs_def lckd_def bheld_def id B D split: option.splits)
  then show "bsame s t bn" by (simp add: bsame_def)
  have "nxt t = nxt s" "prv t = prv s" by (auto simp: fun_eq_iff B)
  then have "ring t xs \<longleftrightarrow> ring s xs" for xs by (simp add: ring_def)
  moreover have "b_dev (bufs t j) = b_dev (bufs s j)" "b_blockno (bufs t j) = b_blockno (bufs s j)" for j
    by (simp_all add: B)
  then have "buniq t" using u by (simp add: buniq_def)
  moreover have "bclean t" unfolding bclean_def B D using inv zero i by (auto simp: binv_def bclean_def)
  moreover have "bsize t" "\<forall>j < NBUF. b_valid (bufs t j) \<longrightarrow> b_dev (bufs t j) = ROOTDEV"
    using inv len by (auto simp: binv_def bsize_def B D)
  ultimately show "binv t" using inv by (auto simp: binv_def)
  let ?S = "{j. j < NBUF \<and> j \<noteq> i \<and> b_refcnt (bufs s j) \<noteq> 0}"
  have "{j. j < NBUF \<and> b_refcnt (bufs t j) \<noteq> 0} = ?S \<union> (if c = 0 then {} else {i})"
    "{j. j < NBUF \<and> b_refcnt (bufs s j) \<noteq> 0} = ?S \<union> (if rrefs s bn = 0 then {} else {i})"
    using i b by (auto simp: B refs_def unsigned_eq_0_iff)
  moreover have "finite ?S" "i \<notin> ?S" by auto
  ultimately show "inuse t + (if rrefs s bn = 0 then 0 else 1) = inuse s + (if c = 0 then 0 else 1)"
    by (simp add: inuse_def)
qed

lemma babs_cong:
  assumes "\<And>i. bcore (bufs t i) = bcore (bufs s i)" "dsk t = dsk s"
  shows "bidx t = bidx s" "view t = view s" "refs t = refs s" "lckd t = lckd s" "inuse t = inuse s"
    "buniq t = buniq s" "bclean t = bclean s" "bsize t = bsize s" "b_valid (bufs t i) = b_valid (bufs s i)"
    "b_dev (bufs t i) = b_dev (bufs s i)" "b_lock (bufs t i) = b_lock (bufs s i)"
proof -
  have B: "b_valid (bufs t i) = b_valid (bufs s i)" "b_dev (bufs t i) = b_dev (bufs s i)"
    "b_blockno (bufs t i) = b_blockno (bufs s i)" "b_lock (bufs t i) = b_lock (bufs s i)"
    "b_refcnt (bufs t i) = b_refcnt (bufs s i)" "b_data (bufs t i) = b_data (bufs s i)" for i
    using assms(1) [of i] by (simp_all add: bcore_def)
  show id: "bidx t = bidx s" by (rule bidx_cong) (simp add: B)
  show "view t = view s" "refs t = refs s" "lckd t = lckd s"
    by (simp_all add: fun_eq_iff view_def refs_def lckd_def id B assms(2) split: option.split)
  show "inuse t = inuse s" "buniq t = buniq s" "bclean t = bclean s" "bsize t = bsize s"
    by (simp_all add: inuse_def buniq_def bclean_def bsize_def B assms(2))
  show "b_valid (bufs t i) = b_valid (bufs s i)" "b_dev (bufs t i) = b_dev (bufs s i)"
    "b_lock (bufs t i) = b_lock (bufs s i)" by (rule B)+
qed

lemma bheldD:
  assumes "binv s" "rheld s i bn"
  shows "i < NBUF" "b_dev (bufs s i) = ROOTDEV" "b_blockno (bufs s i) = bn" "b_refcnt (bufs s i) \<noteq> 0"
    "b_valid (bufs s i)" "bidx s ROOTDEV bn = Some i" "rrefs s bn = unat (b_refcnt (bufs s i))"
proof -
  show id: "bidx s ROOTDEV bn = Some i" and "b_valid (bufs s i)" using assms(2) by (simp_all add: bheld_def)
  then show r: "rrefs s bn = unat (b_refcnt (bufs s i))" by (simp add: refs_def)
  then show "b_refcnt (bufs s i) \<noteq> 0" using assms(2) by (auto simp: bheld_def)
  show "i < NBUF" "b_dev (bufs s i) = ROOTDEV" "b_blockno (bufs s i) = bn"
    using bidx_Some_iff [of s ROOTDEV bn i] assms(1) id by (auto simp: binv_def)
qed

lemma holdingsleep_mine:
  assumes "held s = []" "curproc s = Some p" "b_lock (bufs s i) = mylock s"
  shows "holdingsleep (BufSlk i) s = Done True s"
  using holdingsleep_eq [OF assms(1,2), of "BufSlk i"] assms by (simp add: mylock_def)

lemma bwrite_spec:
  assumes inv: "binv s" and h: "held s = []" "curproc s = Some p" and b: "rheld s i bn"
    and t: "t = s\<lparr>dsk := (dsk s)(unat bn := rview s bn), dwrites := dwrites s @ [(unat bn, rview s bn)]\<rparr>"
  shows "bwrite i s = Done () t" "binv t" "bframe s t" "bidx t = bidx s" "rview t b' = rview s b'"
    "refs t = refs s" "lckd t = lckd s" "inuse t = inuse s" "bheld t j ROOTDEV b' = bheld s j ROOTDEV b'"
proof -
  have u: "buniq s" using inv by (simp add: binv_def)
  have i: "i < NBUF" "b_dev (bufs s i) = ROOTDEV" "b_blockno (bufs s i) = bn" "b_refcnt (bufs s i) \<noteq> 0"
    "b_valid (bufs s i)" "bidx s ROOTDEV bn = Some i"
    using bheldD [OF inv b] by simp_all
  have dat: "b_data (bufs s i) = rview s bn" using bheld_view [OF b] .
  have B: "bufs t = bufs s" by (simp add: t)
  show "bwrite i s = Done () t"
    using holdingsleep_mine [OF h] b dat i by (simp add: bwrite_def virtio_disk_rw_def t bheld_def Let_def)
  show id: "bidx t = bidx s" by (rule bidx_cong) (simp add: B)
  show "bframe s t" using bframe_refl [of s] by (simp add: bframe_def t)
  then have my: "mylock t = mylock s" by (rule bframeD)
  have D: "dsk t n = (if n = unat bn then rview s bn else dsk s n)" for n by (simp add: t)
  show "rview t b' = rview s b'"
  proof (cases "b' = bn")
    case True
    then show ?thesis using i dat by (simp add: view_def [of t] id B)
  next
    case False
    then have "unat b' \<noteq> unat bn" by (simp add: word_unat_eq_iff)
    then show ?thesis by (simp add: view_def id B D split: option.split)
  qed
  show "refs t = refs s" "lckd t = lckd s" "inuse t = inuse s"
    by (simp_all add: fun_eq_iff refs_def lckd_def inuse_def id B split: option.split)
  then show "bheld t j ROOTDEV b' = bheld s j ROOTDEV b'" by (simp add: bheld_def id B my)
  have "bclean t"
    unfolding bclean_def B
  proof (intro allI impI conjI)
    fix j assume j: "j < NBUF" "b_refcnt (bufs s j) = 0"
    show "\<not> slk_locked (b_lock (bufs s j))" using inv j by (simp add: binv_def bclean_def)
    assume v: "b_valid (bufs s j)"
    have "b_dev (bufs s j) = ROOTDEV" using inv j v by (simp add: binv_def)
    moreover have "j \<noteq> i" using j i(4) by blast
    ultimately have "b_blockno (bufs s j) \<noteq> bn" using buniqD [OF u j(1) i(1)] i(2,3) by auto
    then have "unat (b_blockno (bufs s j)) \<noteq> unat bn" by (simp add: word_unat_eq_iff)
    then show "b_data (bufs s j) = dsk t (unat (b_blockno (bufs s j)))"
      using inv j v by (simp add: binv_def bclean_def D)
  qed
  moreover have "length (rview s bn) = BSIZE" using inv i(1) dat by (auto simp: binv_def bsize_def)
  then have "bsize t" using inv by (auto simp: binv_def bsize_def D B)
  moreover have "ring t = ring s" "buniq t = buniq s" by (simp_all add: fun_eq_iff ring_def buniq_def B)
  ultimately show "binv t" using inv by (simp add: binv_def B)
qed

lemma brelse_spec:
  assumes inv: "binv s" and h: "held s = []" "curproc s = Some p" and b: "rheld s i bn"
    and cl: "rrefs s bn = 1 \<Longrightarrow> rview s bn = dsk s (unat bn)"
  shows "\<exists>t. brelse i s = Done () t \<and> binv t \<and> bframe s t \<and> bsame s t bn \<and> dsk t = dsk s \<and> dwrites t = dwrites s
    \<and> rview t bn = rview s bn \<and> rrefs t bn + 1 = rrefs s bn \<and> \<not> rlckd t bn
    \<and> inuse t + (if rrefs s bn = 1 then 1 else 0) = inuse s"
proof -
  have bi: "bidx s ROOTDEV bn = Some i" "b_valid (bufs s i)" using b by (simp_all add: bheld_def)
  have u: "buniq s" using inv by (simp add: binv_def)
  note i = bheldD(1) [OF inv b] and rc = bheldD(7,4) [OF inv b]
  define l c where "l = \<lparr>slk_locked = False, slk_pid = 0\<rparr>" and "c = b_refcnt (bufs s i) - 1"
  have "unat c = rrefs s bn - 1" unfolding c_def rc(1) using rc(2) by (simp add: unat_minus_one)
  then have uc: "unat c + 1 = rrefs s bn" using rc by (simp add: unat_gt_0 Suc_leI flip: Suc_eq_plus1)
  have c0: "c = 0 \<longleftrightarrow> rrefs s bn = 1" using uc by (metis add_cancel_left_left unsigned_0 unsigned_eq_0_iff)
  define s0 where "s0 = s\<lparr>bufs := (bufs s)(i := (bufs s i)\<lparr>b_lock := l, b_refcnt := c, b_data := rview s bn\<rparr>)\<rparr>"
  have len: "length (rview s bn) = BSIZE" using inv i bheld_view [OF b] by (auto simp: binv_def bsize_def)
  note S = bset_spec [OF inv bi len _ s0_def]
  have z: "c = 0 \<Longrightarrow> \<not> slk_locked l \<and> rview s bn = dsk s (unat bn)" using c0 cl by (simp add: l_def)
  note S = S [OF z]
  define s1 where "s1 = woken (ChSleepBuf i) s0 {0..<NPROC}"
  define t where "t = (if c = 0 then brelink i s1 else s1)"
  have r: "(bufs s i)\<lparr>b_lock := l, b_refcnt := c, b_data := rview s bn\<rparr> = (bufs s i)\<lparr>b_lock := l, b_refcnt := c\<rparr>"
    using bheld_view [OF b] by (intro buf.equality) simp_all
  have up: "s0 = upd_buf i (\<lambda>r. r\<lparr>b_refcnt := c\<rparr>) (upd_buf i (\<lambda>r. r\<lparr>b_lock := l\<rparr>) s)"
    unfolding s0_def r by (simp add: upd_buf_def)
  have sbl: "same_but_links s1 t"
    unfolding t_def using brelink_same [of s1 i] by (auto simp: same_but_links_def intro: exI [of _ "bufs s1"])
  then obtain B where B: "t = s1\<lparr>bufs := B\<rparr>" "\<And>j. bcore (B j) = bcore (bufs s1 j)" by (auto simp: same_but_links_def)
  have run: "brelse i s = Done () t"
  proof -
    let ?s1 = "woken (ChSleepBuf i) (upd_buf i (\<lambda>r. r\<lparr>b_lock := l\<rparr>) s) {0..<NPROC}"
    have hs: "held ?s1 = []" using h by (simp add: upd_buf_def)
    have e: "upd_buf i (\<lambda>r. r\<lparr>b_refcnt := b_refcnt r - 1\<rparr>) (?s1\<lparr>held := [BcacheLock]\<rparr>) = s1\<lparr>held := [BcacheLock]\<rparr>"
      unfolding s1_def up by (simp add: upd_buf_def woken_def c_def cong: if_cong)
    have rl: "brelink i (s1\<lparr>held := [BcacheLock]\<rparr>) = (brelink i s1)\<lparr>held := [BcacheLock]\<rparr>"
      by (simp add: brelink_def Let_def)
    have hb: "held (brelink i s1) = []" using h B(1) sbl brelink_same [of s1 i]
      by (auto simp: same_but_links_def s1_def s0_def)
    have h1: "held s1 = []" using h by (simp add: s1_def s0_def)
    have bc: "b_refcnt (bufs s1 i) = c" by (simp add: s1_def s0_def)
    show ?thesis
      using holdingsleep_mine [OF h] b releasesleep_eq [OF h(1), of "BufSlk i"] hs hb h1 bc rl e
      by (simp add: brelse_def bheld_def l_def [symmetric] t_def Let_def)
  qed
  have core: "bcore (bufs t j) = bcore (bufs s0 j)" for j using B by (simp add: s1_def)
  have dt: "dsk t = dsk s0" using B by (simp add: s1_def)
  note A = babs_cong [OF core dt]
  have fr: "bframe s t"
  proof -
    have "bframe s s1" unfolding s1_def s0_def by (rule bframe_woken)
    moreover have "bframe s1 t" unfolding B(1) by (rule bframe_bufs)
    ultimately show ?thesis by (rule bframe_trans)
  qed
  have "\<exists>xs. ring t xs"
  proof -
    obtain xs where "ring s0 xs" using S(1) by (auto simp: binv_def)
    then have r1: "ring s1 xs" by (simp add: ring_def s1_def)
    then obtain ys zs where xs: "xs = ys @ i # zs" using i by (metis atLeastLessThan_iff le0 ring_def split_list)
    show ?thesis using ring_relink [of s1 ys i zs] r1 xs by (auto simp: t_def)
  qed
  then have inv': "binv t" using S(1) A by (simp add: binv_def)
  have hd: "bheld t j d b' = bheld s0 j d b'" for j d b'
    using bframeD(8) [OF fr] bframeD(8) [OF S(3)] A by (simp add: bheld_def)
  have "bsame s t bn" using S(4) by (simp add: bsame_def A hd)
  moreover have "dsk t = dsk s" "dwrites t = dwrites s" using B by (simp_all add: s1_def s0_def)
  ultimately show ?thesis
    using run inv' fr S(5-8) uc c0 rc(2)
    by (intro exI [of _ t]) (auto simp: A l_def split: if_splits)
qed

text \<open>The client writes to the data of a buffer it holds, pins and unpins it.\<close>

lemma bput_spec:
  assumes inv: "binv s" and b: "rheld s i bn" and len: "length v = BSIZE"
    and t: "t = upd_buf i (\<lambda>r. r\<lparr>b_data := v\<rparr>) s"
  shows "binv t" "bframe s t" "bsame s t bn" "rview t bn = v" "rrefs t bn = rrefs s bn" "rlckd t bn = rlckd s bn"
    "inuse t = inuse s" "rheld t i bn" "dsk t = dsk s" "dwrites t = dwrites s"
proof -
  let ?r = "bufs s i"
  note B = bheldD [OF inv b]
  have "?r\<lparr>b_lock := b_lock ?r, b_refcnt := b_refcnt ?r, b_data := v\<rparr> = ?r\<lparr>b_data := v\<rparr>"
    by (rule buf.equality) simp_all
  then have t': "t = s\<lparr>bufs := (bufs s)(i := ?r\<lparr>b_lock := b_lock ?r, b_refcnt := b_refcnt ?r, b_data := v\<rparr>)\<rparr>"
    by (simp add: t upd_buf_def)
  have z: "b_refcnt ?r = 0 \<Longrightarrow> \<not> slk_locked (b_lock ?r) \<and> v = dsk s (unat bn)" using B(4) by simp
  note S = bset_spec [OF inv B(6,5) len z t']
  show "binv t" "bframe s t" "bsame s t bn" "rview t bn = v" "rrefs t bn = rrefs s bn" "rlckd t bn = rlckd s bn"
    using S B by (simp_all add: lckd_def)
  show "inuse t = inuse s" using S(8) B by (simp add: unsigned_eq_0_iff)
  show "dsk t = dsk s" "dwrites t = dwrites s" by (simp_all add: t upd_buf_def)
  have "b_valid (bufs t i)" "b_lock (bufs t i) = b_lock (bufs s i)" by (simp_all add: t upd_buf_def B)
  then show "rheld t i bn" using b S(2,6) B(6,7) bframeD(8) [OF S(3)] by (simp add: bheld_def)
qed

lemma bpin_spec:
  assumes inv: "binv s" and h: "held s = []" and b: "rheld s i bn" and lim: "rrefs s bn + 1 < 2 ^ 32"
    and t: "t = upd_buf i (\<lambda>r. r\<lparr>b_refcnt := b_refcnt r + 1\<rparr>) s"
  shows "bpin i s = Done () t" "binv t" "bframe s t" "bsame s t bn" "rview t bn = rview s bn"
    "rrefs t bn = rrefs s bn + 1" "rlckd t bn = rlckd s bn" "inuse t = inuse s" "rheld t i bn"
    "dsk t = dsk s" "dwrites t = dwrites s"
proof -
  let ?r = "bufs s i"
  let ?c = "b_refcnt ?r + 1"
  note B = bheldD [OF inv b]
  show "bpin i s = Done () t" using h by (simp add: bpin_def t)
  have v: "b_data ?r = rview s bn" using bheld_view [OF b] .
  have "?r\<lparr>b_lock := b_lock ?r, b_refcnt := ?c, b_data := b_data ?r\<rparr> = ?r\<lparr>b_refcnt := ?c\<rparr>"
    by (rule buf.equality) simp_all
  then have t': "t = s\<lparr>bufs := (bufs s)(i := ?r\<lparr>b_lock := b_lock ?r, b_refcnt := ?c, b_data := b_data ?r\<rparr>)\<rparr>"
    by (simp add: t upd_buf_def)
  have uc: "unat ?c = rrefs s bn + 1" using lim B(7) by (simp add: unat_word_ariths)
  then have nz: "?c \<noteq> 0" by auto
  have len: "length (b_data ?r) = BSIZE" using inv B(1) by (simp add: binv_def bsize_def)
  have z: "?c = 0 \<Longrightarrow> \<not> slk_locked (b_lock ?r) \<and> b_data ?r = dsk s (unat bn)" using nz by simp
  note S = bset_spec [OF inv B(6,5) len z t']
  show "binv t" "bframe s t" "bsame s t bn" "rview t bn = rview s bn" "rrefs t bn = rrefs s bn + 1"
    "rlckd t bn = rlckd s bn"
    using S B uc v by (simp_all add: lckd_def)
  show "inuse t = inuse s" using S(8) B nz by (simp add: unsigned_eq_0_iff)
  show "dsk t = dsk s" "dwrites t = dwrites s" by (simp_all add: t upd_buf_def)
  have "b_valid (bufs t i)" "b_lock (bufs t i) = b_lock (bufs s i)" by (simp_all add: t upd_buf_def B)
  then show "rheld t i bn" using b S(2,6) B(6) uc bframeD(8) [OF S(3)] by (simp add: bheld_def)
qed

lemma bunpin_spec:
  assumes inv: "binv s" and h: "held s = []" and b: "rheld s i bn" and two: "2 \<le> rrefs s bn"
    and t: "t = upd_buf i (\<lambda>r. r\<lparr>b_refcnt := b_refcnt r - 1\<rparr>) s"
  shows "bunpin i s = Done () t" "binv t" "bframe s t" "bsame s t bn" "rview t bn = rview s bn"
    "rrefs t bn + 1 = rrefs s bn" "rlckd t bn = rlckd s bn" "inuse t = inuse s" "rheld t i bn"
    "dsk t = dsk s" "dwrites t = dwrites s"
proof -
  let ?r = "bufs s i"
  let ?c = "b_refcnt ?r - 1"
  note B = bheldD [OF inv b]
  show "bunpin i s = Done () t" using h by (simp add: bunpin_def t)
  have v: "b_data ?r = rview s bn" using bheld_view [OF b] .
  have "?r\<lparr>b_lock := b_lock ?r, b_refcnt := ?c, b_data := b_data ?r\<rparr> = ?r\<lparr>b_refcnt := ?c\<rparr>"
    by (rule buf.equality) simp_all
  then have t': "t = s\<lparr>bufs := (bufs s)(i := ?r\<lparr>b_lock := b_lock ?r, b_refcnt := ?c, b_data := b_data ?r\<rparr>)\<rparr>"
    by (simp add: t upd_buf_def)
  have uc: "unat ?c + 1 = rrefs s bn" using two B(4,7) by (simp add: unat_minus_one)
  then have nz: "?c \<noteq> 0" using two by auto
  have len: "length (b_data ?r) = BSIZE" using inv B(1) by (simp add: binv_def bsize_def)
  have z: "?c = 0 \<Longrightarrow> \<not> slk_locked (b_lock ?r) \<and> b_data ?r = dsk s (unat bn)" using nz by simp
  note S = bset_spec [OF inv B(6,5) len z t']
  show "binv t" "bframe s t" "bsame s t bn" "rview t bn = rview s bn" "rrefs t bn + 1 = rrefs s bn"
    "rlckd t bn = rlckd s bn"
    using S B uc v by (simp_all add: lckd_def)
  show "inuse t = inuse s" using S(8) B nz by (simp add: unsigned_eq_0_iff)
  show "dsk t = dsk s" "dwrites t = dwrites s" by (simp_all add: t upd_buf_def)
  have "b_valid (bufs t i)" "b_lock (bufs t i) = b_lock (bufs s i)" by (simp_all add: t upd_buf_def B)
  then show "rheld t i bn" using b S(2,6) B(6) uc two bframeD(8) [OF S(3)] by (simp add: bheld_def)
qed

section \<open>Initialisation\<close>

definition fresh_buf :: "buf \<Rightarrow> bool" where
  "fresh_buf r \<longleftrightarrow> \<not> b_valid r \<and> b_dev r = 0 \<and> b_refcnt r = 0 \<and> length (b_data r) = BSIZE"

lemma binit_step_effect:
  assumes "b \<noteq> bhead" "nxt s bhead \<noteq> b"
  shows "\<exists>t. binit_step b s = Done () t \<and> nxt t = (nxt s)(b := nxt s bhead, bhead := b)
    \<and> prv t = (prv s)(b := bhead, nxt s bhead := b) \<and> t = s\<lparr>bufs := bufs t\<rparr>
    \<and> (\<forall>j. fresh_buf (bufs s j) \<longrightarrow> fresh_buf (bufs t j))
    \<and> b_lock (bufs t b) = \<lparr>slk_locked = False, slk_pid = 0\<rparr> \<and> (\<forall>j. j \<noteq> b \<longrightarrow> b_lock (bufs t j) = b_lock (bufs s j))"
  using assms by (auto simp: binit_step_def initsleeplock_def upd_buf_def Let_def fun_eq_iff fresh_buf_def)

lemma binit_spec:
  assumes fresh: "\<forall>i < NBUF. fresh_buf (bufs s i)" and disk: "\<forall>n. length (dsk s n) = BSIZE"
  shows "\<exists>t. binit s = Done () t \<and> binv t \<and> t = s\<lparr>bufs := bufs t\<rparr> \<and> inuse t = 0"
proof -
  let ?s = "upd_buf bhead (\<lambda>r. r\<lparr>b_prev := bhead, b_next := bhead\<rparr>) s"
  define P where "P ys t \<longleftrightarrow> chain (nxt t) bhead (rev ys) bhead \<and> chain (prv t) bhead ys bhead
    \<and> (\<forall>i < NBUF. fresh_buf (bufs t i)) \<and> (\<forall>i \<in> set ys. \<not> slk_locked (b_lock (bufs t i)))
    \<and> t = s\<lparr>bufs := bufs t\<rparr>" for ys t
  have "\<exists>t. foreach binit_step [0..<NBUF] ?s = Done () t \<and> P [0..<NBUF] t"
  proof (rule foreach_inv)
    show "P [] ?s" using fresh by (auto simp: P_def upd_buf_def bhead_def)
  next
    fix ys b zs t
    assume xs: "[0..<NBUF] = ys @ b # zs" and P: "P ys t"
    have st: "{0..<NBUF} = set ys \<union> {b} \<union> set zs" "distinct (ys @ b # zs)"
      using arg_cong [OF xs, of set] arg_cong [OF xs, of distinct] by auto
    then have b: "b \<notin> set (bhead # ys)" "bhead \<notin> set ys" "distinct ys" "b \<noteq> bhead"
      using arg_cong [OF xs, of set] by (auto simp: bhead_def)
    have n: "chain (nxt t) bhead (rev ys) bhead" and p: "chain (prv t) bhead ys bhead" using P by (simp_all add: P_def)
    have hd: "nxt t bhead = last (bhead # ys)" using chain_hd [OF n] last_rev_hd [of bhead "rev ys"] by simp
    have "last (bhead # ys) \<in> set (bhead # ys)" by (rule last_in_set) simp
    then have "nxt t bhead \<noteq> b" using hd b by metis
    from binit_step_effect [OF b(4) this] obtain u where u: "binit_step b t = Done () u"
      "nxt u = (nxt t)(b := nxt t bhead, bhead := b)" "prv u = (prv t)(b := bhead, nxt t bhead := b)"
      "u = t\<lparr>bufs := bufs u\<rparr>" "\<forall>j. fresh_buf (bufs t j) \<longrightarrow> fresh_buf (bufs u j)"
      "b_lock (bufs u b) = \<lparr>slk_locked = False, slk_pid = 0\<rparr>" "\<forall>j. j \<noteq> b \<longrightarrow> b_lock (bufs u j) = b_lock (bufs t j)"
      by blast
    have "chain (nxt u) bhead (rev (ys @ [b])) bhead" unfolding u(2) using chain_push [OF n, of b] b by simp
    moreover have "chain (prv u) bhead (ys @ [b]) bhead" unfolding u(3) hd using chain_snoc [OF p] b by simp
    moreover have "\<forall>i \<in> set (ys @ [b]). \<not> slk_locked (b_lock (bufs u i))"
      using P u(6,7) by (auto simp: P_def) (metis sleeplock.select_convs(1))
    moreover have "u = s\<lparr>bufs := bufs u\<rparr>"
    proof -
      have "t\<lparr>bufs := bufs u\<rparr> = s\<lparr>bufs := bufs u\<rparr>"
      proof -
        have "t = s\<lparr>bufs := bufs t\<rparr>" using P unfolding P_def by blast
        then show ?thesis by (rule ssubst) simp
      qed
      then show ?thesis using u(4) by simp
    qed
    ultimately have "P (ys @ [b]) u" using P u(5) by (auto simp: P_def)
    then show "\<exists>t'. binit_step b t = Done () t' \<and> P (ys @ [b]) t'" using u(1) by blast
  qed
  then obtain t where t: "binit s = Done () t" "P [0..<NBUF] t" by (auto simp: binit_def Let_def)
  have r: "ring t (rev [0..<NBUF])" using t(2) by (auto simp: P_def ring_def)
  have fr: "fresh_buf (bufs t i)" "\<not> slk_locked (b_lock (bufs t i))" if "i < NBUF" for i
    using t(2) that by (auto simp: P_def)
  have "t = s\<lparr>bufs := bufs t\<rparr>" using t(2) unfolding P_def by blast
  then have "dsk t = dsk s" by (rule ssubst) simp
  then have "binv t" using r fr disk by (auto simp: binv_def buniq_def bclean_def bsize_def fresh_buf_def)
  moreover have "{i. i < NBUF \<and> b_refcnt (bufs t i) \<noteq> 0} = {}" using fr by (auto simp: fresh_buf_def)
  then have "inuse t = 0" unfolding inuse_def by simp
  ultimately show ?thesis using t by (auto simp: P_def)
qed

lemma unreferenced:
  assumes "binv s" "rrefs s bn = 0"
  shows "\<not> rlckd s bn" "rview s bn = dsk s (unat bn)"
proof -
  have "\<not> slk_locked (b_lock (bufs s i)) \<and> (b_valid (bufs s i) \<longrightarrow> b_data (bufs s i) = dsk s (unat bn))"
    if "bidx s ROOTDEV bn = Some i" for i
  proof -
    have "i < NBUF" "b_blockno (bufs s i) = bn"
      using that assms(1) bidx_Some_iff [of s ROOTDEV bn i] by (auto simp: binv_def)
    moreover have "b_refcnt (bufs s i) = 0" using assms(2) that by (simp add: refs_def unsigned_eq_0_iff)
    ultimately show ?thesis using assms(1) unfolding binv_def bclean_def by auto
  qed
  then show "\<not> rlckd s bn" "rview s bn = dsk s (unat bn)"
    by (auto simp: lckd_def view_def split: option.split)
qed

lemma inuse_0_refs:
  assumes "binv s" "inuse s = 0"
  shows "rrefs s bn = 0"
proof -
  have "{i. i < NBUF \<and> b_refcnt (bufs s i) \<noteq> 0} = {}" using assms(2) by (simp add: inuse_def)
  then have "b_refcnt (bufs s i) = 0" if "i < NBUF" for i using that by blast
  moreover have "i < NBUF" if "bidx s ROOTDEV bn = Some i" for i
    using that assms(1) bidx_Some_iff [of s ROOTDEV bn i] by (auto simp: binv_def)
  ultimately show ?thesis by (auto simp: refs_def split: option.split)
qed

text \<open>Reading a block, changing it, writing it and releasing it.\<close>

lemma rmw_spec:
  assumes "binv s" "held s = []" "curproc s = Some p" "\<not> rlckd s bn"
    "rrefs s bn = 0 \<Longrightarrow> inuse s < NBUF" "rrefs s bn + 1 < 2 ^ 32" "length v = BSIZE"
  shows "\<exists>i t. bread ROOTDEV bn s = Done i t \<and> b_data (bufs t i) = rview s bn \<and> rlckd t bn \<and>
    (\<exists>u. bnd (bwrite i (upd_buf i (\<lambda>r. r\<lparr>b_data := v\<rparr>) t)) (\<lambda>_. brelse i) = Done () u \<and> binv u \<and> bframe s u \<and> bframe s t
      \<and> dsk u = (dsk s)(unat bn := v) \<and> dwrites u = dwrites s @ [(unat bn, v)] \<and> inuse u = inuse s
      \<and> (\<forall>b. rview u b = (if b = bn then v else rview s b) \<and> rrefs u b = rrefs s b \<and> rlckd u b = rlckd s b))"
proof -
  obtain i t where t: "bread ROOTDEV bn s = Done i t" "binv t" "bframe s t" "rheld t i bn" "bsame s t bn"
    "dsk t = dsk s" "dwrites t = dwrites s" "inuse t = inuse s + (if rrefs s bn = 0 then 1 else 0)"
    "rview t bn = rview s bn" "rrefs t bn = rrefs s bn + 1" "rlckd t bn"
    using bread_spec [OF assms(1-6)] by blast
  define u where "u = upd_buf i (\<lambda>r. r\<lparr>b_data := v\<rparr>) t"
  note U = bput_spec [OF t(2,4) assms(7) u_def]
  have hu: "held u = []" "curproc u = Some p"
    using assms(2,3) bframeD(1,2) [OF t(3)] bframeD(1,2) [OF U(2)] by simp_all
  define w where "w = u\<lparr>dsk := (dsk u)(unat bn := rview u bn), dwrites := dwrites u @ [(unat bn, rview u bn)]\<rparr>"
  note W = bwrite_spec [OF U(1) hu U(8) w_def]
  have hw: "held w = []" "curproc w = Some p" using hu by (simp_all add: w_def)
  have dw: "dsk w = (dsk s)(unat bn := v)" "dwrites w = dwrites s @ [(unat bn, v)]"
    using U(4,9,10) t(6,7) by (simp_all add: w_def)
  have "rview w bn = dsk w (unat bn)" using W(5) U(4) dw(1) by simp
  then obtain x where x: "brelse i w = Done () x" "binv x" "bsame w x bn" "bframe w x" "dsk x = dsk w" "dwrites x = dwrites w"
    "rview x bn = rview w bn" "rrefs x bn + 1 = rrefs w bn" "\<not> rlckd x bn"
    "inuse x + (if rrefs w bn = 1 then 1 else 0) = inuse w"
    using brelse_spec [OF W(2) hw, of i bn] W(9) U(8) by auto
  have "rview x b = (if b = bn then v else rview s b) \<and> rrefs x b = rrefs s b \<and> rlckd x b = rlckd s b" for b
    using t(5,10) U(3-6) W(5-7) x(3,7-9) assms(4) by (cases "b = bn") (auto simp: bsame_def)
  moreover have "inuse x = inuse s" using t(8,10) U(5,7) W(6,8) x(10) by (simp split: if_splits)
  ultimately show ?thesis
    using t(1,4,9,11) bheld_view [OF t(4)] W(1) x(1,2,5,6) dw bframe_trans [OF bframe_trans [OF bframe_trans [OF t(3) U(2)] W(3)] x(4)] t(3)
    by (intro exI [of _ i] exI [of _ t] conjI exI [of _ x]) (simp_all add: u_def)
qed

section \<open>Properties\<close>

text \<open>The state after \<open>binit\<close>, with a process running, for examples.\<close>

definition bio0 :: kstate where
  "bio0 = (case binit (kboot0\<lparr>curproc := Some 0\<rparr>) of Done _ s \<Rightarrow> s | Stop _ s \<Rightarrow> s)"

lemma bio0:
  "binit (kboot0\<lparr>curproc := Some 0\<rparr>) = Done () bio0" "binv bio0" "held bio0 = []" "curproc bio0 = Some 0"
  "rrefs bio0 bn = 0" "\<not> rlckd bio0 bn" "inuse bio0 = 0" "dsk bio0 = (\<lambda>_. replicate BSIZE 0)"
proof -
  obtain t where t: "binit (kboot0\<lparr>curproc := Some 0\<rparr>) = Done () t" "binv t"
    "t = (kboot0\<lparr>curproc := Some 0\<rparr>)\<lparr>bufs := bufs t\<rparr>" "inuse t = 0"
    using binit_spec [of "kboot0\<lparr>curproc := Some 0\<rparr>"] by (auto simp: fresh_buf_def buf0_def)
  have b: "bio0 = t" by (simp add: bio0_def t(1))
  show "binit (kboot0\<lparr>curproc := Some 0\<rparr>) = Done () bio0" "binv bio0" "inuse bio0 = 0"
    using t b by simp_all
  show "held bio0 = []" "curproc bio0 = Some 0" "dsk bio0 = (\<lambda>_. replicate BSIZE 0)"
    unfolding b by (subst t(3), simp)+
  show "rrefs bio0 bn = 0" using inuse_0_refs [OF t(2,4)] b by simp
  then show "\<not> rlckd bio0 bn" using unreferenced(1) t(2) b by simp
qed

text \<open>C22: \<open>binit\<close> turns the zeroed buffers of a freshly loaded kernel into a well-formed empty cache: the list
  is a ring of all buffers, none is referenced or locked, and nothing else of the kernel changes.\<close>

theorem binit_establishes_cache:
  assumes "\<forall>i < NBUF. fresh_buf (bufs s i)" "\<forall>n. length (dsk s n) = BSIZE"
  shows "\<exists>t. binit s = Done () t \<and> binv t \<and> inuse t = 0 \<and> t = s\<lparr>bufs := bufs t\<rparr>"
  using binit_spec [OF assms] by blast

theorem binit_establishes_cache_witness:
  "\<exists>t. binit kboot0 = Done () t \<and> binv t \<and> inuse t = 0 \<and> t = kboot0\<lparr>bufs := bufs t\<rparr>"
  by (rule binit_establishes_cache) (simp_all add: fresh_buf_def buf0_def)

text \<open>C7: The cache is transparent: \<open>bread\<close> of an unlocked block returns a locked buffer with the
  block's current content; filling the buffer with a new content and calling \<open>bwrite\<close> and \<open>brelse\<close>
  changes exactly that block, on the disk and in what later reads see, and leaves the invariant, the locks and
  all reference counts as they were.\<close>

theorem bcache_read_modify_write:
  assumes "binv s" "held s = []" "curproc s = Some p" "\<not> rlckd s bn"
    "rrefs s bn = 0 \<Longrightarrow> inuse s < NBUF" "rrefs s bn + 1 < 2 ^ 32" "length v = BSIZE"
  shows "\<exists>i t. bread ROOTDEV bn s = Done i t \<and> b_data (bufs t i) = rview s bn \<and> rlckd t bn \<and>
    (\<exists>u. bnd (bwrite i (upd_buf i (\<lambda>r. r\<lparr>b_data := v\<rparr>) t)) (\<lambda>_. brelse i) = Done () u \<and> binv u
      \<and> dsk u = (dsk s)(unat bn := v) \<and> dwrites u = dwrites s @ [(unat bn, v)] \<and> inuse u = inuse s
      \<and> (\<forall>b. rview u b = (if b = bn then v else rview s b) \<and> rrefs u b = rrefs s b \<and> rlckd u b = rlckd s b))"
  using rmw_spec [OF assms] by blast

theorem bcache_read_modify_write_witness:
  "\<exists>i t. bread ROOTDEV 7 bio0 = Done i t \<and> b_data (bufs t i) = rview bio0 7 \<and> rlckd t 7 \<and>
    (\<exists>u. bnd (bwrite i (upd_buf i (\<lambda>r. r\<lparr>b_data := replicate BSIZE 1\<rparr>) t)) (\<lambda>_. brelse i) = Done () u \<and> binv u
      \<and> dsk u = (dsk bio0)(7 := replicate BSIZE 1) \<and> dwrites u = dwrites bio0 @ [(7, replicate BSIZE 1)]
      \<and> inuse u = inuse bio0
      \<and> (\<forall>b. rview u b = (if b = 7 then replicate BSIZE 1 else rview bio0 b) \<and> rrefs u b = rrefs bio0 b
        \<and> rlckd u b = rlckd bio0 b))"
  using bcache_read_modify_write [OF bio0(2-4), of 7 "replicate BSIZE 1"] bio0(5-7) by (simp add: NBUF_def MAXOPBLOCKS_def)

text \<open>C21: When every buffer is referenced and the block is in none of them, \<open>bread\<close> panics with
  \<open>bget: no buffers\<close>; it does not steal a buffer in use.\<close>

theorem bread_out_of_buffers:
  assumes "binv s" "held s = []" "rrefs s bn = 0" "inuse s = NBUF"
  shows "bread ROOTDEV bn s = Stop (Panic ''bget: no buffers'') (s\<lparr>held := [BcacheLock]\<rparr>)"
proof -
  obtain xs where r: "ring s xs" using assms(1) by (auto simp: binv_def)
  have u: "buniq s" using assms(1) by (simp add: binv_def)
  let ?s = "s\<lparr>held := [BcacheLock]\<rparr>"
  have rs: "ring ?s xs" using r by (simp add: ring_def)
  have "{i. i < NBUF \<and> b_refcnt (bufs s i) \<noteq> 0} = {..<NBUF}"
    using assms(4) unfolding inuse_def by (intro card_subset_eq) auto
  then have used: "b_refcnt (bufs s i) \<noteq> 0" if "i < NBUF" for i using that by blast
  have none: "bidx s ROOTDEV bn = None"
  proof (cases "bidx s ROOTDEV bn")
    case (Some i)
    then have "i < NBUF" using bidx_Some_iff [OF u ROOTDEV_nz] by auto
    then show ?thesis using used assms(3) Some by (simp add: refs_def unsigned_eq_0_iff)
  qed
  have 1: "bscan NBUF (nxt ?s) (\<lambda>b. b_dev (bufs ?s b) = ROOTDEV \<and> b_blockno (bufs ?s b) = bn) (nxt ?s bhead) = Some None"
    using ring_scan(1) [OF rs] find_ring [OF r u ROOTDEV_nz, of bn] none by simp
  have 2: "bscan NBUF (prv ?s) (\<lambda>b. b_refcnt (bufs ?s b) = 0) (prv ?s bhead) = Some None"
    using ring_scan(2) [OF rs] used r by (auto simp: find_None_iff ring_def)
  show ?thesis using 1 2 assms(2) by (simp add: bread_def bget_def)
qed

definition full0 :: kstate where
  "full0 = bio0\<lparr>bufs := \<lambda>i. (bufs bio0 i)\<lparr>b_refcnt := 1, b_dev := 0, b_valid := False\<rparr>\<rparr>"

lemma full0: "binv full0" "held full0 = []" "rrefs full0 bn = 0" "inuse full0 = NBUF"
proof -
  have "ring full0 xs = ring bio0 xs" for xs by (simp add: full0_def ring_def)
  then show "binv full0"
    using bio0(2) by (auto simp: binv_def buniq_def bclean_def bsize_def) (simp_all add: full0_def)
  show "held full0 = []" using bio0(3) by (simp add: full0_def)
  have "bidx full0 ROOTDEV bn = None" by (auto simp: bidx_None_iff) (simp add: full0_def)
  then show "rrefs full0 bn = 0" by (simp add: refs_def)
  have "{i. i < NBUF \<and> b_refcnt (bufs full0 i) \<noteq> 0} = {..<NBUF}" by (auto simp: full0_def)
  then show "inuse full0 = NBUF" by (simp add: inuse_def)
qed

theorem bread_out_of_buffers_witness:
  "bread ROOTDEV 7 full0 = Stop (Panic ''bget: no buffers'') (full0\<lparr>held := [BcacheLock]\<rparr>)"
  using full0 by (rule bread_out_of_buffers)

end
