(* ===== verification/Log.thy ===== *)
theory Log
  imports Bio
begin

text \<open>
  The write-ahead log (\<open>kernel/log.c\<close>).  The definitions follow the C functions over the buffer
  cache; the on-disk header is read and written as the C structure, at byte offsets of the
  block.  The lemmas say what each step of writing or installing one block does to the cache and the
  disk; theory \<open>Logtx\<close> builds commit, recovery and the crash theorems from them.
\<close>

section \<open>The code\<close>

definition hd_n :: "block \<Rightarrow> int" where "hd_n b = sint (get32 b 0)"
definition hd_block :: "block \<Rightarrow> nat \<Rightarrow> int" where "hd_block b i = sint (get32 b (4 + 4 * i))"

abbreviation log_dev :: "kstate \<Rightarrow> uint" where "log_dev s \<equiv> word_of_int (l_dev (lg s))"

abbreviation set_lh :: "(logheader \<Rightarrow> logheader) \<Rightarrow> kstate \<Rightarrow> kstate" where
  "set_lh f \<equiv> upd_log (\<lambda>l. l\<lparr>l_lh := f (l_lh l)\<rparr>)"

definition install_one :: "bool \<Rightarrow> nat \<Rightarrow> kstate \<Rightarrow> unit kres" where
  "install_one recovering tail s =
    bnd (if recovering
         then bnd (printf (txt_of ''recovering tail %d dst %d'' @ [10])
             [VWord (of_nat tail), VWord (word_of_int (lh_block (l_lh (lg s)) ! tail))] s) (\<lambda>_ s. Done () s)
         else Done () s) (\<lambda>_ s.
    bnd (bread (log_dev s) (word_of_int (l_start (lg s) + int tail + 1)) s) (\<lambda>lbuf s.
    bnd (bread (log_dev s) (word_of_int (lh_block (l_lh (lg s)) ! tail)) s) (\<lambda>dbuf s.
    let s = upd_buf dbuf (\<lambda>r. r\<lparr>b_data := b_data (bufs s lbuf)\<rparr>) s in
    bnd (bwrite dbuf s) (\<lambda>_ s.
    bnd (if \<not> recovering then bunpin dbuf s else Done () s) (\<lambda>_ s.
    bnd (brelse lbuf s) (\<lambda>_ s. brelse dbuf s))))))"

definition install_trans :: "bool \<Rightarrow> kstate \<Rightarrow> unit kres" where
  "install_trans recovering s = foreach (install_one recovering) [0..<nat (lh_n (l_lh (lg s)))] s"

definition read_head :: "kstate \<Rightarrow> unit kres" where
  "read_head s =
    bnd (bread (log_dev s) (word_of_int (l_start (lg s))) s) (\<lambda>b s.
    let s = set_lh (\<lambda>lh. lh\<lparr>lh_n := hd_n (b_data (bufs s b))\<rparr>) s in
    bnd (foreach (\<lambda>i s.
        if i < LOGBLOCKS
        then Done () (set_lh (\<lambda>lh. lh\<lparr>lh_block := (lh_block lh)[i := hd_block (b_data (bufs s b)) i]\<rparr>) s)
        else Stop (Fault ''log.lh.block'') s) [0..<nat (lh_n (l_lh (lg s)))] s) (\<lambda>_ s.
    brelse b s))"

definition write_head :: "kstate \<Rightarrow> unit kres" where
  "write_head s =
    bnd (bread (log_dev s) (word_of_int (l_start (lg s))) s) (\<lambda>b s.
    let s = upd_buf b (\<lambda>r. r\<lparr>b_data := put32 (b_data r) 0 (word_of_int (lh_n (l_lh (lg s))))\<rparr>) s in
    bnd (foreach (\<lambda>i s. Done () (upd_buf b (\<lambda>r. r\<lparr>b_data :=
        put32 (b_data r) (4 + 4 * i) (word_of_int (lh_block (l_lh (lg s)) ! i))\<rparr>) s))
      [0..<nat (lh_n (l_lh (lg s)))] s) (\<lambda>_ s.
    bnd (bwrite b s) (\<lambda>_ s. brelse b s)))"

definition recover_from_log :: "kstate \<Rightarrow> unit kres" where
  "recover_from_log s =
    bnd (read_head s) (\<lambda>_ s.
    bnd (install_trans True s) (\<lambda>_ s.
    write_head (set_lh (\<lambda>lh. lh\<lparr>lh_n := 0\<rparr>) s)))"

definition initlog :: "int \<Rightarrow> superblock \<Rightarrow> kstate \<Rightarrow> unit kres" where
  "initlog dev b s =
    (if 4 + 4 * LOGBLOCKS \<ge> BSIZE then panic ''initlog: too big logheader'' s
     else let s = upd_log (\<lambda>l. l\<lparr>l_start := sint (sb_logstart b)\<rparr>) s;
              s = upd_log (\<lambda>l. l\<lparr>l_dev := dev\<rparr>) s in
       recover_from_log s)"

definition begin_op_loop :: "kstate \<Rightarrow> unit kres" where
  "begin_op_loop s =
    (if l_committing (lg s) then sleep ChLog LogLock s
     else if lh_n (l_lh (lg s)) + (l_outstanding (lg s) + 1) * int MAXOPBLOCKS > int LOGBLOCKS
     then sleep ChLog LogLock s
     else krelease LogLock (upd_log (\<lambda>l. l\<lparr>l_outstanding := l_outstanding l + 1\<rparr>) s))"

definition begin_op :: "kstate \<Rightarrow> unit kres" where
  "begin_op s = bnd (kacquire LogLock s) (\<lambda>_ s. begin_op_loop s)"

definition begin_op_resume :: "kstate \<Rightarrow> unit kres" where
  "begin_op_resume s = bnd (sleep_resume LogLock s) (\<lambda>_ s. begin_op_loop s)"

definition write_log_one :: "nat \<Rightarrow> kstate \<Rightarrow> unit kres" where
  "write_log_one tail s =
    bnd (bread (log_dev s) (word_of_int (l_start (lg s) + int tail + 1)) s) (\<lambda>dst s.
    bnd (bread (log_dev s) (word_of_int (lh_block (l_lh (lg s)) ! tail)) s) (\<lambda>src s.
    let s = upd_buf dst (\<lambda>r. r\<lparr>b_data := b_data (bufs s src)\<rparr>) s in
    bnd (bwrite dst s) (\<lambda>_ s.
    bnd (brelse src s) (\<lambda>_ s. brelse dst s))))"

definition write_log :: "kstate \<Rightarrow> unit kres" where
  "write_log s = foreach write_log_one [0..<nat (lh_n (l_lh (lg s)))] s"

definition commit :: "kstate \<Rightarrow> unit kres" where
  "commit s =
    (if lh_n (l_lh (lg s)) > 0
     then bnd (write_log s) (\<lambda>_ s.
       bnd (write_head s) (\<lambda>_ s.
       bnd (install_trans False s) (\<lambda>_ s.
       write_head (set_lh (\<lambda>lh. lh\<lparr>lh_n := 0\<rparr>) s))))
     else Done () s)"

definition end_op :: "kstate \<Rightarrow> unit kres" where
  "end_op s =
    bnd (kacquire LogLock s) (\<lambda>_ s.
    let s = upd_log (\<lambda>l. l\<lparr>l_outstanding := l_outstanding l - 1\<rparr>) s in
    if l_committing (lg s) then panic ''log.committing'' s
    else if l_outstanding (lg s) = 0
    then let s = upd_log (\<lambda>l. l\<lparr>l_committing := True\<rparr>) s in
      bnd (krelease LogLock s) (\<lambda>_ s.
      bnd (commit s) (\<lambda>_ s.
      bnd (kacquire LogLock s) (\<lambda>_ s.
      let s = upd_log (\<lambda>l. l\<lparr>l_committing := False\<rparr>) s in
      bnd (wakeup ChLog s) (\<lambda>_ s. krelease LogLock s))))
    else bnd (wakeup ChLog s) (\<lambda>_ s. krelease LogLock s))"

fun absorb :: "uint \<Rightarrow> int list \<Rightarrow> nat \<Rightarrow> nat" where
  "absorb bn [] i = i"
| "absorb bn (x # xs) i = (if word_of_int x = bn then i else absorb bn xs (i + 1))"

definition log_write :: "nat \<Rightarrow> kstate \<Rightarrow> unit kres" where
  "log_write b s =
    bnd (kacquire LogLock s) (\<lambda>_ s.
    if lh_n (l_lh (lg s)) \<ge> int LOGBLOCKS then panic ''too big a transaction'' s
    else if l_outstanding (lg s) < 1 then panic ''log_write outside of trans'' s
    else let n = nat (lh_n (l_lh (lg s)));
             i = absorb (b_blockno (bufs s b)) (take n (lh_block (l_lh (lg s)))) 0;
             s = set_lh (\<lambda>lh. lh\<lparr>lh_block := (lh_block lh)[i := sint (b_blockno (bufs s b))]\<rparr>) s in
      if i = n
      then bnd (bpin b s) (\<lambda>_ s.
        krelease LogLock (set_lh (\<lambda>lh. lh\<lparr>lh_n := lh_n lh + 1\<rparr>) s))
      else krelease LogLock s)"

section \<open>The header block\<close>

definition put_head :: "block \<Rightarrow> int list \<Rightarrow> block" where
  "put_head B xs = fold (\<lambda>i B. put32 B (4 + 4 * i) (word_of_int (xs ! i))) [0..<length xs]
     (put32 B 0 (word_of_int (int (length xs))))"

lemma put_head_loop:
  assumes "length B = BSIZE" "n \<le> LOGBLOCKS"
  shows "length (fold (\<lambda>i B. put32 B (4 + 4 * i) (f i)) [0..<n] B) = BSIZE
    \<and> get32 (fold (\<lambda>i B. put32 B (4 + 4 * i) (f i)) [0..<n] B) 0 = get32 B 0
    \<and> (\<forall>k < n. get32 (fold (\<lambda>i B. put32 B (4 + 4 * i) (f i)) [0..<n] B) (4 + 4 * k) = f k)"
  using assms(2)
proof (induction n)
  case 0
  then show ?case using assms(1) by simp
next
  case (Suc n)
  then have "4 + 4 * n + 4 \<le> BSIZE" by (simp add: LOGBLOCKS_def MAXOPBLOCKS_def BSIZE_def)
  with Suc show ?case
    by (auto simp: get32_put32_other get32_put32_same less_Suc_eq)
qed

lemma put_head:
  assumes "length B = BSIZE" "length xs \<le> LOGBLOCKS"
  shows "length (put_head B xs) = BSIZE" "hd_n (put_head B xs) = int (length xs)"
    "k < length xs \<Longrightarrow> word_of_int (hd_block (put_head B xs) k) = (word_of_int (xs ! k) :: uint)"
proof -
  have b: "length (put32 B 0 (word_of_int (int (length xs)))) = BSIZE"
    using assms(1) by (simp add: BSIZE_def)
  note h = put_head_loop [OF b assms(2), of "\<lambda>i. word_of_int (xs ! i)", folded put_head_def]
  show "length (put_head B xs) = BSIZE" using h by simp
  have "get32 (put_head B xs) 0 = word_of_int (int (length xs))"
    using h assms(1) by (simp add: get32_put32_same BSIZE_def)
  then show "hd_n (put_head B xs) = int (length xs)"
    using assms(2) by (simp add: hd_n_def signed_of_nat signed_take_bit_int_eq_self LOGBLOCKS_def MAXOPBLOCKS_def)
  show "word_of_int (hd_block (put_head B xs) k) = (word_of_int (xs ! k) :: uint)" if "k < length xs"
    using h that by (simp add: hd_block_def)
qed

section \<open>One block written through the cache\<close>

text \<open>\<open>bwrote s u bn v d\<close>: between \<open>s\<close> and \<open>u\<close> block \<open>bn\<close> got content \<open>v\<close>, on the disk and in the cache, by one
  disk write, and lost \<open>d\<close> references; nothing else changed for a client of the cache.\<close>

definition bwrote :: "kstate \<Rightarrow> kstate \<Rightarrow> uint \<Rightarrow> block \<Rightarrow> nat \<Rightarrow> bool" where
  "bwrote s u bn v d \<longleftrightarrow> binv u \<and> bframe s u \<and> dsk u = (dsk s)(unat bn := v)
    \<and> dwrites u = dwrites s @ [(unat bn, v)] \<and> inuse u \<le> inuse s
    \<and> (\<forall>b. rview u b = (if b = bn then v else rview s b) \<and> rrefs u b + (if b = bn then d else 0) = rrefs s b
      \<and> rlckd u b = rlckd s b)"

lemma upd_buf_upd_buf [simp]: "upd_buf b f (upd_buf b g s) = upd_buf b (\<lambda>r. f (g r)) s"
  by (simp add: upd_buf_def)

lemma lg_upd_buf [simp]: "lg (upd_buf b f s) = lg s"
  by (simp add: upd_buf_def)

lemma length_rview:
  assumes "binv s"
  shows "length (rview s bn) = BSIZE"
proof (cases "bidx s ROOTDEV bn")
  case (Some i)
  then have "i < NBUF" using assms bidx_Some_iff [of s ROOTDEV bn i] by (auto simp: binv_def)
  then show ?thesis using Some assms by (simp add: view_def binv_def bsize_def)
next
  case None
  then show ?thesis using assms by (simp add: view_def binv_def bsize_def)
qed

lemma write_head_loop:
  "foreach (\<lambda>i s. Done () (upd_buf b (\<lambda>r. r\<lparr>b_data :=
       put32 (b_data r) (4 + 4 * i) (word_of_int (lh_block (l_lh (lg s)) ! i))\<rparr>) s)) is s
   = Done () (upd_buf b (\<lambda>r. r\<lparr>b_data :=
       fold (\<lambda>i B. put32 B (4 + 4 * i) (word_of_int (lh_block (l_lh (lg s)) ! i))) is (b_data r)\<rparr>) s)"
  by (induction "is" arbitrary: s) (simp_all add: upd_buf_def)

definition lblocks :: "kstate \<Rightarrow> int list" where
  "lblocks s = take (nat (lh_n (l_lh (lg s)))) (lh_block (l_lh (lg s)))"

abbreviation hblk :: "kstate \<Rightarrow> uint" where "hblk s \<equiv> word_of_int (l_start (lg s))"

definition log_geo :: "kstate \<Rightarrow> bool" where
  "log_geo s \<longleftrightarrow> l_dev (lg s) = 1 \<and> 0 \<le> l_start (lg s) \<and> l_start (lg s) + 31 < 2 ^ 31
    \<and> length (lh_block (l_lh (lg s))) = LOGBLOCKS \<and> 0 \<le> lh_n (l_lh (lg s)) \<and> lh_n (l_lh (lg s)) \<le> int LOGBLOCKS"

lemma log_geoD:
  assumes "log_geo s"
  shows "log_dev s = ROOTDEV" "length (lblocks s) = nat (lh_n (l_lh (lg s)))" "length (lblocks s) \<le> LOGBLOCKS"
    "int (length (lblocks s)) = lh_n (l_lh (lg s))"
    "i < length (lblocks s) \<Longrightarrow> lh_block (l_lh (lg s)) ! i = lblocks s ! i"
  using assms by (auto simp: log_geo_def lblocks_def ROOTDEV_def)

lemma log_geo_frame: "bframe s t \<Longrightarrow> log_geo t = log_geo s" "bframe s t \<Longrightarrow> lblocks t = lblocks s"
  by (simp_all add: log_geo_def lblocks_def bframeD(4))

text \<open>No spin lock held and a process running: the context of every file-system operation.\<close>

definition calm :: "kstate \<Rightarrow> bool" where
  "calm s \<longleftrightarrow> held s = [] \<and> curproc s \<noteq> None"

lemma calm_frame: "bframe s t \<Longrightarrow> calm t = calm s"
  by (simp add: calm_def bframeD(1,2))

lemma calmE: "calm s \<Longrightarrow> (\<And>p. held s = [] \<Longrightarrow> curproc s = Some p \<Longrightarrow> P) \<Longrightarrow> P"
  by (auto simp: calm_def)

lemma write_head_spec:
  assumes inv: "binv s" and c: "calm s" and g: "log_geo s"
    and b: "\<not> rlckd s (hblk s)" "inuse s < NBUF" "rrefs s (hblk s) + 1 < 2 ^ 32"
  shows "\<exists>u. write_head s = Done () u \<and> bwrote s u (hblk s) (put_head (rview s (hblk s)) (lblocks s)) 0"
proof -
  obtain p where hp: "held s = []" "curproc s = Some p" using c by (rule calmE)
  let ?bn = "hblk s" and ?v = "put_head (rview s (hblk s)) (lblocks s)"
  note G = log_geoD [OF g]
  have lv: "length (rview s ?bn) = BSIZE" by (rule length_rview [OF inv])
  obtain i t u where t: "bread ROOTDEV ?bn s = Done i t" "b_data (bufs t i) = rview s ?bn"
    and u: "bnd (bwrite i (upd_buf i (\<lambda>r. r\<lparr>b_data := ?v\<rparr>) t)) (\<lambda>_. brelse i) = Done () u" "binv u" "bframe s u" "bframe s t"
      "dsk u = (dsk s)(unat ?bn := ?v)" "dwrites u = dwrites s @ [(unat ?bn, ?v)]" "inuse u = inuse s"
      "\<forall>b. rview u b = (if b = ?bn then ?v else rview s b) \<and> rrefs u b = rrefs s b \<and> rlckd u b = rlckd s b"
    using rmw_spec [OF inv hp b(1) _ b(3) put_head(1) [OF lv G(3)]] b(2) by blast
  have l: "lg t = lg s" using bframeD(4) [OF u(4)] .
  have "fold (\<lambda>i B. put32 B (4 + 4 * i) (word_of_int (lh_block (l_lh (lg s)) ! i))) [0..<nat (lh_n (l_lh (lg s)))]
      (put32 (b_data (bufs t i)) 0 (word_of_int (lh_n (l_lh (lg s))))) = ?v"
    unfolding put_head_def t(2) G(4) [symmetric] nat_int by (rule fold_cong) (simp_all add: G(5))
  then have "upd_buf i (\<lambda>r. r\<lparr>b_data := fold (\<lambda>i B. put32 B (4 + 4 * i) (word_of_int (lh_block (l_lh (lg s)) ! i)))
      [0..<nat (lh_n (l_lh (lg s)))] (put32 (b_data r) 0 (word_of_int (lh_n (l_lh (lg s)))))\<rparr>) t
      = upd_buf i (\<lambda>r. r\<lparr>b_data := ?v\<rparr>) t"
    by (simp add: upd_buf_def)
  then have "write_head s = Done () u"
    using t(1) u(1) l by (simp add: write_head_def G(1) Let_def write_head_loop)
  then show ?thesis using u by (simp add: bwrote_def)
qed

section \<open>Two blocks\<close>

lemma bsameD:
  assumes "bsame s t a" "x \<noteq> a"
  shows "rview t x = rview s x" "rrefs t x = rrefs s x" "rlckd t x = rlckd s x" "rheld s j x \<Longrightarrow> rheld t j x"
  using assms by (simp_all add: bsame_def)

lemma bread2_spec:
  assumes inv: "binv s" and c: "calm s" and ne: "a \<noteq> b" and nl: "\<not> rlckd s a" "\<not> rlckd s b"
    and room: "inuse s + (if rrefs s b = 0 then 1 else 0) < NBUF" and lim: "rrefs s a + 1 < 2 ^ 32" "rrefs s b + 1 < 2 ^ 32"
  shows "\<exists>i j t u. bread ROOTDEV a s = Done i t \<and> bread ROOTDEV b t = Done j u \<and> binv u \<and> bframe s t \<and> bframe s u
    \<and> rheld u i a \<and> rheld u j b \<and> dsk u = dsk s \<and> dwrites u = dwrites s \<and> (\<forall>x. rview u x = rview s x)
    \<and> (\<forall>x. rrefs u x = rrefs s x + (if x = a \<or> x = b then 1 else 0))
    \<and> (\<forall>x. rlckd u x = (x = a \<or> x = b \<or> rlckd s x))
    \<and> inuse u = inuse s + (if rrefs s a = 0 then 1 else 0) + (if rrefs s b = 0 then 1 else 0)"
proof -
  obtain p where hp: "held s = []" "curproc s = Some p" using c by (rule calmE)
  obtain i t where t: "bread ROOTDEV a s = Done i t" "binv t" "bframe s t" "rheld t i a" "bsame s t a"
    "dsk t = dsk s" "dwrites t = dwrites s" "inuse t = inuse s + (if rrefs s a = 0 then 1 else 0)"
    "rview t a = rview s a" "rrefs t a = rrefs s a + 1" "rlckd t a"
    using bread_spec [OF inv hp nl(1) _ lim(1)] room by auto
  have sb: "rview t b = rview s b" "rrefs t b = rrefs s b" "rlckd t b = rlckd s b"
    using bsameD [OF t(5), of b] ne by simp_all
  have hp': "held t = []" "curproc t = Some p" using hp bframeD(1,2) [OF t(3)] by simp_all
  have "rrefs t b = 0 \<Longrightarrow> inuse t < NBUF" using room t(8) sb(2) by (simp split: if_splits)
  then obtain j u where u: "bread ROOTDEV b t = Done j u" "binv u" "bframe t u" "rheld u j b" "bsame t u b"
    "dsk u = dsk t" "dwrites u = dwrites t" "inuse u = inuse t + (if rrefs t b = 0 then 1 else 0)"
    "rview u b = rview t b" "rrefs u b = rrefs t b + 1" "rlckd u b"
    using bread_spec [OF t(2) hp', of b] nl(2) lim(2) sb by auto
  have "rheld u i a" using bsameD(4) [OF u(5)] t(4) ne by blast
  moreover have "rview u x = rview s x \<and> rrefs u x = rrefs s x + (if x = a \<or> x = b then 1 else 0)
      \<and> rlckd u x = (x = a \<or> x = b \<or> rlckd s x)" for x
    using bsameD(1-3) [OF t(5), of x] bsameD(1-3) [OF u(5), of x] t(9-11) u(9-11) ne sb
    by (cases "x = a"; cases "x = b") simp_all
  moreover have "inuse u = inuse s + (if rrefs s a = 0 then 1 else 0) + (if rrefs s b = 0 then 1 else 0)"
    using u(8) t(8) sb by simp
  ultimately show ?thesis
    using t(1,3,6,7) u(1-4,6,7) bframe_trans [OF t(3) u(3)]
    by (intro exI [of _ i] exI [of _ j] exI [of _ t] exI [of _ u]) simp
qed

lemma brelse2_spec:
  assumes inv: "binv s" and c: "calm s" and ne: "a \<noteq> b" and h: "rheld s i a" "rheld s j b"
    and cl: "rrefs s a = 1 \<Longrightarrow> rview s a = dsk s (unat a)" "rrefs s b = 1 \<Longrightarrow> rview s b = dsk s (unat b)"
  shows "\<exists>u. bnd (brelse i s) (\<lambda>_. brelse j) = Done () u \<and> binv u \<and> bframe s u
    \<and> dsk u = dsk s \<and> dwrites u = dwrites s \<and> (\<forall>x. rview u x = rview s x)
    \<and> (\<forall>x. rrefs u x + (if x = a \<or> x = b then 1 else 0) = rrefs s x)
    \<and> (\<forall>x. rlckd u x = (x \<noteq> a \<and> x \<noteq> b \<and> rlckd s x))
    \<and> inuse u + (if rrefs s a = 1 then 1 else 0) + (if rrefs s b = 1 then 1 else 0) = inuse s"
proof -
  obtain p where hp: "held s = []" "curproc s = Some p" using c by (rule calmE)
  obtain t where t: "brelse i s = Done () t" "binv t" "bframe s t" "bsame s t a" "dsk t = dsk s" "dwrites t = dwrites s"
    "rview t a = rview s a" "rrefs t a + 1 = rrefs s a" "\<not> rlckd t a" "inuse t + (if rrefs s a = 1 then 1 else 0) = inuse s"
    using brelse_spec [OF inv hp h(1) cl(1)] by auto
  have sb: "rview t b = rview s b" "rrefs t b = rrefs s b" "rheld t j b" 
    using bsameD [OF t(4), of b] ne h(2) by simp_all
  have hp': "held t = []" "curproc t = Some p" using hp bframeD(1,2) [OF t(3)] by simp_all
  obtain u where u: "brelse j t = Done () u" "binv u" "bframe t u" "bsame t u b" "dsk u = dsk t" "dwrites u = dwrites t"
    "rview u b = rview t b" "rrefs u b + 1 = rrefs t b" "\<not> rlckd u b" "inuse u + (if rrefs t b = 1 then 1 else 0) = inuse t"
    using brelse_spec [OF t(2) hp' sb(3)] cl(2) sb t(5) by auto
  have "rview u x = rview s x \<and> rrefs u x + (if x = a \<or> x = b then 1 else 0) = rrefs s x
      \<and> rlckd u x = (x \<noteq> a \<and> x \<noteq> b \<and> rlckd s x)" for x
    using bsameD(1-3) [OF t(4), of x] bsameD(1-3) [OF u(4), of x] t(7-9) u(7-9) ne sb(1,2)
    by (cases "x = a"; cases "x = b") simp_all
  moreover have "inuse u + (if rrefs s a = 1 then 1 else 0) + (if rrefs s b = 1 then 1 else 0) = inuse s"
    using u(10) t(10) sb by simp
  ultimately show ?thesis
    using t(1,5,6) u(1,2,5,6) bframe_trans [OF t(3) u(3)] by (intro exI [of _ u]) simp
qed

lemma bstore_spec:
  assumes inv: "binv s" and c: "calm s" and h: "rheld s i a" and len: "length v = BSIZE"
  shows "\<exists>w. bwrite i (upd_buf i (\<lambda>r. r\<lparr>b_data := v\<rparr>) s) = Done () w \<and> binv w \<and> bframe s w
    \<and> dsk w = (dsk s)(unat a := v) \<and> dwrites w = dwrites s @ [(unat a, v)] \<and> inuse w = inuse s
    \<and> (\<forall>x. rview w x = (if x = a then v else rview s x)) \<and> (\<forall>x. rrefs w x = rrefs s x)
    \<and> (\<forall>x. rlckd w x = rlckd s x) \<and> (\<forall>j b. b \<noteq> a \<longrightarrow> rheld s j b \<longrightarrow> rheld w j b) \<and> rheld w i a"
proof -
  define u where "u = upd_buf i (\<lambda>r. r\<lparr>b_data := v\<rparr>) s"
  note U = bput_spec [OF inv h len u_def]
  obtain p where hu: "held u = []" "curproc u = Some p"
    using c calm_frame [OF U(2)] by (auto elim: calmE)
  define w where "w = u\<lparr>dsk := (dsk u)(unat a := rview u a), dwrites := dwrites u @ [(unat a, rview u a)]\<rparr>"
  note W = bwrite_spec [OF U(1) hu U(8) w_def]
  have dw: "dsk w = (dsk s)(unat a := v)" "dwrites w = dwrites s @ [(unat a, v)]"
    using U(4,9,10) by (simp_all add: w_def)
  have "rview w x = (if x = a then v else rview s x)" "rrefs w x = rrefs s x" "rlckd w x = rlckd s x" for x
    using U(4-6) W(5-7) bsameD(1-3) [OF U(3), of x] by (cases "x = a"; simp)+
  moreover have "rheld w j b" if "b \<noteq> a" "rheld s j b" for j b
    using bsameD(4) [OF U(3) that] W(9) by simp
  ultimately show ?thesis
    using W(1,2,8,9) U(7,8) dw bframe_trans [OF U(2) W(3)] by (intro exI [of _ w]) (simp add: u_def)
qed

section \<open>The log's block numbers\<close>

definition area :: "kstate \<Rightarrow> nat set" where
  "area s = {nat (l_start (lg s)) .. nat (l_start (lg s)) + LOGBLOCKS}"

abbreviation lblk :: "kstate \<Rightarrow> nat \<Rightarrow> uint" where "lblk s k \<equiv> word_of_int (l_start (lg s) + int k + 1)"
abbreviation home :: "kstate \<Rightarrow> nat \<Rightarrow> uint" where "home s k \<equiv> word_of_int (lblocks s ! k)"

lemma unat_lblk:
  assumes "log_geo s" "k < LOGBLOCKS"
  shows "unat (lblk s k) = nat (l_start (lg s)) + k + 1" "unat (hblk s) = nat (l_start (lg s))"
proof -
  have "unat (word_of_int j :: uint) = nat j" if "0 \<le> j" "j < 2 ^ 31" for j
    using that by (simp add: unsigned_of_int take_bit_int_eq_self)
  note u = this
  show "unat (lblk s k) = nat (l_start (lg s)) + k + 1" "unat (hblk s) = nat (l_start (lg s))"
    using assms u [of "l_start (lg s) + int k + 1"] u [of "l_start (lg s)"]
    by (simp_all add: log_geo_def LOGBLOCKS_def MAXOPBLOCKS_def nat_add_distrib)
qed

lemma lblk_area:
  assumes "log_geo s" "k < LOGBLOCKS"
  shows "unat (lblk s k) \<in> area s" "unat (hblk s) \<in> area s" "unat (lblk s k) \<noteq> unat (hblk s)"
    "j < LOGBLOCKS \<Longrightarrow> unat (lblk s j) = unat (lblk s k) \<longleftrightarrow> j = k"
  using unat_lblk [OF assms] unat_lblk [OF assms(1), of j] assms(2) by (auto simp: area_def)

section \<open>Copying between log and home\<close>

lemma write_log_one_spec:
  assumes inv: "binv s" and c: "calm s" and g: "log_geo s" and k: "k < length (lblocks s)"
    and ne: "home s k \<noteq> lblk s k" and nl: "\<not> rlckd s (lblk s k)" "\<not> rlckd s (home s k)"
    and pin: "rrefs s (home s k) \<noteq> 0" and room: "inuse s < NBUF"
    and lim: "rrefs s (lblk s k) + 1 < 2 ^ 32" "rrefs s (home s k) + 1 < 2 ^ 32"
  shows "\<exists>u. write_log_one k s = Done () u \<and> bwrote s u (lblk s k) (rview s (home s k)) 0"
proof -
  let ?a = "lblk s k" and ?b = "home s k"
  have "inuse s + (if rrefs s ?b = 0 then 1 else 0) < NBUF" using room pin by simp
  then obtain i j t u where u: "bread ROOTDEV ?a s = Done i t" "bread ROOTDEV ?b t = Done j u" "binv u" "bframe s t" "bframe s u"
    "rheld u i ?a" "rheld u j ?b" "dsk u = dsk s" "dwrites u = dwrites s" "\<forall>x. rview u x = rview s x"
    "\<forall>x. rrefs u x = rrefs s x + (if x = ?a \<or> x = ?b then 1 else 0)" "\<forall>x. rlckd u x = (x = ?a \<or> x = ?b \<or> rlckd s x)"
    "inuse u = inuse s + (if rrefs s ?a = 0 then 1 else 0) + (if rrefs s ?b = 0 then 1 else 0)"
    using bread2_spec [OF inv c ne [symmetric] nl _ lim] by blast
  have cu: "calm u" using c calm_frame [OF u(5)] by simp
  obtain w where w: "bwrite i (upd_buf i (\<lambda>r. r\<lparr>b_data := rview s ?b\<rparr>) u) = Done () w" "binv w" "bframe u w"
    "dsk w = (dsk u)(unat ?a := rview s ?b)" "dwrites w = dwrites u @ [(unat ?a, rview s ?b)]" "inuse w = inuse u"
    "\<forall>x. rview w x = (if x = ?a then rview s ?b else rview u x)" "\<forall>x. rrefs w x = rrefs u x"
    "\<forall>x. rlckd w x = rlckd u x" "\<forall>j b. b \<noteq> ?a \<longrightarrow> rheld u j b \<longrightarrow> rheld w j b" "rheld w i ?a"
    using bstore_spec [OF u(3) cu u(6) length_rview [OF inv]] by blast
  have cw: "calm w" using cu calm_frame [OF w(3)] by simp
  have hj: "rheld w j ?b" using w(10) u(7) ne by blast
  have "rrefs w ?b \<noteq> 1" using w(8) u(11) pin by simp
  moreover have "rview w ?a = dsk w (unat ?a)" using w(4,7) by simp
  ultimately obtain x where x: "bnd (brelse j w) (\<lambda>_. brelse i) = Done () x" "binv x" "bframe w x" "dsk x = dsk w"
    "dwrites x = dwrites w" "\<forall>y. rview x y = rview w y" "\<forall>y. rrefs x y + (if y = ?b \<or> y = ?a then 1 else 0) = rrefs w y"
    "\<forall>y. rlckd x y = (y \<noteq> ?b \<and> y \<noteq> ?a \<and> rlckd w y)"
    "inuse x + (if rrefs w ?b = 1 then 1 else 0) + (if rrefs w ?a = 1 then 1 else 0) = inuse w"
    using brelse2_spec [OF w(2) cw ne hj w(11)] by blast
  have lt: "lg t = lg s" and d: "b_data (bufs u j) = rview s ?b"
    using bframeD(4) [OF u(4)] bheld_view [OF u(7)] u(10) by simp_all
  have "write_log_one k s = Done () x"
    using u(1,2) w(1) x(1) log_geoD(1,5) [OF g] k lt by (simp add: write_log_one_def d)
  moreover have "rview x y = (if y = ?a then rview s ?b else rview s y) \<and> rrefs x y = rrefs s y \<and> rlckd x y = rlckd s y" for y
    using x(6-8) [rule_format, of y] w(7-9) [rule_format, of y] u(10-12) [rule_format, of y] nl
    by (simp split: if_splits)
  moreover have "inuse x \<le> inuse s" using x(9) w(6,8) u(11,13) pin by (simp split: if_splits)
  ultimately show ?thesis
    using x(2,4,5) w(4,5) u(8,9) bframe_trans [OF bframe_trans [OF u(5) w(3)] x(3)]
    by (intro exI [of _ x]) (simp add: bwrote_def)
qed

text \<open>Installing one block; \<open>d\<close> is the reference given up by \<open>bunpin\<close>.\<close>

definition unpin_if :: "bool \<Rightarrow> nat \<Rightarrow> kstate \<Rightarrow> unit kres" where
  "unpin_if b i s = (if b then bunpin i s else Done () s)"

lemma unpin_if_spec:
  assumes inv: "binv s" and c: "calm s" and h: "rheld s i a" and two: "b \<Longrightarrow> 2 \<le> rrefs s a"
  shows "\<exists>t. unpin_if b i s = Done () t \<and> binv t \<and> bframe s t \<and> (\<forall>x. rview t x = rview s x)
    \<and> (\<forall>x. rrefs t x + (if x = a \<and> b then 1 else 0) = rrefs s x) \<and> (\<forall>x. rlckd t x = rlckd s x)
    \<and> inuse t = inuse s \<and> dsk t = dsk s \<and> dwrites t = dwrites s
    \<and> rheld t i a \<and> (\<forall>j x. x \<noteq> a \<longrightarrow> rheld s j x \<longrightarrow> rheld t j x)"
proof (cases b)
  case True
  have hs: "held s = []" using c by (simp add: calm_def)
  define t where "t = upd_buf i (\<lambda>r. r\<lparr>b_refcnt := b_refcnt r - 1\<rparr>) s"
  note T = bunpin_spec [OF inv hs h two [OF True] t_def]
  have "rview t x = rview s x \<and> rrefs t x + (if x = a \<and> b then 1 else 0) = rrefs s x \<and> rlckd t x = rlckd s x" for x
    using bsameD(1-3) [OF T(4), of x] T(5-7) True by (cases "x = a") simp_all
  then show ?thesis
    using T True bsameD(4) [OF T(4)] by (intro exI [of _ t]) (simp add: unpin_if_def)
next
  case False
  then show ?thesis using inv h bframe_refl by (simp add: unpin_if_def)
qed

lemma install_copy_spec:
  assumes inv: "binv s" and c: "calm s" and ne: "a \<noteq> b" and nl: "\<not> rlckd s a" "\<not> rlckd s b"
    and pin: "unpin \<Longrightarrow> rrefs s b \<noteq> 0"
    and room: "inuse s + (if rrefs s b = 0 then 1 else 0) < NBUF"
    and lim: "rrefs s a + 1 < 2 ^ 32" "rrefs s b + 1 < 2 ^ 32"
  shows "\<exists>u. bnd (bread ROOTDEV a s) (\<lambda>lbuf s. bnd (bread ROOTDEV b s) (\<lambda>dbuf s.
      bnd (bwrite dbuf (upd_buf dbuf (\<lambda>r. r\<lparr>b_data := b_data (bufs s lbuf)\<rparr>) s)) (\<lambda>_ s.
      bnd (unpin_if unpin dbuf s) (\<lambda>_ s. bnd (brelse lbuf s) (\<lambda>_ s. brelse dbuf s))))) = Done () u
    \<and> bwrote s u b (rview s a) (if unpin then 1 else 0)"
proof -
  obtain i j t u where u: "bread ROOTDEV a s = Done i t" "bread ROOTDEV b t = Done j u" "binv u" "bframe s t" "bframe s u"
    "rheld u i a" "rheld u j b" "dsk u = dsk s" "dwrites u = dwrites s" "\<forall>x. rview u x = rview s x"
    "\<forall>x. rrefs u x = rrefs s x + (if x = a \<or> x = b then 1 else 0)" "\<forall>x. rlckd u x = (x = a \<or> x = b \<or> rlckd s x)"
    "inuse u = inuse s + (if rrefs s a = 0 then 1 else 0) + (if rrefs s b = 0 then 1 else 0)"
    using bread2_spec [OF inv c ne nl room lim] by blast
  have cu: "calm u" using c calm_frame [OF u(5)] by simp
  obtain w where w: "bwrite j (upd_buf j (\<lambda>r. r\<lparr>b_data := rview s a\<rparr>) u) = Done () w" "binv w" "bframe u w"
    "dsk w = (dsk u)(unat b := rview s a)" "dwrites w = dwrites u @ [(unat b, rview s a)]" "inuse w = inuse u"
    "\<forall>x. rview w x = (if x = b then rview s a else rview u x)" "\<forall>x. rrefs w x = rrefs u x"
    "\<forall>x. rlckd w x = rlckd u x" "\<forall>k x. x \<noteq> b \<longrightarrow> rheld u k x \<longrightarrow> rheld w k x" "rheld w j b"
    using bstore_spec [OF u(3) cu u(7) length_rview [OF inv]] by blast
  have cw: "calm w" using cu calm_frame [OF w(3)] by simp
  have hi: "rheld w i a" using w(10) u(6) ne by blast
  have two: "unpin \<Longrightarrow> 2 \<le> rrefs w b" using w(8) u(11) pin by fastforce
  obtain y where y: "unpin_if unpin j w = Done () y" "binv y" "bframe w y" "\<forall>x. rview y x = rview w x"
    "\<forall>x. rrefs y x + (if x = b \<and> unpin then 1 else 0) = rrefs w x" "\<forall>x. rlckd y x = rlckd w x" "inuse y = inuse w"
    "dsk y = dsk w" "dwrites y = dwrites w" "rheld y j b" "\<forall>k x. x \<noteq> b \<longrightarrow> rheld w k x \<longrightarrow> rheld y k x"
    using unpin_if_spec [OF w(2) cw w(11) two] by blast
  have cy: "calm y" using cw calm_frame [OF y(3)] by simp
  have hi': "rheld y i a" using y(11) hi ne by blast
  have ua: "unat a \<noteq> unat b" using ne by (simp add: word_unat_eq_iff)
  have "rview y a = dsk y (unat a)" if "rrefs y a = 1"
  proof -
    have "rrefs s a = 0" 
      using that y(5) [rule_format, of a] w(8) [rule_format, of a] u(11) [rule_format, of a] ne by simp
    then show ?thesis using unreferenced(2) [OF inv] y(4,8) w(4,7) u(8,10) ne ua by simp
  qed
  moreover have "rview y b = dsk y (unat b)" using w(4,7) y(4,8) by simp
  ultimately obtain x where x: "bnd (brelse i y) (\<lambda>_. brelse j) = Done () x" "binv x" "bframe y x" "dsk x = dsk y"
    "dwrites x = dwrites y" "\<forall>z. rview x z = rview y z" "\<forall>z. rrefs x z + (if z = a \<or> z = b then 1 else 0) = rrefs y z"
    "\<forall>z. rlckd x z = (z \<noteq> a \<and> z \<noteq> b \<and> rlckd y z)"
    "inuse x + (if rrefs y a = 1 then 1 else 0) + (if rrefs y b = 1 then 1 else 0) = inuse y"
    using brelse2_spec [OF y(2) cy ne hi' y(10)] by blast
  have d: "b_data (bufs u i) = rview s a" using bheld_view [OF u(6)] u(10) by simp
  have run: "bnd (bread ROOTDEV a s) (\<lambda>lbuf s. bnd (bread ROOTDEV b s) (\<lambda>dbuf s.
      bnd (bwrite dbuf (upd_buf dbuf (\<lambda>r. r\<lparr>b_data := b_data (bufs s lbuf)\<rparr>) s)) (\<lambda>_ s.
      bnd (unpin_if unpin dbuf s) (\<lambda>_ s. bnd (brelse lbuf s) (\<lambda>_ s. brelse dbuf s))))) = Done () x"
    using u(1,2) w(1) y(1) x(1) by (simp add: d)
  have f: "rview x z = (if z = b then rview s a else rview s z)
      \<and> rrefs x z + (if z = b then if unpin then 1 else 0 else 0) = rrefs s z \<and> rlckd x z = rlckd s z" for z
    using x(6-8) [rule_format, of z] y(4-6) [rule_format, of z] w(7-9) [rule_format, of z] u(10-12) [rule_format, of z] nl
    by (auto split: if_splits)
  have "rrefs y a = rrefs s a + 1" using y(5) [rule_format, of a] w(8) u(11) ne by simp
  moreover have "rrefs y b + (if unpin then 1 else 0) = rrefs s b + 1" using y(5) [rule_format, of b] w(8) u(11) by simp
  ultimately have "inuse x \<le> inuse s" using x(9) y(7) w(6) u(13) pin by (auto split: if_splits)
  then show ?thesis
    using run f x(2,4,5) y(8,9) w(4,5) u(8,9) bframe_trans [OF bframe_trans [OF bframe_trans [OF u(5) w(3)] y(3)] x(3)]
    by (intro exI [of _ x]) (simp add: bwrote_def)
qed

section \<open>Sequences of writes\<close>

definition apply_writes :: "('a \<Rightarrow> block) \<Rightarrow> ('a \<times> block) list \<Rightarrow> 'a \<Rightarrow> block" where
  "apply_writes D ws = fold (\<lambda>(n, v) D. D(n := v)) ws D"

lemma apply_writes_nil [simp]: "apply_writes D [] = D"
  by (simp add: apply_writes_def)

lemma apply_writes_snoc [simp]: "apply_writes D (ws @ [(n, v)]) = (apply_writes D ws)(n := v)"
  by (simp add: apply_writes_def)

lemma apply_writes_append: "apply_writes D (vs @ ws) = apply_writes (apply_writes D vs) ws"
  by (simp add: apply_writes_def)

lemma apply_writes_other: "n \<notin> fst ` set ws \<Longrightarrow> apply_writes D ws n = D n"
  by (induction ws rule: rev_induct) auto

lemma apply_writes_at:
  assumes "(n, v) \<in> set ws" "distinct (map fst ws)"
  shows "apply_writes D ws n = v"
  using assms by (induction ws rule: rev_induct) (auto simp: image_iff)

abbreviation on_disk :: "(uint \<times> block) list \<Rightarrow> (nat \<times> block) list" where
  "on_disk ws \<equiv> map (\<lambda>(b, v). (unat b, v)) ws"

definition bwrotes :: "kstate \<Rightarrow> kstate \<Rightarrow> (uint \<times> block) list \<Rightarrow> (uint \<Rightarrow> nat) \<Rightarrow> bool" where
  "bwrotes s u ws d \<longleftrightarrow> binv u \<and> bframe s u \<and> dsk u = apply_writes (dsk s) (on_disk ws)
    \<and> dwrites u = dwrites s @ on_disk ws \<and> inuse u \<le> inuse s
    \<and> (\<forall>b. rview u b = apply_writes (rview s) ws b \<and> rrefs u b + d b = rrefs s b \<and> rlckd u b = rlckd s b)"

lemma bwrotesD:
  assumes "bwrotes s u ws d"
  shows "binv u" "bframe s u" "dsk u = apply_writes (dsk s) (on_disk ws)" "dwrites u = dwrites s @ on_disk ws"
    "inuse u \<le> inuse s" "rview u b = apply_writes (rview s) ws b" "rrefs u b + d b = rrefs s b" "rlckd u b = rlckd s b"
  using assms by (simp_all add: bwrotes_def)

lemma bwrotes_refl: "binv s \<Longrightarrow> bwrotes s s [] (\<lambda>_. 0)"
  by (simp add: bwrotes_def bframe_refl)

lemma bwroteD:
  assumes "bwrote s u bn v d"
  shows "binv u" "bframe s u" "dsk u = (dsk s)(unat bn := v)" "dwrites u = dwrites s @ [(unat bn, v)]" "inuse u \<le> inuse s"
    "rview u b = (if b = bn then v else rview s b)" "rrefs u b + (if b = bn then d else 0) = rrefs s b"
    "rlckd u b = rlckd s b"
  using assms unfolding bwrote_def by blast+

lemma bwrotes_step:
  assumes "bwrotes s t ws d" "bwrote t u b v e"
  shows "bwrotes s u (ws @ [(b, v)]) (\<lambda>x. d x + (if x = b then e else 0))"
proof -
  note S = bwrotesD [OF assms(1)] and T = bwroteD [OF assms(2)]
  have "rrefs u x + (d x + (if x = b then e else 0)) = rrefs s x" for x
    using S(7) [of x] T(7) [of x] by simp
  moreover have "rview u x = apply_writes (rview s) (ws @ [(b, v)]) x" for x using S(6) [of x] T(6) [of x] by simp
  ultimately show ?thesis
    unfolding bwrotes_def using S T bframe_trans [OF S(2) T(2)] by simp
qed

lemma bwrotes_trans:
  assumes "bwrotes s t vs d" "bwrotes t u ws e"
  shows "bwrotes s u (vs @ ws) (\<lambda>x. d x + e x)"
proof -
  have "rrefs u x + (d x + e x) = rrefs s x" for x
    using bwrotesD(7) [OF assms(1), of x] bwrotesD(7) [OF assms(2), of x] by simp
  moreover have "rview t = apply_writes (rview s) vs" using bwrotesD(6) [OF assms(1)] by blast
  moreover have "bframe s u" using bwrotesD(2) [OF assms(1)] bwrotesD(2) [OF assms(2)] by (rule bframe_trans)
  ultimately show ?thesis
    unfolding bwrotes_def using bwrotesD [OF assms(1)] bwrotesD [OF assms(2)] by (simp add: apply_writes_append)
qed

text \<open>The blocks the log works on are free to use: not locked, and not about to overflow their counts.\<close>

definition homes :: "kstate \<Rightarrow> uint list" where "homes s = map word_of_int (lblocks s)"

definition log_free :: "kstate \<Rightarrow> bool" where
  "log_free s \<longleftrightarrow> (\<forall>b. unat b \<in> area s \<or> b \<in> set (homes s) \<longrightarrow> \<not> rlckd s b \<and> rrefs s b + 1 < 2 ^ 32)"

lemma homes_nth: "k < length (lblocks s) \<Longrightarrow> homes s ! k = home s k" "length (homes s) = length (lblocks s)"
  "k < length (lblocks s) \<Longrightarrow> home s k \<in> set (homes s)"
  by (simp_all add: homes_def)

lemma log_frame:
  assumes "bframe s t"
  shows "lblocks t = lblocks s" "homes t = homes s" "area t = area s" "l_start (lg t) = l_start (lg s)"
  using bframeD(4) [OF assms] by (simp_all add: lblocks_def homes_def area_def)

lemma log_free_keep:
  assumes "bwrotes s t ws d" "log_free s"
  shows "log_free t"
proof -
  have "rrefs t b \<le> rrefs s b" for b using bwrotesD(7) [OF assms(1), of b] by simp
  then show ?thesis
    using assms(2) bwrotesD(8) [OF assms(1)] log_frame [OF bwrotesD(2) [OF assms(1)]]
    unfolding log_free_def by (metis add_le_mono1 le_less_trans)
qed

lemma write_log_spec:
  assumes inv: "binv s" and c: "calm s" and g: "log_geo s" and fr: "log_free s" and room: "inuse s < NBUF"
    and out: "\<forall>b \<in> set (homes s). unat b \<notin> area s \<and> rrefs s b \<noteq> 0"
  shows "\<exists>t. write_log s = Done () t
    \<and> bwrotes s t (map (\<lambda>k. (lblk s k, rview s (home s k))) [0..<length (lblocks s)]) (\<lambda>_. 0)"
proof -
  define P where "P ks t \<longleftrightarrow> bwrotes s t (map (\<lambda>k. (lblk s k, rview s (home s k))) ks) (\<lambda>_. 0)" for ks t
  have "\<exists>t. foreach write_log_one [0..<length (lblocks s)] s = Done () t \<and> P [0..<length (lblocks s)] t"
  proof (rule foreach_inv)
    show "P [] s" using bwrotes_refl [OF inv] by (simp add: P_def)
  next
    fix ys k zs t
    assume xs: "[0..<length (lblocks s)] = ys @ k # zs" and "P ys t"
    then have P: "bwrotes s t (map (\<lambda>k. (lblk s k, rview s (home s k))) ys) (\<lambda>_. 0)" by (simp add: P_def)
    note B = bwrotesD [OF P] and F = log_frame [OF bwrotesD(2) [OF P]]
    have sx: "set ys \<subseteq> {0..<length (lblocks s)}" "k < length (lblocks s)" using arg_cong [OF xs, of set] by auto
    then have k: "k < LOGBLOCKS" using log_geoD(3) [OF g] by simp
    have hk: "unat (home s k) \<notin> area s" "rrefs s (home s k) \<noteq> 0" using out homes_nth(3) [OF sx(2)] by auto
    have la: "unat (lblk s j) \<in> area s" if "j \<in> set (k # ys)" for j
      using that sx log_geoD(3) [OF g] by (intro lblk_area(1) [OF g]) auto
    have vk: "rview t (home s k) = rview s (home s k)"
      unfolding B(6) by (rule apply_writes_other) (use la hk in auto)
    have free: "log_free t" using log_free_keep [OF P fr] .
    have "\<exists>u. write_log_one k t = Done () u \<and> bwrote t u (lblk t k) (rview t (home t k)) 0"
    proof (rule write_log_one_spec [OF B(1)])
      show "calm t" "log_geo t" using c g calm_frame [OF B(2)] log_geo_frame(1) [OF B(2)] by simp_all
      show "k < length (lblocks t)" "inuse t < NBUF" using sx F room B(5) by simp_all
      show "home t k \<noteq> lblk t k" using la [of k] hk F by auto
      show "rrefs t (home t k) \<noteq> 0" using hk B(7) [of "home s k"] F by simp
      show "\<not> rlckd t (lblk t k)" "\<not> rlckd t (home t k)" "rrefs t (lblk t k) + 1 < 2 ^ 32" "rrefs t (home t k) + 1 < 2 ^ 32"
        using free la [of k] homes_nth(3) [OF sx(2)] F unfolding log_free_def by simp_all
    qed
    then obtain u where u: "write_log_one k t = Done () u" "bwrote t u (lblk s k) (rview s (home s k)) 0"
      using F vk by auto
    have "P (ys @ [k]) u" using bwrotes_step [OF P u(2)] by (simp add: P_def)
    then show "\<exists>u. write_log_one k t = Done () u \<and> P (ys @ [k]) u" using u(1) by blast
  qed
  then show ?thesis using log_geoD(2) [OF g] by (simp add: write_log_def P_def)
qed

end
