(* ===== verification/Logtx.thy ===== *)
theory Logtx
  imports Log
begin

text \<open>
  Transactions of the log: commit and recovery as the exact sequence of disk writes they issue, what
  \<open>log_write\<close> and \<open>begin_op\<close> keep of a transaction being built, and the consequences for crashes: a crash keeps
  a prefix of the writes issued, and recovery from any prefix leaves all or none of the transaction.
\<close>

section \<open>Installing the transaction\<close>

lemma babs_sent [simp]:
  "view (sent s n bs) = view s" "refs (sent s n bs) = refs s" "lckd (sent s n bs) = lckd s" "inuse (sent s n bs) = inuse s"
  "binv (sent s n bs) = binv s"
proof -
  let ?t = "sent s n bs"
  have B: "bcore (bufs ?t i) = bcore (bufs s i)" "dsk ?t = dsk s" for i by simp_all
  note S = babs_cong [of ?t s, OF B]
  show "view ?t = view s" "refs ?t = refs s" "lckd ?t = lckd s" "inuse ?t = inuse s" using S by simp_all
  show "binv ?t = binv s" using S by (simp add: binv_def ring_def)
qed

lemma bwrote_sent: "bwrote (sent s n bs) u b v d \<Longrightarrow> bwrote s u b v d"
  using bframe_trans [OF bframe_sent, of s n bs u] by (simp add: bwrote_def)

lemma recovering_text:
  "\<exists>bs. fmt_text (txt_of ''recovering tail %d dst %d'' @ [10]) [VWord a, VWord b] = Some bs"
  by (simp add: txt_of_def chr_def fmt_text.simps at0_def conv_text_def Let_def)

lemma install_one_spec:
  assumes inv: "binv s" and c: "calm s" and g: "log_geo s" and k: "k < length (lblocks s)"
    and u: "recovering \<Longrightarrow> uart_ok s"
    and ne: "lblk s k \<noteq> home s k" and nl: "\<not> rlckd s (lblk s k)" "\<not> rlckd s (home s k)"
    and pin: "\<not> recovering \<Longrightarrow> rrefs s (home s k) \<noteq> 0" and room: "inuse s + (if rrefs s (home s k) = 0 then 1 else 0) < NBUF"
    and lim: "rrefs s (lblk s k) + 1 < 2 ^ 32" "rrefs s (home s k) + 1 < 2 ^ 32"
  shows "\<exists>u. install_one recovering k s = Done () u
    \<and> bwrote s u (home s k) (rview s (lblk s k)) (if recovering then 0 else 1)"
proof -
  define X where "X t = bnd (bread ROOTDEV (lblk s k) t) (\<lambda>lbuf s'. bnd (bread ROOTDEV (home s k) s') (\<lambda>dbuf s.
      bnd (bwrite dbuf (upd_buf dbuf (\<lambda>r. r\<lparr>b_data := b_data (bufs s lbuf)\<rparr>) s)) (\<lambda>_ s.
      bnd (unpin_if (\<not> recovering) dbuf s) (\<lambda>_ s. bnd (brelse lbuf s) (\<lambda>_ s. brelse dbuf s)))))" for t
  have "\<exists>n bs. install_one recovering k s = X (sent s n bs)"
  proof -
    have X: "X t = bnd (bread (log_dev t) (word_of_int (l_start (lg t) + int k + 1)) t) (\<lambda>lbuf s.
      bnd (bread (log_dev s) (word_of_int (lh_block (l_lh (lg s)) ! k)) s) (\<lambda>dbuf s.
      let s = upd_buf dbuf (\<lambda>r. r\<lparr>b_data := b_data (bufs s lbuf)\<rparr>) s in
      bnd (bwrite dbuf s) (\<lambda>_ s.
      bnd (if \<not> recovering then bunpin dbuf s else Done () s) (\<lambda>_ s.
      bnd (brelse lbuf s) (\<lambda>_ s. brelse dbuf s)))))" if "lg t = lg s" "binv t" "calm t" "\<not> rlckd t (lblk s k)"
       "inuse t < NBUF" "rrefs t (lblk s k) + 1 < 2 ^ 32" for t
    proof -
      note T = that
      obtain p where hp: "held t = []" "curproc t = Some p" using T(3) by (rule calmE)
      obtain i v where "bread ROOTDEV (lblk s k) t = Done i v" "bframe t v"
        using bread_spec [OF T(2) hp T(4) T(5) T(6)] by blast
      moreover from this have "lg v = lg s" using bframeD(4) [of t v] T(1) by simp
      ultimately show ?thesis
        using log_geoD(1,5) [OF g] k that(1) by (simp add: X_def unpin_if_def Let_def)
    qed
    show ?thesis
    proof (cases recovering)
      case True
      obtain bs where bs: "fmt_text (txt_of ''recovering tail %d dst %d'' @ [10])
          [VWord (of_nat k), VWord (word_of_int (lh_block (l_lh (lg s)) ! k))] = Some bs"
        using recovering_text by blast
      have "PrLock \<notin> set (held s)" using c by (simp add: calm_def)
      then obtain n where "printf (txt_of ''recovering tail %d dst %d'' @ [10])
          [VWord (of_nat k), VWord (word_of_int (lh_block (l_lh (lg s)) ! k))] s = Done 0 (sent s n bs)"
        using printf_ok [OF u [OF True] _ bs] by blast
      then have "install_one recovering k s = X (sent s n bs)"
        using True inv c nl room lim by (subst X) (simp_all add: install_one_def calm_def split: if_splits)
      then show ?thesis by blast
    next
      case False
      then have "install_one recovering k s = X (sent s 0 [])"
        using inv c nl room lim by (subst X) (simp_all add: install_one_def split: if_splits)
      then show ?thesis by blast
    qed
  qed
  then obtain n bs where e: "install_one recovering k s = X (sent s n bs)" by blast
  have c': "calm (sent s n bs)" using c by (simp add: calm_def)
  have "\<exists>u. X (sent s n bs) = Done () u
     \<and> bwrote (sent s n bs) u (home s k) (rview (sent s n bs) (lblk s k)) (if \<not> recovering then 1 else 0)"
    unfolding X_def by (rule install_copy_spec) (use inv c' ne nl pin room lim in simp_all)
  then obtain v where v: "X (sent s n bs) = Done () v"
      "bwrote (sent s n bs) v (home s k) (rview (sent s n bs) (lblk s k)) (if \<not> recovering then 1 else 0)"
    by blast
  have "(if \<not> recovering then 1 else 0 :: nat) = (if recovering then 0 else 1)" by simp
  then show ?thesis using e v(1) bwrote_sent [OF v(2)] by (intro exI [of _ v]) (simp only: babs_sent)
qed

lemma install_trans_spec:
  assumes inv: "binv s" and c: "calm s" and g: "log_geo s" and fr: "log_free s"
    and u: "recovering \<Longrightarrow> uart_ok s" and room: "inuse s + (if recovering then 1 else 0) < NBUF"
    and out: "\<forall>b \<in> set (homes s). unat b \<notin> area s"
    and pin: "\<not> recovering \<Longrightarrow> distinct (homes s) \<and> (\<forall>b \<in> set (homes s). rrefs s b \<noteq> 0)"
  shows "\<exists>t. install_trans recovering s = Done () t
    \<and> bwrotes s t (map (\<lambda>k. (home s k, rview s (lblk s k))) [0..<length (lblocks s)])
        (\<lambda>b. if \<not> recovering \<and> b \<in> set (homes s) then 1 else 0)"
proof -
  define W where "W ks = map (\<lambda>k. (home s k, rview s (lblk s k))) ks" for ks
  define d where "d ks b = (if \<not> recovering \<and> b \<in> home s ` set ks then 1 else 0 :: nat)" for ks b
  define P where "P ks t \<longleftrightarrow> bwrotes s t (W ks) (d ks)" for ks t
  have "\<exists>t. foreach (install_one recovering) [0..<length (lblocks s)] s = Done () t \<and> P [0..<length (lblocks s)] t"
  proof (rule foreach_inv)
    have "d [] = (\<lambda>_. 0)" by (simp add: d_def fun_eq_iff)
    then show "P [] s" using bwrotes_refl [OF inv] by (simp add: P_def W_def)
  next
    fix ys k zs t
    assume xs: "[0..<length (lblocks s)] = ys @ k # zs" and "P ys t"
    then have P: "bwrotes s t (W ys) (d ys)" by (simp add: P_def)
    note B = bwrotesD [OF P] and F = log_frame [OF bwrotesD(2) [OF P]]
    have sx: "set ys \<subseteq> {0..<length (lblocks s)}" "k < length (lblocks s)" "k \<notin> set ys"
      using arg_cong [OF xs, of set] arg_cong [OF xs, of distinct] by auto
    then have k: "k < LOGBLOCKS" using log_geoD(3) [OF g] by simp
    have hk: "unat (home s j) \<notin> area s" if "j \<in> set (k # ys)" for j
      using out homes_nth(3) [of j s] that sx by auto
    note la = lblk_area(1) [OF g k]
    have vk: "rview t (lblk s k) = rview s (lblk s k)"
      unfolding B(6) by (rule apply_writes_other) (use la hk in \<open>auto simp: W_def\<close>)
    have free: "log_free t" using log_free_keep [OF P fr] .
    have new: "\<not> recovering \<Longrightarrow> home s k \<notin> home s ` set ys"
    proof
      assume r: "\<not> recovering" and "home s k \<in> home s ` set ys"
      then obtain j where j: "j \<in> set ys" "home s k = home s j" by blast
      then have "homes s ! j = homes s ! k" "j < length (homes s)" "k < length (homes s)"
        using homes_nth(1,2) sx by auto
      then show False using pin [OF r] j(1) sx(3) nth_eq_iff_index_eq by blast
    qed
    have "\<exists>u. install_one recovering k t = Done () u
        \<and> bwrote t u (home t k) (rview t (lblk t k)) (if recovering then 0 else 1)"
    proof (rule install_one_spec [OF B(1)])
      show "calm t" "log_geo t" using c g calm_frame [OF B(2)] log_geo_frame(1) [OF B(2)] by simp_all
      show "recovering \<Longrightarrow> uart_ok t" using u bframeD(13) [OF B(2)] by blast
      show "k < length (lblocks t)" using sx F by simp
      show "lblk t k \<noteq> home t k" using la hk [of k] F by auto
      show nz: "rrefs t (home t k) \<noteq> 0" if "\<not> recovering"
        using pin [OF that] new [OF that] B(7) [of "home s k"] F homes_nth(3) [OF sx(2)] by (auto simp: d_def)
      then show "inuse t + (if rrefs t (home t k) = 0 then 1 else 0) < NBUF"
        using room B(5) by (cases recovering) auto
      show "\<not> rlckd t (lblk t k)" "\<not> rlckd t (home t k)" "rrefs t (lblk t k) + 1 < 2 ^ 32" "rrefs t (home t k) + 1 < 2 ^ 32"
        using free la homes_nth(3) [OF sx(2)] F unfolding log_free_def by simp_all
    qed
    then obtain w where w: "install_one recovering k t = Done () w"
        "bwrote t w (home s k) (rview s (lblk s k)) (if recovering then 0 else 1)"
      using F vk by auto
    have "(\<lambda>x. d ys x + (if x = home s k then if recovering then 0 else 1 else 0)) = d (ys @ [k])"
      using new by (auto simp: d_def fun_eq_iff)
    then have "P (ys @ [k]) w" using bwrotes_step [OF P w(2)] by (simp add: P_def W_def)
    then show "\<exists>u. install_one recovering k t = Done () u \<and> P (ys @ [k]) u" using w(1) by blast
  qed
  moreover have "set (homes s) = home s ` {0..<length (lblocks s)}"
    by (force simp: homes_def in_set_conv_nth)
  then have "d [0..<length (lblocks s)] = (\<lambda>b. if \<not> recovering \<and> b \<in> set (homes s) then 1 else 0)"
    by (simp add: d_def fun_eq_iff)
  ultimately show ?thesis using log_geoD(2) [OF g] by (simp add: install_trans_def P_def W_def)
qed

section \<open>The commit\<close>

text \<open>Changing the in-memory log header is invisible to the cache.\<close>

lemma babs_lg [simp]:
  "view (s\<lparr>lg := l\<rparr>) = view s" "refs (s\<lparr>lg := l\<rparr>) = refs s" "lckd (s\<lparr>lg := l\<rparr>) = lckd s" "inuse (s\<lparr>lg := l\<rparr>) = inuse s"
  "binv (s\<lparr>lg := l\<rparr>) = binv s" "calm (s\<lparr>lg := l\<rparr>) = calm s"
proof -
  let ?t = "s\<lparr>lg := l\<rparr>"
  have B: "bcore (bufs ?t i) = bcore (bufs s i)" "dsk ?t = dsk s" for i by simp_all
  note S = babs_cong [of ?t s, OF B]
  show "view ?t = view s" "refs ?t = refs s" "lckd ?t = lckd s" "inuse ?t = inuse s" using S by simp_all
  show "binv ?t = binv s" using S by (simp add: binv_def ring_def)
  show "calm ?t = calm s" by (simp add: calm_def)
qed

lemma bframe_lg:
  assumes "bframe (s\<lparr>lg := l\<rparr>) u"
  shows "bframe s (u\<lparr>lg := lg s\<rparr>)" "lg u = l"
proof -
  show "lg u = l" using bframeD(4) [OF assms] by simp
  have u: "u = s\<lparr>lg := l, procs := procs u, bufs := bufs u, dsk := dsk u, dwrites := dwrites u,
      io_pos := io_pos u, io_out := io_out u\<rparr>"
    using assms unfolding bframe_def by simp
  have "u\<lparr>lg := lg s\<rparr> = s\<lparr>procs := procs u, bufs := bufs u, dsk := dsk u, dwrites := dwrites u,
      io_pos := io_pos u, io_out := io_out u\<rparr>"
    by (subst u) simp
  then show "bframe s (u\<lparr>lg := lg s\<rparr>)" using assms unfolding bframe_def by simp
qed

lemma bwrote_lg:
  assumes "bwrote (s\<lparr>lg := l\<rparr>) u b v d"
  shows "bwrote s (u\<lparr>lg := lg s\<rparr>) b v d" "lg u = l"
  using assms bframe_lg [OF bwroteD(2) [OF assms]] by (simp_all add: bwrote_def)

definition head_of :: "kstate \<Rightarrow> block" where
  "head_of s = put_head (rview s (hblk s)) (lblocks s)"

text \<open>The disk writes of a commit, in the order they are issued.\<close>

definition log_copies :: "kstate \<Rightarrow> (uint \<times> block) list" where
  "log_copies s = map (\<lambda>k. (lblk s k, rview s (home s k))) [0..<length (lblocks s)]"

definition home_copies :: "kstate \<Rightarrow> (uint \<times> block) list" where
  "home_copies s = map (\<lambda>b. (b, rview s b)) (homes s)"

definition commit_writes :: "kstate \<Rightarrow> (uint \<times> block) list" where
  "commit_writes s = log_copies s @ [(hblk s, head_of s)] @ home_copies s @ [(hblk s, put_head (head_of s) [])]"

definition commit_ready :: "kstate \<Rightarrow> bool" where
  "commit_ready s \<longleftrightarrow> binv s \<and> calm s \<and> log_geo s \<and> log_free s \<and> inuse s < NBUF \<and> distinct (homes s)
    \<and> (\<forall>b \<in> set (homes s). unat b \<notin> area s \<and> rrefs s b \<noteq> 0)"

lemma home_copies_eq: "home_copies s = map (\<lambda>k. (home s k, rview s (home s k))) [0..<length (lblocks s)]"
  unfolding home_copies_def homes_def
  by (rule nth_equalityI) simp_all

lemma lblk_word:
  assumes "log_geo s" "k < LOGBLOCKS"
  shows "lblk s k \<noteq> hblk s" "j < LOGBLOCKS \<Longrightarrow> lblk s j = lblk s k \<Longrightarrow> j = k"
proof -
  show "lblk s k \<noteq> hblk s" using lblk_area(3) [OF assms] arg_cong [of "lblk s k" "hblk s" unat] by argo
  show "j = k" if "j < LOGBLOCKS" "lblk s j = lblk s k"
    using lblk_area(4) [OF assms that(1)] arg_cong [OF that(2), of unat] by argo
qed

lemma log_copies_dom: 
  assumes "log_geo s" "b \<in> fst ` set (log_copies s)"
  shows "unat b \<in> area s" "b \<noteq> hblk s"
proof -
  obtain k where k: "b = lblk s k" "k < length (lblocks s)" using assms(2) by (auto simp: log_copies_def)
  then have "k < LOGBLOCKS" using log_geoD(3) [OF assms(1)] by simp
  then show "unat b \<in> area s" "b \<noteq> hblk s"
    unfolding k(1) by (rule lblk_area(1) [OF assms(1)], rule lblk_word(1) [OF assms(1)])
qed

lemma home_copies_dom: "fst ` set (home_copies s) = set (homes s)" "map fst (home_copies s) = homes s"
  by (auto simp: home_copies_def image_image comp_def)

lemma log_copies_distinct:
  assumes "log_geo s"
  shows "distinct (map fst (log_copies s))"
proof -
  have "inj_on (lblk s) (set [0..<length (lblocks s)])"
    using log_geoD(3) [OF assms] by (intro inj_onI lblk_word(2) [OF assms]) auto
  then show ?thesis by (simp add: log_copies_def comp_def distinct_map)
qed

lemma log_copies_at:
  assumes g: "log_geo s" and k: "k < length (lblocks s)"
  shows "apply_writes D (log_copies s) (lblk s k) = rview s (home s k)"
  by (rule apply_writes_at [OF _ log_copies_distinct [OF g]]) (use k in \<open>auto simp: log_copies_def\<close>)

lemma commit_spec:
  assumes r: "commit_ready s" and n: "lblocks s \<noteq> []"
  shows "\<exists>u. commit s = Done () u \<and> lg u = (lg s)\<lparr>l_lh := (l_lh (lg s))\<lparr>lh_n := 0\<rparr>\<rparr>
    \<and> bwrotes s (u\<lparr>lg := lg s\<rparr>) (commit_writes s) (\<lambda>b. if b \<in> set (homes s) then 1 else 0)"
proof -
  have R: "binv s" "calm s" "log_geo s" "log_free s" "inuse s < NBUF" "distinct (homes s)"
    "\<forall>b \<in> set (homes s). unat b \<notin> area s \<and> rrefs s b \<noteq> 0"
    using r by (simp_all add: commit_ready_def)
  note G = log_geoD [OF R(3)]
  have ha: "unat (hblk s) \<in> area s" using lblk_area(2) [OF R(3), of 0] by (simp add: LOGBLOCKS_def MAXOPBLOCKS_def)
  have hh: "hblk s \<notin> set (homes s)" using R(7) ha by auto
  obtain t where t: "write_log s = Done () t" "bwrotes s t (log_copies s) (\<lambda>_. 0)"
    using write_log_spec [OF R(1-5) R(7)] by (auto simp: log_copies_def)
  note T = bwrotesD [OF t(2)] and FT = log_frame [OF bwrotesD(2) [OF t(2)]]
  have vh: "rview t (hblk s) = rview s (hblk s)"
    unfolding T(6) by (rule apply_writes_other) (use log_copies_dom(2) [OF R(3)] in auto)
  have ct: "calm t" "log_geo t" using R calm_frame [OF T(2)] log_geo_frame(1) [OF T(2)] by simp_all
  have free: "log_free t" using log_free_keep [OF t(2) R(4)] .
  have ft: "\<not> rlckd t (hblk t)" "inuse t < NBUF" "rrefs t (hblk t) + 1 < 2 ^ 32"
    using free ha FT T(5) R(5) unfolding log_free_def by auto
  obtain v where v: "write_head t = Done () v" "bwrote t v (hblk s) (head_of s) 0"
    using write_head_spec [OF T(1) ct ft] FT vh by (auto simp: head_of_def)
  have V: "bwrotes s v (log_copies s @ [(hblk s, head_of s)]) (\<lambda>_. 0)"
    using bwrotes_step [OF t(2) v(2)] by (simp cong: if_cong)
  note VD = bwrotesD [OF V] and FV = log_frame [OF bwrotesD(2) [OF V]]
  have cv: "calm v" "log_geo v" using R calm_frame [OF VD(2)] log_geo_frame(1) [OF VD(2)] by simp_all
  have fv: "log_free v" using log_free_keep [OF V R(4)] .
  have vl: "rview v (lblk s k) = rview s (home s k)" if "k < length (lblocks s)" for k
  proof -
    have "k < LOGBLOCKS" using that G(3) by simp
    then have "lblk s k \<noteq> hblk s" by (rule lblk_word(1) [OF R(3)])
    then show ?thesis using log_copies_at [OF R(3) that] unfolding VD(6) by simp
  qed
  have "\<exists>w. install_trans False v = Done () w
      \<and> bwrotes v w (map (\<lambda>k. (home v k, rview v (lblk v k))) [0..<length (lblocks v)])
        (\<lambda>b. if \<not> False \<and> b \<in> set (homes v) then 1 else 0)"
    using VD(7) R(5-7) VD(5) FV by (intro install_trans_spec [OF VD(1) cv fv]) (simp_all)
  moreover have "map (\<lambda>k. (home v k, rview v (lblk v k))) [0..<length (lblocks v)] = home_copies s"
    unfolding FV home_copies_eq using vl by simp
  ultimately obtain w where w: "install_trans False v = Done () w"
      "bwrotes v w (home_copies s) (\<lambda>b. if b \<in> set (homes s) then 1 else 0)"
    using FV by auto
  have W: "bwrotes s w (log_copies s @ [(hblk s, head_of s)] @ home_copies s) (\<lambda>b. if b \<in> set (homes s) then 1 else 0)"
    using bwrotes_trans [OF V w(2)] by simp
  note WD = bwrotesD [OF W] and FW = log_frame [OF bwrotesD(2) [OF W]]
  have vw: "rview w (hblk s) = head_of s"
    unfolding bwrotesD(6) [OF w(2)] using hh VD(6) [of "hblk s"]
    by (subst apply_writes_other) (simp_all add: home_copies_dom)
  let ?l = "(lg s)\<lparr>l_lh := (l_lh (lg s))\<lparr>lh_n := 0\<rparr>\<rparr>"
  let ?x = "w\<lparr>lg := ?l\<rparr>"
  have lw: "lg w = lg s" using bframeD(4) [OF WD(2)] .
  have x: "set_lh (\<lambda>lh. lh\<lparr>lh_n := 0\<rparr>) w = ?x" by (simp add: upd_log_def lw)
  have cx: "calm ?x" "binv ?x" "log_geo ?x"
    using R calm_frame [OF WD(2)] WD(1) by (simp_all add: log_geo_def)
  have fw: "log_free w" using log_free_keep [OF W R(4)] .
  have bx: "\<not> rlckd ?x (hblk ?x)" "inuse ?x < NBUF" "rrefs ?x (hblk ?x) + 1 < 2 ^ 32"
    using fw ha FW WD(5) R(5) unfolding log_free_def by auto
  have lx: "lblocks ?x = []" by (simp add: lblocks_def)
  obtain u where u: "write_head ?x = Done () u" "bwrote ?x u (hblk s) (put_head (head_of s) []) 0"
    using write_head_spec [OF cx(2,1,3) bx] vw by (auto simp: lx)
  have U: "bwrotes s (u\<lparr>lg := lg s\<rparr>) (commit_writes s) (\<lambda>b. if b \<in> set (homes s) then 1 else 0)"
    using bwrotes_step [OF W bwrote_lg(1) [OF u(2), unfolded lw]] by (simp add: commit_writes_def cong: if_cong)
  have "lh_n (l_lh (lg s)) > 0" using n G(4) by (cases "lblocks s") auto
  then have "commit s = Done () u" using t(1) v(1) w(1) u(1) by (simp add: commit_def x)
  then show ?thesis using U bwrote_lg(2) [OF u(2)] by blast
qed

section \<open>Recovery\<close>

lemma bheld_lg [simp]: "bheld (s\<lparr>lg := l\<rparr>) = bheld s"
proof -
  have "bidx (s\<lparr>lg := l\<rparr>) = bidx s" by (rule bidx_cong) simp
  moreover have "mylock (s\<lparr>lg := l\<rparr>) = mylock s" by (cases "curproc s") (simp_all add: mylock_def)
  ultimately show ?thesis by (simp add: fun_eq_iff bheld_def)
qed

lemma read_head_loop:
  assumes "n \<le> LOGBLOCKS" "length (lh_block (l_lh (lg s))) = LOGBLOCKS"
  shows "foreach (\<lambda>i s. if i < LOGBLOCKS
        then Done () (set_lh (\<lambda>lh. lh\<lparr>lh_block := (lh_block lh)[i := hd_block (b_data (bufs s b)) i]\<rparr>) s)
        else Stop (Fault ''log.lh.block'') s) [0..<n] s
    = Done () (s\<lparr>lg := (lg s)\<lparr>l_lh := (l_lh (lg s))\<lparr>lh_block :=
        map (hd_block (b_data (bufs s b))) [0..<n] @ drop n (lh_block (l_lh (lg s)))\<rparr>\<rparr>\<rparr>)"
  using assms
proof (induction n)
  case 0
  then show ?case by simp
next
  case (Suc n)
  have "(map (hd_block B) [0..<n] @ drop n (lh_block (l_lh (lg s))))[n := v]
      = map (hd_block B) [0..<n] @ v # drop (Suc n) (lh_block (l_lh (lg s)))" for B v
    using Suc.prems by (simp add: list_update_append Cons_nth_drop_Suc [symmetric])
  then show ?case using Suc by (simp add: foreach_append upd_log_def)
qed

text \<open>What recovery writes, computed from the disk alone.\<close>

definition recover_writes :: "nat \<Rightarrow> (nat \<Rightarrow> block) \<Rightarrow> (nat \<times> block) list" where
  "recover_writes L D = map (\<lambda>k. (unat (word_of_int (hd_block (D L) k) :: uint), D (L + k + 1))) [0..<nat (hd_n (D L))]
     @ [(L, put_head (D L) [])]"

definition log_ok :: "nat \<Rightarrow> (nat \<Rightarrow> block) \<Rightarrow> bool" where
  "log_ok L D \<longleftrightarrow> 0 \<le> hd_n (D L) \<and> hd_n (D L) \<le> int LOGBLOCKS
    \<and> (\<forall>k < nat (hd_n (D L)). unat (word_of_int (hd_block (D L) k) :: uint) \<notin> {L .. L + LOGBLOCKS})"

text \<open>A machine that has just booted and runs a process: empty cache, console ready.\<close>

definition rebooted :: "kstate \<Rightarrow> bool" where
  "rebooted r \<longleftrightarrow> binv r \<and> calm r \<and> inuse r = 0 \<and> uart_ok r \<and> length (lh_block (l_lh (lg r))) = LOGBLOCKS"

definition log_at :: "kstate \<Rightarrow> nat \<Rightarrow> bool" where
  "log_at r L \<longleftrightarrow> l_dev (lg r) = 1 \<and> l_start (lg r) = int L \<and> L + 31 < 2 ^ 31"

lemma read_head_spec:
  assumes r: "rebooted r" and at: "log_at r L" and n: "0 \<le> hd_n (dsk r L)" "hd_n (dsk r L) \<le> int LOGBLOCKS"
  shows "\<exists>u l. read_head r = Done () u \<and> rebooted u \<and> log_at u L \<and> log_geo u \<and> bframe (r\<lparr>lg := l\<rparr>) u
    \<and> lblocks u = map (hd_block (dsk r L)) [0..<nat (hd_n (dsk r L))] \<and> dsk u = dsk r \<and> dwrites u = dwrites r"
proof -
  have R: "binv r" "calm r" "inuse r = 0" "uart_ok r" "length (lh_block (l_lh (lg r))) = LOGBLOCKS"
    using r by (simp_all add: rebooted_def)
  have A: "log_dev r = ROOTDEV" "unat (hblk r) = L"
    using at by (simp_all add: log_at_def ROOTDEV_def unsigned_of_nat take_bit_nat_eq_self)
  obtain p where hp: "held r = []" "curproc r = Some p" using R(2) by (rule calmE)
  have z: "rrefs r (hblk r) = 0" using inuse_0_refs [OF R(1,3)] .
  have vh: "rview r (hblk r) = dsk r L" using unreferenced(2) [OF R(1) z] A(2) by simp
  obtain i t where t: "bread ROOTDEV (hblk r) r = Done i t" "binv t" "bframe r t" "rheld t i (hblk r)"
    "dsk t = dsk r" "dwrites t = dwrites r" "inuse t = 1" "rview t (hblk r) = dsk r L" "rrefs t (hblk r) = 1"
    using bread_spec [OF R(1) hp unreferenced(1) [OF R(1) z]] R(3) z vh by (auto simp: NBUF_def MAXOPBLOCKS_def)
  let ?B = "dsk r L" and ?n = "nat (hd_n (dsk r L))"
  have d: "b_data (bufs t i) = ?B" using bheld_view [OF t(4)] t(8) by simp
  have lt: "lg t = lg r" using bframeD(4) [OF t(3)] .
  define l where "l = (lg r)\<lparr>l_lh := (l_lh (lg r))\<lparr>lh_n := hd_n ?B,
      lh_block := map (hd_block ?B) [0..<?n] @ drop ?n (lh_block (l_lh (lg r)))\<rparr>\<rparr>"
  have n': "?n \<le> LOGBLOCKS" using n by simp
  have run: "read_head r = brelse i (t\<lparr>lg := l\<rparr>)"
    using t(1) A(1) n R(5) n' by (simp add: read_head_def Let_def upd_log_def d lt read_head_loop l_def)
  have ht: "held (t\<lparr>lg := l\<rparr>) = []" "curproc (t\<lparr>lg := l\<rparr>) = Some p"
    using hp bframeD(1,2) [OF t(3)] by simp_all
  obtain u where u: "brelse i (t\<lparr>lg := l\<rparr>) = Done () u" "binv u" "bframe (t\<lparr>lg := l\<rparr>) u" "dsk u = dsk r"
     "dwrites u = dwrites r" "inuse u = 0"
    using brelse_spec [OF _ ht, of i "hblk r"] t A(2) by auto
  have "bframe (r\<lparr>lg := l\<rparr>) (t\<lparr>lg := l\<rparr>)"
  proof -
    have "t\<lparr>lg := l\<rparr> = r\<lparr>lg := l, procs := procs t, bufs := bufs t, dsk := dsk t, dwrites := dwrites t,
      io_pos := io_pos t, io_out := io_out t\<rparr>"
    proof -
      have e: "t = r\<lparr>procs := procs t, bufs := bufs t, dsk := dsk t, dwrites := dwrites t,
        io_pos := io_pos t, io_out := io_out t\<rparr>" using t(3) unfolding bframe_def by blast
      show ?thesis by (subst e) simp
    qed
    then show ?thesis using t(3) unfolding bframe_def by simp
  qed
  then have fr: "bframe (r\<lparr>lg := l\<rparr>) u" using u(3) bframe_trans by blast
  have lu: "lg u = l" using bframeD(4) [OF u(3)] by simp
  have "calm u" using R(2) calm_frame [OF fr] by simp
  moreover have "uart_ok u" using R(4) bframeD(13) [OF fr] by (simp add: uart_ok_def)
  moreover have "length (lh_block (l_lh (lg u))) = LOGBLOCKS" using R(5) n' by (simp add: lu l_def)
  ultimately have "rebooted u" using u(2,6) by (simp add: rebooted_def)
  moreover have "log_at u L" using at by (simp add: log_at_def lu l_def)
  moreover have "log_geo u" using at n R(5) n' by (simp add: log_geo_def log_at_def lu l_def)
  moreover have "lblocks u = map (hd_block ?B) [0..<?n]" by (simp add: lblocks_def lu l_def)
  ultimately show ?thesis using run u fr by auto
qed

lemma recover_spec:
  assumes r: "rebooted r" and at: "log_at r L" and ok: "log_ok L (dsk r)"
  shows "\<exists>u. recover_from_log r = Done () u \<and> binv u \<and> calm u \<and> lblocks u = []
    \<and> dsk u = apply_writes (dsk r) (recover_writes L (dsk r)) \<and> dwrites u = dwrites r @ recover_writes L (dsk r)"
proof -
  have n: "0 \<le> hd_n (dsk r L)" "hd_n (dsk r L) \<le> int LOGBLOCKS" using ok by (simp_all add: log_ok_def)
  let ?n = "nat (hd_n (dsk r L))" and ?H = "dsk r L"
  obtain u l where u: "read_head r = Done () u" "rebooted u" "log_at u L" "log_geo u" "bframe (r\<lparr>lg := l\<rparr>) u"
    "lblocks u = map (hd_block ?H) [0..<?n]" "dsk u = dsk r" "dwrites u = dwrites r"
    using read_head_spec [OF r at n] by blast
  have U: "binv u" "calm u" "inuse u = 0" "uart_ok u" using u(2) by (simp_all add: rebooted_def)
  have z: "rrefs u b = 0" for b using inuse_0_refs [OF U(1,3)] .
  note un = unreferenced [OF U(1) z]
  have free: "log_free u" using un(1) z by (simp add: log_free_def)
  have ar: "area u = {L .. L + LOGBLOCKS}" using u(3) by (simp add: area_def log_at_def)
  have hu: "homes u = map (\<lambda>k. word_of_int (hd_block ?H k)) [0..<?n]" by (simp add: homes_def u(6))
  have out: "\<forall>b \<in> set (homes u). unat b \<notin> area u" using ok unfolding hu ar log_ok_def by auto
  have hom: "home u k = word_of_int (hd_block ?H k)" if "k < ?n" for k using that by (simp add: u(6))
  have lb: "rview u (lblk u k) = dsk r (L + k + 1)" if "k < ?n" for k
  proof -
    have "k < LOGBLOCKS" using that n by simp
    then have "unat (lblk u k) = L + k + 1" using unat_lblk(1) [OF u(4)] u(3) by (simp add: log_at_def)
    then show ?thesis using un(2) u(7) by simp
  qed
  have uh: "unat (hblk u) = L" using unat_lblk(2) [OF u(4), of 0] u(3)
    by (simp add: log_at_def LOGBLOCKS_def MAXOPBLOCKS_def)
  have "inuse u + (if True then 1 else 0) < NBUF" using U(3) by (simp add: NBUF_def MAXOPBLOCKS_def)
  then obtain w where w: "install_trans True u = Done () w"
    "bwrotes u w (map (\<lambda>k. (home u k, rview u (lblk u k))) [0..<length (lblocks u)]) (\<lambda>_. 0)"
    using install_trans_spec [where recovering = True, OF U(1,2) u(4) free U(4) _ out] by auto
  let ?W = "map (\<lambda>k. (word_of_int (hd_block ?H k), dsk r (L + k + 1))) [0..<?n]"
  have "map (\<lambda>k. (home u k, rview u (lblk u k))) [0..<length (lblocks u)] = ?W"
    using hom lb by (simp add: u(6))
  then have w': "bwrotes u w ?W (\<lambda>_. 0)" using w(2) by simp
  note WD = bwrotesD [OF w']
  have lw: "lg w = lg u" using bframeD(4) [OF WD(2)] .
  have nh: "hblk u \<notin> fst ` set ?W"
  proof
    assume "hblk u \<in> fst ` set ?W"
    then obtain k where "k < ?n" "hblk u = word_of_int (hd_block ?H k)" by auto
    then show False using ok uh unfolding log_ok_def by (metis atLeastAtMost_iff le_add1 order_refl)
  qed
  have vw: "rview w (hblk u) = ?H"
    unfolding WD(6) apply_writes_other [OF nh] using un(2) u(7) uh by simp
  let ?l = "(lg u)\<lparr>l_lh := (l_lh (lg u))\<lparr>lh_n := 0\<rparr>\<rparr>"
  let ?x = "w\<lparr>lg := ?l\<rparr>"
  have x: "set_lh (\<lambda>lh. lh\<lparr>lh_n := 0\<rparr>) w = ?x" by (simp add: upd_log_def lw)
  have cx: "binv ?x" "calm ?x" "log_geo ?x"
    using U calm_frame [OF WD(2)] WD(1) u(4) by (simp_all add: log_geo_def)
  have bx: "\<not> rlckd ?x (hblk ?x)" "inuse ?x < NBUF" "rrefs ?x (hblk ?x) + 1 < 2 ^ 32"
    using WD(5) WD(7,8) [of "hblk u"] z un(1) U(3) by (simp_all add: NBUF_def MAXOPBLOCKS_def)
  have lx: "lblocks ?x = []" by (simp add: lblocks_def)
  obtain v where v: "write_head ?x = Done () v" "bwrote ?x v (hblk u) (put_head ?H []) 0"
    using write_head_spec [OF cx bx] vw by (auto simp: lx)
  note V = bwroteD [OF v(2)]
  have "recover_from_log r = Done () v" using u(1) w(1) v(1) by (simp add: recover_from_log_def x)
  moreover have "calm v" using cx(2) calm_frame [OF V(2)] by simp
  moreover have "lblocks v = []" using log_frame(1) [OF V(2)] lx by simp
  moreover have "recover_writes L (dsk r) = on_disk ?W @ [(L, put_head ?H [])]" by (simp add: recover_writes_def)
  then have "dsk v = apply_writes (dsk r) (recover_writes L (dsk r))" "dwrites v = dwrites r @ recover_writes L (dsk r)"
    using V(3,4) WD(3,4) uh u(7,8) by simp_all
  ultimately show ?thesis using V(1) by blast
qed

section \<open>Crashes\<close>

lemma apply_writes_cong: "D n = E n \<Longrightarrow> apply_writes D ws n = apply_writes E ws n"
  by (induction ws rule: rev_induct) auto

lemma apply_writes_skip: "n \<notin> fst ` set vs \<Longrightarrow> apply_writes D (vs @ ws) n = apply_writes D ws n"
  unfolding apply_writes_append by (rule apply_writes_cong) (rule apply_writes_other)

lemma apply_writes_last: "n \<notin> fst ` set ws \<Longrightarrow> apply_writes D (vs @ (n, v) # ws) n = v"
  using apply_writes_append [of D "vs @ [(n, v)]" ws] apply_writes_other [of n ws] by simp

lemma apply_writes_redo:
  assumes "distinct (map fst ws)" "D b = E b \<or> b \<in> fst ` set ws"
  shows "apply_writes D ws b = apply_writes E ws b"
proof (cases "b \<in> fst ` set ws")
  case True
  then obtain v where "(b, v) \<in> set ws" by auto
  then show ?thesis using apply_writes_at [OF _ assms(1)] by simp
qed (use assms(2) in \<open>simp add: apply_writes_other\<close>)

text \<open>The log protocol on a plain disk: \<open>A\<close> copies to the log area, \<open>H\<close> is the header naming the
  homes, \<open>B\<close> copies home and \<open>H0\<close> clears the header.  A crash keeps a prefix of these writes.\<close>

lemma crash_log:
  assumes A: "fst ` set A \<subseteq> {L + 1 .. L + LOGBLOCKS}" and B: "fst ` set B \<inter> {L .. L + LOGBLOCKS} = {}"
    and dist: "distinct (map fst B)" and len: "length A = n" "length B = n" "n \<le> LOGBLOCKS"
    and clear: "hd_n (D L) = 0" "hd_n H0 = 0" and H: "hd_n H = int n"
    and blk: "\<And>k. k < n \<Longrightarrow> unat (word_of_int (hd_block H k) :: uint) = fst (B ! k)"
    and dat: "\<And>k. k < n \<Longrightarrow> apply_writes D A (L + k + 1) = snd (B ! k)"
    and D': "D' = apply_writes D (take m (A @ (L, H) # B @ [(L, H0)]))"
  shows "log_ok L D'"
    "b \<notin> {L .. L + LOGBLOCKS} \<Longrightarrow> apply_writes D' (recover_writes L D') b = (if m \<le> n then D b else apply_writes D B b)"
proof -
  have La: "L \<notin> fst ` set A" and Lb: "L \<notin> fst ` set B" using A B by auto
  have Bt: "fst ` set (take j B) \<subseteq> fst ` set B" for j by (rule image_mono) (rule set_take_subset)
  have At: "fst ` set (take j A) \<subseteq> fst ` set A" for j by (rule image_mono) (rule set_take_subset)
  have bA: "b \<notin> {L .. L + LOGBLOCKS} \<Longrightarrow> b \<notin> fst ` set A"
    using subsetD [OF A, of b] by (simp only: atLeastAtMost_iff) linarith
  consider (before) "m \<le> n" | (middle) "n < m" "m \<le> 2 * n + 1" | (after) "2 * n + 1 < m" by linarith
  then have "log_ok L D' \<and> (b \<notin> {L .. L + LOGBLOCKS} \<longrightarrow>
     apply_writes D' (recover_writes L D') b = (if m \<le> n then D b else apply_writes D B b))"
  proof cases
    case before
    then have d: "D' = apply_writes D (take m A)" using len D' by simp
    have l: "D' L = D L" unfolding d by (rule apply_writes_other) (use La At in blast)
    have "D' b = D b" if "b \<notin> {L .. L + LOGBLOCKS}"
    proof -
      have "b \<notin> fst ` set A" using bA that by simp
      then show ?thesis unfolding d by (intro apply_writes_other) (use At in blast)
    qed
    then show ?thesis
      using before by (auto simp: log_ok_def recover_writes_def l clear apply_writes_def)
  next
    case middle
    define j where "j = m - n - 1"
    have "take m (A @ (L, H) # B @ [(L, H0)]) = A @ (L, H) # take j B"
      using middle len by (simp add: take_Cons' j_def)
    then have d: "D' = apply_writes D (A @ (L, H) # take j B)" using D' by simp
    have l: "D' L = H" unfolding d by (rule apply_writes_last) (use Lb Bt in blast)
    have dk: "D' (L + k + 1) = snd (B ! k)" if "k < n" for k
    proof -
      have "L + k + 1 \<in> {L .. L + LOGBLOCKS}" using that len by simp
      then have "L + k + 1 \<notin> fst ` set B" using B by blast
      then have "L + k + 1 \<notin> fst ` set ((L, H) # take j B)" using subsetD [OF Bt, of "L + k + 1" j] by fastforce
      then have "D' (L + k + 1) = apply_writes D A (L + k + 1)"
        unfolding d by (subst apply_writes_append) (rule apply_writes_other)
      then show ?thesis using dat [OF that] by simp
    qed
    have "map (\<lambda>k. (unat (word_of_int (hd_block H k) :: uint), D' (L + k + 1))) [0..<n] = B"
      by (rule nth_equalityI) (simp_all add: len blk dk [simplified])
    then have rw: "recover_writes L D' = B @ [(L, put_head H [])]" by (simp add: recover_writes_def l H)
    have bn: "fst (B ! k) \<notin> {L .. L + LOGBLOCKS}" if "k < n" for k
    proof -
      have "fst (B ! k) \<in> fst ` set B" using that len by simp
      then show ?thesis using B by blast
    qed
    have "log_ok L D'" using len(3) blk bn by (simp add: log_ok_def l H)
    moreover have "apply_writes D' (recover_writes L D') b = apply_writes D B b" if b: "b \<notin> {L .. L + LOGBLOCKS}"
    proof -
      have bl: "b \<noteq> L" using b by auto
      have "D' b = apply_writes D (take j B) b"
      proof -
        have "b \<notin> fst ` set (A @ [(L, H)])" using bA [OF b] bl by auto
        then show ?thesis using apply_writes_skip [of b "A @ [(L, H)]" D "take j B"] by (simp add: d)
      qed
      then have "D' b = D b \<or> b \<in> fst ` set B" using apply_writes_other [of b "take j B" D] subsetD [OF Bt, of b j] by fastforce
      then show ?thesis using apply_writes_redo [OF dist] bl by (simp add: rw)
    qed
    ultimately show ?thesis using middle by simp
  next
    case after
    then have d: "D' = apply_writes D ((A @ (L, H) # B) @ [(L, H0)])" using len D' by simp
    have l: "D' L = H0" unfolding d by (rule fun_cong [OF apply_writes_snoc, THEN trans]) simp
    have "D' b = apply_writes D B b" if b: "b \<notin> {L .. L + LOGBLOCKS}"
    proof -
      have bl: "b \<noteq> L" using b by auto
      have "b \<notin> fst ` set (A @ [(L, H)])" using bA [OF b] bl by auto
      then show ?thesis using bl apply_writes_skip [of b "A @ [(L, H)]" D B] unfolding d apply_writes_snoc by simp
    qed
    then show ?thesis
      using after by (auto simp: log_ok_def recover_writes_def l clear apply_writes_def)
  qed
  then show "log_ok L D'"
    "b \<notin> {L .. L + LOGBLOCKS} \<Longrightarrow> apply_writes D' (recover_writes L D') b = (if m \<le> n then D b else apply_writes D B b)"
    by blast+
qed

section \<open>Building the transaction\<close>

lemma absorb_spec:
  "absorb bn xs i = i + length (takeWhile (\<lambda>x. word_of_int x \<noteq> bn) xs)"
  by (induction xs arbitrary: i) auto

lemma length_takeWhile_less: "\<exists>x \<in> set xs. \<not> P x \<Longrightarrow> length (takeWhile P xs) < length xs"
  by (induction xs) auto

lemma bpin_nested:
  assumes "BcacheLock \<notin> set (held s)"
  shows "bpin i s = Done () (upd_buf i (\<lambda>r. r\<lparr>b_refcnt := b_refcnt r + 1\<rparr>) s)"
  using assms by (simp add: bpin_def)

lemma log_write_eq:
  assumes "LogLock \<notin> set (held s)" "BcacheLock \<notin> set (held s)"
  shows "log_write b s =
    (if lh_n (l_lh (lg s)) \<ge> int LOGBLOCKS then panic ''too big a transaction'' (s\<lparr>held := LogLock # held s\<rparr>)
     else if l_outstanding (lg s) < 1 then panic ''log_write outside of trans'' (s\<lparr>held := LogLock # held s\<rparr>)
     else let n = nat (lh_n (l_lh (lg s)));
              i = absorb (b_blockno (bufs s b)) (take n (lh_block (l_lh (lg s)))) 0;
              s = set_lh (\<lambda>lh. lh\<lparr>lh_block := (lh_block lh)[i := sint (b_blockno (bufs s b))]\<rparr>) s in
       if i = n
       then Done () (set_lh (\<lambda>lh. lh\<lparr>lh_n := lh_n lh + 1\<rparr>) (upd_buf b (\<lambda>r. r\<lparr>b_refcnt := b_refcnt r + 1\<rparr>) s))
       else Done () s)"
  using assms by (simp add: log_write_def Let_def bpin_nested)

text \<open>A transaction being built: the blocks logged are distinct, pinned in the cache, and outside the log.\<close>

definition tx_inv :: "kstate \<Rightarrow> bool" where
  "tx_inv s \<longleftrightarrow> binv s \<and> calm s \<and> log_geo s \<and> distinct (homes s) \<and> (\<forall>b \<in> set (homes s). unat b \<notin> area s \<and> rrefs s b \<noteq> 0)"

lemma log_write_spec:
  assumes inv: "tx_inv s" and h: "rheld s i bn" and n: "lh_n (l_lh (lg s)) < int LOGBLOCKS" and o1: "1 \<le> l_outstanding (lg s)"
    and out: "unat bn \<notin> area s" and lim: "rrefs s bn + 1 < 2 ^ 32"
  shows "\<exists>t l. log_write i s = Done () t \<and> tx_inv t \<and> bframe s (t\<lparr>lg := lg s\<rparr>) \<and> lg t = (lg s)\<lparr>l_lh := l\<rparr>
    \<and> homes t = (if bn \<in> set (homes s) then homes s else homes s @ [bn])
    \<and> rheld t i bn \<and> bsame s t bn \<and> rview t bn = rview s bn \<and> rlckd t bn = rlckd s bn
    \<and> rrefs t bn = rrefs s bn + (if bn \<in> set (homes s) then 0 else 1)
    \<and> inuse t = inuse s \<and> dsk t = dsk s \<and> dwrites t = dwrites s"
proof -
  have I: "binv s" "calm s" "log_geo s" "distinct (homes s)" "\<forall>b \<in> set (homes s). unat b \<notin> area s \<and> rrefs s b \<noteq> 0"
    using inv by (simp_all add: tx_inv_def)
  obtain p where hp: "held s = []" "curproc s = Some p" using I(2) by (rule calmE)
  note G = log_geoD [OF I(3)]
  let ?lh = "l_lh (lg s)" and ?n = "nat (lh_n (l_lh (lg s)))"
  have bn: "b_blockno (bufs s i) = bn" using bheldD(3) [OF I(1) h] .
  define j where "j = length (takeWhile (\<lambda>x. word_of_int x \<noteq> bn) (lblocks s))"
  have jn: "absorb bn (take ?n (lh_block ?lh)) 0 = j" by (simp add: absorb_spec j_def lblocks_def)
  have len: "length (lh_block ?lh) = LOGBLOCKS" "0 \<le> lh_n ?lh" using I(3) by (simp_all add: log_geo_def)
  have hom: "homes s = map word_of_int (take ?n (lh_block ?lh))" by (simp add: homes_def lblocks_def)
  have mem: "bn \<in> set (homes s) \<longleftrightarrow> j < ?n"
  proof -
    have "j < length (lblocks s)" if "bn \<in> set (homes s)"
      using that unfolding j_def homes_def by (intro length_takeWhile_less) auto
    moreover have "j = length (lblocks s)" if "bn \<notin> set (homes s)"
    proof -
      have "takeWhile (\<lambda>x. word_of_int x \<noteq> bn) (lblocks s) = lblocks s"
        using that by (subst takeWhile_eq_all_conv) (auto simp: homes_def)
      then show ?thesis unfolding j_def by argo
    qed
    ultimately show ?thesis using G(2) by (cases "bn \<in> set (homes s)") auto
  qed
  define s1 where "s1 = set_lh (\<lambda>lh. lh\<lparr>lh_block := (lh_block lh)[j := sint bn]\<rparr>) s"
  show ?thesis
  proof (cases "bn \<in> set (homes s)")
    case True
    then have jl: "j < ?n" using mem by simp
    have wj: "word_of_int (lblocks s ! j) = bn"
      using nth_length_takeWhile [of "\<lambda>x. word_of_int x \<noteq> bn" "lblocks s"] jl G(2) by (simp add: j_def)
    then have wj': "word_of_int (lh_block ?lh ! j) = bn" using jl G(2,5) by simp
    have run: "log_write i s = Done () s1"
      using hp n o1 jl by (subst log_write_eq) (simp_all add: Let_def bn jn s1_def)
    have e: "s1 = s\<lparr>lg := (lg s)\<lparr>l_lh := ?lh\<lparr>lh_block := (lh_block ?lh)[j := sint bn]\<rparr>\<rparr>\<rparr>"
      by (simp add: s1_def upd_log_def)
    have hs: "homes s1 = homes s"
    proof -
      have "map word_of_int ((lh_block ?lh)[j := sint bn]) = (map word_of_int (lh_block ?lh) :: uint list)"
        using wj' len jl n by (intro nth_equalityI) (auto simp: nth_list_update)
      then show ?thesis by (simp add: homes_def lblocks_def e take_map [symmetric])
    qed
    have "area s1 = area s" "log_geo s1" using I(3) by (simp_all add: area_def log_geo_def e)
    then have "tx_inv s1" using inv hs by (simp add: tx_inv_def) (simp add: e)
    moreover have "bsame s s1 bn" by (simp add: bsame_def e)
    moreover have "bframe s (s1\<lparr>lg := lg s\<rparr>)" using bframe_refl [of s] by (simp add: e)
    ultimately show ?thesis
      using run True hs h by (intro exI [of _ s1] exI [of _ "l_lh (lg s1)"]) (simp add: e)
  next
    case False
    then have jl: "j = ?n" using mem length_takeWhile_le [of "\<lambda>x. word_of_int x \<noteq> bn" "lblocks s"] G(2) by (simp add: j_def)
    define u where "u = upd_buf i (\<lambda>r. r\<lparr>b_refcnt := b_refcnt r + 1\<rparr>) s"
    note U = bpin_spec [OF I(1) hp(1) h lim u_def]
    define l where "l = ?lh\<lparr>lh_block := (lh_block ?lh)[?n := sint bn], lh_n := lh_n ?lh + 1\<rparr>"
    let ?t = "u\<lparr>lg := (lg s)\<lparr>l_lh := l\<rparr>\<rparr>"
    have lu: "lg u = lg s" by (simp add: u_def)
    have run: "log_write i s = Done () ?t"
      using hp n o1 jl by (subst log_write_eq) (simp_all add: Let_def bn jn upd_log_def upd_buf_def l_def u_def)
    have n1: "nat (lh_n ?lh + 1) = Suc ?n" "?n < LOGBLOCKS" using n len(2) by simp_all
    have ht: "homes ?t = homes s @ [bn]"
      using len(1) n1 by (simp add: homes_def lblocks_def l_def take_Suc_conv_app_nth)
    have ar: "area ?t = area s" by (simp add: area_def)
    have ge: "log_geo ?t" using I(3) n by (simp add: log_geo_def l_def)
    have ca: "calm ?t" using I(2) calm_frame [OF U(3)] by simp
    have "\<forall>b \<in> set (homes ?t). unat b \<notin> area ?t \<and> rrefs ?t b \<noteq> 0"
    proof
      fix b assume b: "b \<in> set (homes ?t)"
      show "unat b \<notin> area ?t \<and> rrefs ?t b \<noteq> 0"
      proof (cases "b = bn")
        case True
        then show ?thesis using out U(6) ar by simp
      next
        case False
        then show ?thesis using b ht I(5) ar bsameD(2) [OF U(4) False] by simp
      qed
    qed
    then have "tx_inv ?t" using I(4) U(2) ge ca ht False by (simp add: tx_inv_def)
    moreover have "bsame s ?t bn" using U(4) by (simp add: bsame_def)
    moreover have "bframe s (?t\<lparr>lg := lg s\<rparr>)" using U(3) by (simp add: lu [symmetric])
    ultimately show ?thesis
      using run ht U False by (intro exI [of _ ?t] exI [of _ l]) simp
  qed
qed


lemma begin_op_eq:
  assumes "LogLock \<notin> set (held s)"
  shows "begin_op s = begin_op_loop (s\<lparr>held := LogLock # held s\<rparr>)"
  using assms by (simp add: begin_op_def)




section \<open>Ending the transaction\<close>

lemma home_copies_distinct: "distinct (homes s) \<Longrightarrow> distinct (map fst (on_disk (home_copies s)))"
  by (simp add: home_copies_def comp_def distinct_map inj_on_def word_unat_eq_iff)

lemma apply_home_copies:
  assumes "distinct (homes s)"
  shows "apply_writes D (on_disk (home_copies s)) n = (if n \<in> unat ` set (homes s) then rview s (of_nat n) else D n)"
proof (cases "n \<in> unat ` set (homes s)")
  case True
  then obtain b where b: "b \<in> set (homes s)" "n = unat b" by blast
  have "(n, rview s b) \<in> set (on_disk (home_copies s))" using b by (force simp: home_copies_def)
  from apply_writes_at [OF this home_copies_distinct [OF assms]] show ?thesis using b True by simp
next
  case False
  then show ?thesis by (subst apply_writes_other) (auto simp: home_copies_def)
qed

lemma commit_writes_effect:
  assumes "commit_ready s" "n \<notin> area s"
  shows "apply_writes D (on_disk (commit_writes s)) n = (if n \<in> unat ` set (homes s) then rview s (of_nat n) else D n)"
proof -
  have g: "log_geo s" "distinct (homes s)" using assms by (simp_all add: commit_ready_def)
  have ha: "unat (hblk s) \<in> area s" using lblk_area(2) [OF g(1), of 0] by (simp add: LOGBLOCKS_def MAXOPBLOCKS_def)
  have la: "n \<notin> fst ` set (on_disk (log_copies s @ [(hblk s, head_of s)]))"
    using log_copies_dom(1) [OF g(1)] assms(2) ha by force
  have "on_disk (commit_writes s) = (on_disk (log_copies s @ [(hblk s, head_of s)]) @ on_disk (home_copies s))
      @ [(unat (hblk s), put_head (head_of s) [])]" by (simp add: commit_writes_def)
  then have "apply_writes D (on_disk (commit_writes s)) n
      = apply_writes D (on_disk (log_copies s @ [(hblk s, head_of s)]) @ on_disk (home_copies s)) n"
    using assms(2) ha apply_writes_snoc [of D "on_disk (log_copies s @ [(hblk s, head_of s)]) @ on_disk (home_copies s)"]
    by (simp only:) (auto simp: fun_upd_def)
  then show ?thesis using apply_writes_skip [OF la] apply_home_copies [OF g(2)] by simp
qed

lemma initlog_spec:
  assumes r: "rebooted r" and b: "sb_logstart b = of_nat L" "L + 31 < 2 ^ 31" and ok: "log_ok L (dsk r)"
  shows "\<exists>u. initlog 1 b r = Done () u \<and> binv u \<and> calm u \<and> lblocks u = []
    \<and> dsk u = apply_writes (dsk r) (recover_writes L (dsk r)) \<and> dwrites u = dwrites r @ recover_writes L (dsk r)"
proof -
  let ?r = "r\<lparr>lg := (lg r)\<lparr>l_start := int L, l_dev := 1\<rparr>\<rparr>"
  have "sint (of_nat L :: uint) = int L" using b(2) by (simp add: signed_of_nat signed_take_bit_int_eq_self)
  then have e: "initlog 1 b r = recover_from_log ?r"
    using b(1) by (simp add: initlog_def upd_log_def Let_def LOGBLOCKS_def MAXOPBLOCKS_def BSIZE_def)
  have "rebooted ?r" using r by (simp add: rebooted_def uart_ok_def)
  moreover have "log_at ?r L" using b(2) by (simp add: log_at_def)
  ultimately show ?thesis using recover_spec [of ?r L] ok by (simp add: e)
qed

lemma crash_spec:
  assumes c: "commit_ready s" "lblocks s \<noteq> []" and L: "nat (l_start (lg s)) = L" and z: "hd_n (dsk s L) = 0"
    and r: "rebooted r" "dsk r = apply_writes (dsk s) (take m (on_disk (commit_writes s)))" and b: "sb_logstart b = of_nat L"
  shows "\<exists>v. initlog 1 b r = Done () v \<and> binv v \<and> hd_n (dsk v L) = 0 \<and> (\<forall>n. n \<notin> area s \<longrightarrow> dsk v n =
      (if length (homes s) < m \<and> n \<in> unat ` set (homes s) then rview s (of_nat n) else dsk s n))"
proof -
  have g: "binv s" "log_geo s" "distinct (homes s)" "\<forall>b \<in> set (homes s). unat b \<notin> area s"
    using c by (simp_all add: commit_ready_def)
  note G = log_geoD [OF g(2)]
  have L31: "L + 31 < 2 ^ 31" "int L = l_start (lg s)" using g(2) L by (auto simp: log_geo_def)
  have hL: "unat (hblk s) = L" using unat_lblk(2) [OF g(2), of 0] L by (simp add: LOGBLOCKS_def MAXOPBLOCKS_def)
  have ar: "area s = {L .. L + LOGBLOCKS}" by (simp add: area_def L)
  let ?A = "on_disk (log_copies s)" and ?B = "on_disk (home_copies s)" and ?H = "head_of s" and ?n = "length (lblocks s)"
  have lb: "unat (lblk s k) = L + k + 1" if "k < ?n" for k
    using unat_lblk(1) [OF g(2), of k] that G(3) L by linarith
  have A: "fst ` set ?A \<subseteq> {L + 1 .. L + LOGBLOCKS}"
  proof
    fix n assume "n \<in> fst ` set ?A"
    then obtain k where "k < ?n" "n = unat (lblk s k)" by (auto simp: log_copies_def)
    then show "n \<in> {L + 1 .. L + LOGBLOCKS}" using lb G(3) by simp
  qed
  have B: "fst ` set ?B \<inter> {L .. L + LOGBLOCKS} = {}" using g(4) unfolding ar home_copies_def by auto
  have dB: "distinct (map fst ?B)" by (rule home_copies_distinct [OF g(3)])
  have len: "length ?A = ?n" "length ?B = ?n" by (simp_all add: log_copies_def home_copies_def homes_def)
  note H = put_head [OF length_rview [OF g(1), of "hblk s"] G(3), folded head_of_def]
  have H0: "hd_n (put_head X []) = 0" if "length X = BSIZE" for X using put_head(2) [OF that, of "[]"] by simp
  have blk: "unat (word_of_int (hd_block ?H k) :: uint) = fst (?B ! k)" if "k < ?n" for k
    using H(3) [OF that] that by (simp add: home_copies_def homes_def)
  have dA: "distinct (map fst ?A)"
  proof -
    have "map fst ?A = map (\<lambda>k. L + k + 1) [0..<?n]" using lb by (simp add: log_copies_def)
    then show ?thesis by (simp only: distinct_map) (simp add: inj_on_def)
  qed
  have dat: "apply_writes D ?A (L + k + 1) = snd (?B ! k)" if "k < ?n" for k D
  proof -
    have "(lblk s k, rview s (home s k)) \<in> set (log_copies s)" using that by (auto simp: log_copies_def)
    then have "(unat (lblk s k), rview s (home s k)) \<in> set ?A" by force
    then have "(L + k + 1, rview s (home s k)) \<in> set ?A" using lb [OF that] by metis
    from apply_writes_at [OF this dA] show ?thesis using that by (simp add: home_copies_def homes_def)
  qed
  have W: "on_disk (commit_writes s) = ?A @ (L, ?H) # ?B @ [(L, put_head ?H [])]" by (simp add: commit_writes_def hL)
  note K = crash_log [OF A B dB len G(3) z H0 [OF H(1)] H(2) blk dat r(2) [unfolded W]]
  obtain v where v: "initlog 1 b r = Done () v" "binv v" "dsk v = apply_writes (dsk r) (recover_writes L (dsk r))"
    using initlog_spec [OF r(1) b L31(1) K(1)] by blast
  have "length (dsk r L) = BSIZE" using r(1) by (simp add: rebooted_def binv_def bsize_def)
  then have "hd_n (dsk v L) = 0" by (simp add: v(3) recover_writes_def H0)
  moreover have "dsk v n = (if length (homes s) < m \<and> n \<in> unat ` set (homes s) then rview s (of_nat n) else dsk s n)"
    if "n \<notin> area s" for n
    using K(2) [of n] that apply_home_copies [OF g(3)] by (simp add: v(3) ar homes_nth(2))
  ultimately show ?thesis using v by blast
qed

lemma babs_woken [simp]:
  "view (woken c s P) = view s" "refs (woken c s P) = refs s" "lckd (woken c s P) = lckd s" "inuse (woken c s P) = inuse s"
  "binv (woken c s P) = binv s"
proof -
  let ?t = "woken c s P"
  have B: "bcore (bufs ?t i) = bcore (bufs s i)" "dsk ?t = dsk s" for i by simp_all
  note S = babs_cong [of ?t s, OF B]
  show "view ?t = view s" "refs ?t = refs s" "lckd ?t = lckd s" "inuse ?t = inuse s" using S by simp_all
  show "binv ?t = binv s" using S by (simp add: binv_def ring_def)
qed

lemma same_log:
  assumes "l_lh l = l_lh (lg s)" "l_start l = l_start (lg s)" "l_dev l = l_dev (lg s)"
  shows "commit_writes (s\<lparr>lg := l\<rparr>) = commit_writes s" "commit_ready (s\<lparr>lg := l\<rparr>) = commit_ready s"
    "homes (s\<lparr>lg := l\<rparr>) = homes s" "lblocks (s\<lparr>lg := l\<rparr>) = lblocks s"
proof -
  have lb: "lblocks (s\<lparr>lg := l\<rparr>) = lblocks s" "area (s\<lparr>lg := l\<rparr>) = area s"
    using assms by (simp_all add: lblocks_def area_def)
  then have ho: "homes (s\<lparr>lg := l\<rparr>) = homes s" by (simp add: homes_def)
  have "log_copies (s\<lparr>lg := l\<rparr>) = log_copies s" "home_copies (s\<lparr>lg := l\<rparr>) = home_copies s" "head_of (s\<lparr>lg := l\<rparr>) = head_of s"
    using assms lb ho by (simp_all add: log_copies_def home_copies_def head_of_def)
  then show "commit_writes (s\<lparr>lg := l\<rparr>) = commit_writes s" using assms by (simp add: commit_writes_def)
  show "commit_ready (s\<lparr>lg := l\<rparr>) = commit_ready s"
    using assms lb ho by (simp add: commit_ready_def log_geo_def log_free_def)
  show "homes (s\<lparr>lg := l\<rparr>) = homes s" "lblocks (s\<lparr>lg := l\<rparr>) = lblocks s" by (rule ho, rule lb(1))
qed

lemma end_op_spec:
  assumes r: "commit_ready s" and n: "lblocks s \<noteq> []" and o1: "l_outstanding (lg s) = 1" and nc: "\<not> l_committing (lg s)"
  shows "\<exists>u. end_op s = Done () u \<and> binv u \<and> held u = [] \<and> curproc u = curproc s \<and> lblocks u = []
    \<and> l_outstanding (lg u) = 0 \<and> \<not> l_committing (lg u)
    \<and> dwrites u = dwrites s @ on_disk (commit_writes s) \<and> dsk u = apply_writes (dsk s) (on_disk (commit_writes s))
    \<and> (\<forall>b. unat b \<notin> area s \<longrightarrow> rview u b = rview s b)
    \<and> (\<forall>b. rrefs u b + (if b \<in> set (homes s) then 1 else 0) = rrefs s b)"
proof -
  let ?l = "(lg s)\<lparr>l_outstanding := 0, l_committing := True\<rparr>"
  let ?s = "s\<lparr>lg := ?l\<rparr>"
  have hs: "held s = []" using r by (simp add: commit_ready_def calm_def)
  have g: "log_geo s" "distinct (homes s)" using r by (simp_all add: commit_ready_def)
  have S: "commit_writes ?s = commit_writes s" "commit_ready ?s" "homes ?s = homes s" "lblocks ?s = lblocks s"
    using same_log [of ?l s] r by simp_all
  obtain u where u: "commit ?s = Done () u" "lg u = ?l\<lparr>l_lh := (l_lh (lg s))\<lparr>lh_n := 0\<rparr>\<rparr>"
      "bwrotes ?s (u\<lparr>lg := ?l\<rparr>) (commit_writes s) (\<lambda>b. if b \<in> set (homes s) then 1 else 0)"
    using commit_spec [OF S(2)] S n by auto
  note U = bwrotesD [OF u(3)]
  have fu: "held u = []" "curproc u = curproc s" using bframeD(1,2) [OF U(2)] hs by simp_all
  let ?m = "u\<lparr>lg := (lg u)\<lparr>l_committing := False\<rparr>\<rparr>"
  let ?t = "woken ChLog ?m {0..<NPROC}"
  have "no_proclock (?m\<lparr>held := [LogLock]\<rparr>)" by (simp add: no_proclock_def)
  then have "wakeup ChLog (?m\<lparr>held := [LogLock]\<rparr>) = Done () (?t\<lparr>held := [LogLock]\<rparr>)"
    by (simp add: wakeup_eq woken_upd_held)
  moreover have "?m\<lparr>held := [LogLock]\<rparr> = u\<lparr>held := [LogLock], lg := (lg u)\<lparr>l_committing := False\<rparr>\<rparr>" by simp
  ultimately have "wakeup ChLog (u\<lparr>held := [LogLock], lg := (lg u)\<lparr>l_committing := False\<rparr>\<rparr>) = Done () (?t\<lparr>held := [LogLock]\<rparr>)"
    by (rule subst [rotated])
  moreover have "?t\<lparr>held := []\<rparr> = ?t" using fu by simp
  ultimately have run: "end_op s = Done () ?t"
    using hs u(1) fu o1 nc by (simp add: end_op_def Let_def upd_log_def)
  have v: "rview u b = rview s b" if "unat b \<notin> area s" for b
  proof (cases "b \<in> set (homes s)")
    case True
    have "apply_writes D (home_copies s) b = rview s b" for D
      using apply_writes_at [of b "rview s b" "home_copies s" D] True g(2) by (auto simp: home_copies_def comp_def)
    moreover have "b \<noteq> hblk s" using that lblk_area(2) [OF g(1), of 0] by (auto simp: LOGBLOCKS_def MAXOPBLOCKS_def)
    ultimately have "apply_writes D (commit_writes s) b = rview s b" for D
      unfolding commit_writes_def apply_writes_append by (subst apply_writes_other) auto
    then show ?thesis using U(6) [of b] by simp
  next
    case False
    have "b \<notin> fst ` set (commit_writes s)"
      using that False log_copies_dom(1) [OF g(1)] lblk_area(2) [OF g(1), of 0] home_copies_dom(1) [of s]
      by (auto simp: commit_writes_def LOGBLOCKS_def MAXOPBLOCKS_def)
    then show ?thesis using U(6) [of b] by (simp add: apply_writes_other)
  qed
  have "lblocks ?t = []" by (simp add: lblocks_def u(2))
  then show ?thesis
    using run U(1,3,4,7) u(2) fu v by (intro exI [of _ ?t]) simp
qed

lemma apply_writes_again:
  assumes "D b = E b \<or> b \<in> fst ` set ws"
  shows "apply_writes D ws b = apply_writes E ws b"
  using assms
proof (induction ws rule: rev_induct)
  case (snoc x ws)
  then show ?case by (cases x; cases "b = fst x") simp_all
qed auto

lemma recover_again:
  assumes ok: "log_ok L D" and len: "length (D L) = BSIZE" and D': "D' = apply_writes D (take m (recover_writes L D))"
    and b: "b \<noteq> L"
  shows "log_ok L D'" "apply_writes D' (recover_writes L D') b = apply_writes D (recover_writes L D) b"
proof -
  let ?n = "nat (hd_n (D L))"
  define B where "B = map (\<lambda>k. (unat (word_of_int (hd_block (D L) k) :: uint), D (L + k + 1))) [0..<?n]"
  have W: "recover_writes L D = B @ [(L, put_head (D L) [])]" by (simp add: recover_writes_def B_def)
  have lB: "length B = ?n" by (simp add: B_def)
  have out: "fst ` set B \<inter> {L .. L + LOGBLOCKS} = {}" using ok by (auto simp: B_def log_ok_def)
  have h0: "hd_n (put_head (D L) []) = 0" using put_head(2) [OF len, of "[]"] by simp
  have "log_ok L D' \<and> apply_writes D' (recover_writes L D') b = apply_writes D (recover_writes L D) b"
  proof (cases "m \<le> ?n")
    case True
    then have d: "D' = apply_writes D (take m B)" using lB by (simp add: D' W)
    have sub: "fst ` set (take m B) \<subseteq> fst ` set B" by (rule image_mono) (rule set_take_subset)
    have same: "D' x = D x" if "x \<in> {L .. L + LOGBLOCKS}" for x
      unfolding d by (rule apply_writes_other) (use that out sub in blast)
    have n: "?n \<le> LOGBLOCKS" using ok unfolding log_ok_def by linarith
    have L: "D' L = D L" using same [of L] by simp
    have "recover_writes L D' = recover_writes L D"
      using same n by (simp add: recover_writes_def L)
    moreover have "D' b = D b \<or> b \<in> fst ` set B"
      using apply_writes_other [of b "take m B" D] sub by (auto simp: d)
    then have "apply_writes D' (recover_writes L D) b = apply_writes D (recover_writes L D) b"
      using W by (intro apply_writes_again) (simp, blast)
    ultimately show ?thesis using ok by (simp add: log_ok_def L)
  next
    case False
    then have d: "D' = apply_writes D (recover_writes L D)" using lB by (simp add: D' W)
    then have "D' L = put_head (D L) []" by (simp add: W)
    then have "recover_writes L D' = [(L, put_head (D' L) [])]" "log_ok L D'"
      by (simp_all add: recover_writes_def log_ok_def h0)
    then show ?thesis using b by (simp add: d [symmetric] apply_writes_other)
  qed
  then show "log_ok L D'" "apply_writes D' (recover_writes L D') b = apply_writes D (recover_writes L D) b" by blast+
qed

text \<open>\<open>crashed b D E\<close>: \<open>E\<close> is what any number of interrupted recoveries can leave of the disk \<open>D\<close>.  Each of them
  boots on the disk the one before left, and only a prefix of its writes reaches the disk.\<close>

inductive crashed :: "superblock \<Rightarrow> (nat \<Rightarrow> block) \<Rightarrow> (nat \<Rightarrow> block) \<Rightarrow> bool" for b D where
  none: "crashed b D D"
| again: "crashed b D E \<Longrightarrow> rebooted r \<Longrightarrow> dsk r = E \<Longrightarrow> initlog 1 b r = Done () u \<Longrightarrow> dwrites u = dwrites r @ ws
    \<Longrightarrow> crashed b D (apply_writes E (take m ws))"

definition logged_home :: "block \<Rightarrow> nat \<Rightarrow> nat" where
  "logged_home H k = unat (word_of_int (hd_block H k) :: uint)"

lemma rebooted_length: "rebooted r \<Longrightarrow> length (dsk r n) = BSIZE"
  by (simp add: rebooted_def binv_def bsize_def)

lemma crashed_recovers:
  assumes "crashed b D E" "sb_logstart b = of_nat L" "L + 31 < 2 ^ 31" "log_ok L D"
  shows "log_ok L E \<and> (\<forall>n. n \<noteq> L \<longrightarrow> apply_writes E (recover_writes L E) n = apply_writes D (recover_writes L D) n)"
  using assms(1)
proof (induction rule: crashed.induct)
  case none
  then show ?case using assms(4) by simp
next
  case (again E r u ws m)
  have ok: "log_ok L (dsk r)" using again by simp
  have "ws = recover_writes L E"
    using initlog_spec [OF again(2) assms(2,3) ok] again(3-5) by auto
  then have W: "apply_writes E (take m ws) = apply_writes E (take m (recover_writes L E))" by simp
  have l: "length (E L) = BSIZE" using rebooted_length [OF again(2), of L] again(3) by simp
  note R = recover_again [OF conjunct1 [OF again(6)] l W]
  have "log_ok L (apply_writes E (take m ws))" using R(1) [of "L + 1"] by simp
  then show ?case using R(2) again(6) by simp
qed

lemma recover_installs:
  assumes ok: "log_ok L D" and d: "distinct (map (logged_home (D L)) [0..<nat (hd_n (D L))])"
  shows "k < nat (hd_n (D L)) \<Longrightarrow> apply_writes D (recover_writes L D) (logged_home (D L) k) = D (L + k + 1)"
    "n \<notin> insert L (logged_home (D L) ` {0..<nat (hd_n (D L))}) \<Longrightarrow> apply_writes D (recover_writes L D) n = D n"
proof -
  let ?n = "nat (hd_n (D L))"
  define B where "B = map (\<lambda>k. (logged_home (D L) k, D (L + k + 1))) [0..<?n]"
  have W: "recover_writes L D = B @ [(L, put_head (D L) [])]" by (simp add: recover_writes_def B_def logged_home_def)
  have f: "map fst B = map (logged_home (D L)) [0..<?n]" by (simp add: B_def comp_def)
  have nl: "logged_home (D L) k \<noteq> L" if "k < ?n" for k using ok that by (auto simp: log_ok_def logged_home_def)
  show "apply_writes D (recover_writes L D) (logged_home (D L) k) = D (L + k + 1)" if k: "k < ?n"
  proof -
    have "(logged_home (D L) k, D (L + k + 1)) \<in> set B" using k by (auto simp: B_def)
    then have "apply_writes D B (logged_home (D L) k) = D (L + k + 1)" by (rule apply_writes_at) (simp only: f d)
    then show ?thesis unfolding W apply_writes_append using nl [OF k] by (simp add: apply_writes_other)
  qed
  show "apply_writes D (recover_writes L D) n = D n" if "n \<notin> insert L (logged_home (D L) ` {0..<?n})"
    unfolding W by (rule apply_writes_other) (use that in \<open>auto simp: B_def\<close>)
qed

section \<open>A transaction, for examples\<close>

text \<open>A machine booted on disk \<open>D\<close>, and one operation on it that has logged a new content for block 100.\<close>

definition booted :: "(nat \<Rightarrow> block) \<Rightarrow> kstate" where
  "booted D = (case binit (kboot0\<lparr>curproc := Some 0, dsk := D, io_in := \<lambda>_. 0x60, lg := (lg kboot0)\<lparr>l_start := 2, l_dev := 1\<rparr>\<rparr>) of
     Done _ s \<Rightarrow> s | Stop _ s \<Rightarrow> s)"

lemma booted:
  assumes "\<forall>n. length (D n) = BSIZE"
  shows "rebooted (booted D)" "dsk (booted D) = D" "lg (booted D) = (lg kboot0)\<lparr>l_start := 2, l_dev := 1\<rparr>"
proof -
  let ?s = "kboot0\<lparr>curproc := Some 0, dsk := D, io_in := \<lambda>_. 0x60, lg := (lg kboot0)\<lparr>l_start := 2, l_dev := 1\<rparr>\<rparr>"
  obtain t where t: "binit ?s = Done () t" "binv t" "t = ?s\<lparr>bufs := bufs t\<rparr>" "inuse t = 0"
    using binit_spec [of ?s] assms by (auto simp: fresh_buf_def buf0_def)
  have b: "booted D = t" by (simp add: booted_def t(1))
  have F: "held t = []" "curproc t = Some 0" "dsk t = D" "lg t = (lg kboot0)\<lparr>l_start := 2, l_dev := 1\<rparr>"
    "io_in t = (\<lambda>_. 0x60)" "panicked t = False" by (subst t(3), simp)+
  have "uart_ok t" using F by (simp add: uart_ok_def LSR_TX_IDLE_def push_bit_eq_mult)
  moreover have "length (lh_block (l_lh (lg kboot0))) = LOGBLOCKS" by (simp add: kboot0_def kboot_def)
  ultimately show "rebooted (booted D)" using t F by (simp add: b rebooted_def calm_def)
  show "dsk (booted D) = D" "lg (booted D) = (lg kboot0)\<lparr>l_start := 2, l_dev := 1\<rparr>" using F b by simp_all
qed

definition zeros :: "nat \<Rightarrow> block" where "zeros n = replicate BSIZE 0"

definition op1 :: kstate where
  "op1 = (case begin_op (booted zeros) of Done _ s \<Rightarrow> (case bread ROOTDEV 100 s of
      Done i s \<Rightarrow> upd_buf i (\<lambda>r. r\<lparr>b_data := replicate BSIZE 7\<rparr>) s | Stop _ s \<Rightarrow> s) | Stop _ s \<Rightarrow> s)"

definition tx1 :: kstate where
  "tx1 = (case bidx op1 ROOTDEV 100 of Some i \<Rightarrow> (case log_write i op1 of
      Done _ s \<Rightarrow> (case brelse i s of Done _ s \<Rightarrow> s | Stop _ s \<Rightarrow> s) | Stop _ s \<Rightarrow> s) | None \<Rightarrow> op1)"

lemma lg_kboot0: "lg kboot0 = \<lparr>l_start = 0, l_outstanding = 0, l_committing = False, l_dev = 0,
    l_lh = \<lparr>lh_n = 0, lh_block = replicate LOGBLOCKS 0\<rparr>\<rparr>"
  by (simp add: kboot0_def kboot_def)

lemma hd_n_zeros [simp]: "hd_n (zeros n) = 0"
proof -
  have "slice (replicate BSIZE 0) 0 4 = [0, 0, 0, 0 :: byte]"
    by (simp add: slice_def BSIZE_def take_replicate eval_nat_numeral)
  then show ?thesis by (simp add: zeros_def hd_n_def get32_def)
qed

lemma booted_zeros:
  "binv (booted zeros)" "calm (booted zeros)" "rrefs (booted zeros) b = 0" "inuse (booted zeros) = 0" "dsk (booted zeros) = zeros"
proof -
  note B = booted [of zeros, simplified zeros_def length_replicate, folded zeros_def]
  show "binv (booted zeros)" "calm (booted zeros)" "inuse (booted zeros) = 0" using B(1) by (simp_all add: rebooted_def)
  then show "rrefs (booted zeros) b = 0" using inuse_0_refs by blast
  show "dsk (booted zeros) = zeros" using B(2) by (simp add: zeros_def [abs_def])
qed


lemma op1:
  "\<exists>i. rheld op1 i 100" "tx_inv op1" "homes op1 = []" "l_outstanding (lg op1) = 1" "\<not> l_committing (lg op1)"
  "lh_n (l_lh (lg op1)) = 0" "area op1 = {2..32}" "l_start (lg op1) = 2"
  "rrefs op1 b = (if b = 100 then 1 else 0)" "rview op1 100 = replicate BSIZE 7" "inuse op1 = 1" "dsk op1 = zeros"
  "rlckd op1 b = (b = 100)"
proof -
  let ?s = "booted zeros" and ?v = "replicate BSIZE 7 :: block"
  note Z = booted_zeros
  have L: "lg ?s = (lg kboot0)\<lparr>l_start := 2, l_dev := 1\<rparr>" using booted(3) [of zeros] by (simp add: zeros_def)
  obtain p where hp: "held ?s = []" "curproc ?s = Some p" using Z(2) by (rule calmE)
  define s1 where "s1 = ?s\<lparr>lg := (lg ?s)\<lparr>l_outstanding := 1\<rparr>\<rparr>"
  have b: "begin_op ?s = Done () s1"
    using hp L by (simp add: begin_op_eq begin_op_loop_def lg_kboot0 s1_def upd_log_def LOGBLOCKS_def MAXOPBLOCKS_def)
  have S: "binv s1" "held s1 = []" "curproc s1 = Some p" "\<not> rlckd s1 100" "inuse s1 = 0" "rrefs s1 b = 0"
      "dsk s1 = zeros" "calm s1" for b
    using Z hp unreferenced(1) [OF Z(1) Z(3)] by (simp_all add: s1_def)
  obtain i t where t: "bread ROOTDEV 100 s1 = Done i t" "binv t" "bframe s1 t" "rheld t i 100" "bsame s1 t 100"
    "dsk t = zeros" "inuse t = 1" "rrefs t 100 = 1" "rlckd t 100"
    using bread_spec [OF S(1-4)] S(5-7) by (auto simp: NBUF_def MAXOPBLOCKS_def)
  define u where "u = upd_buf i (\<lambda>r. r\<lparr>b_data := ?v\<rparr>) t"
  have e: "op1 = u" by (simp add: op1_def b t(1) u_def)
  note U = bput_spec [OF t(2,4) _ u_def]
  have U': "binv u" "bframe t u" "bsame t u 100" "rview u 100 = ?v" "rrefs u 100 = 1" "rlckd u 100"
    "inuse u = 1" "rheld u i 100" "dsk u = zeros" using U t by (simp_all add: BSIZE_def)
  have lu: "lg u = lg s1" using bframeD(4) [OF t(3)] bframeD(4) [OF U'(2)] by simp
  have lu': "lg u = \<lparr>l_start = 2, l_outstanding = 1, l_committing = False, l_dev = 1,
    l_lh = \<lparr>lh_n = 0, lh_block = replicate LOGBLOCKS 0\<rparr>\<rparr>" by (simp add: lu s1_def L lg_kboot0)
  have cu: "calm u" using S(8) calm_frame [OF t(3)] calm_frame [OF U'(2)] by simp
  show "\<exists>i. rheld op1 i 100" using U'(8) e by blast
  show h: "homes op1 = []" "l_outstanding (lg op1) = 1" "\<not> l_committing (lg op1)" "lh_n (l_lh (lg op1)) = 0"
    "area op1 = {2..32}" "l_start (lg op1) = 2"
    by (simp_all add: e homes_def lblocks_def lu' area_def LOGBLOCKS_def MAXOPBLOCKS_def)
  show "rrefs op1 b = (if b = 100 then 1 else 0)" "rlckd op1 b = (b = 100)"
    using U'(5,6) bsameD(2,3) [OF t(5), of b] bsameD(2,3) [OF U'(3), of b] S(6) unreferenced(1) [OF S(1) S(6), of b]
    by (cases "b = 100"; simp add: e)+
  show "rview op1 100 = replicate BSIZE 7" "inuse op1 = 1" "dsk op1 = zeros" using U' by (simp_all add: e)
  show "tx_inv op1" using U'(1) cu h(1) by (simp add: tx_inv_def e log_geo_def lu')
qed

lemma tx1:
  "commit_ready tx1" "homes tx1 = [100]" "l_outstanding (lg tx1) = 1" "\<not> l_committing (lg tx1)" "area tx1 = {2..32}"
  "l_start (lg tx1) = 2" "rview tx1 100 = replicate BSIZE 7" "dsk tx1 = zeros"
proof -
  obtain i where i: "rheld op1 i 100" using op1(1) by blast
  then have bi: "bidx op1 ROOTDEV 100 = Some i" by (simp add: bheld_def)
  obtain s l where s: "log_write i op1 = Done () s" "tx_inv s" "lg s = (lg op1)\<lparr>l_lh := l\<rparr>" "homes s = [100]"
     "rheld s i 100" "bsame op1 s 100" "rview s 100 = replicate BSIZE 7" "rrefs s 100 = 2" "inuse s = 1" "dsk s = zeros"
    using log_write_spec [OF op1(2) i] op1 by (auto simp: LOGBLOCKS_def MAXOPBLOCKS_def)
  have I: "binv s" "calm s" using s(2) by (simp_all add: tx_inv_def)
  obtain p where hp: "held s = []" "curproc s = Some p" using I(2) by (rule calmE)
  obtain t where t: "brelse i s = Done () t" "binv t" "bframe s t" "bsame s t 100" "dsk t = dsk s"
    "rview t 100 = rview s 100" "rrefs t 100 + 1 = rrefs s 100" "\<not> rlckd t 100" "inuse t = inuse s"
    using brelse_spec [OF I(1) hp s(5)] s(8) by auto
  have e: "tx1 = t" by (simp add: tx1_def bi s(1) t(1))
  note F = log_frame [OF t(3)]
  have lt: "lg t = (lg op1)\<lparr>l_lh := l\<rparr>" using bframeD(4) [OF t(3)] s(3) by simp
  have r: "rrefs t b = (if b = 100 then 1 else 0)" "\<not> rlckd t b" for b
    using bsameD(2,3) [OF s(6), of b] bsameD(2,3) [OF t(4), of b] op1(9,13) [of b] t(7,8) s(8)
    by (cases "b = 100"; simp)+
  have g: "log_geo t" "area t = {2..32}" "homes t = [100]" "calm t"
    using s(2,4) F op1(7) calm_frame [OF t(3)] log_geo_frame(1) [OF t(3)] lt
    by (simp_all add: tx_inv_def area_def)
  have "log_free t" using r by (simp add: log_free_def)
  then show "commit_ready tx1"
    using t(2,9) g r s(9) by (simp add: commit_ready_def e NBUF_def MAXOPBLOCKS_def)
  show "homes tx1 = [100]" "area tx1 = {2..32}" "dsk tx1 = zeros" "rview tx1 100 = replicate BSIZE 7"
    using g t s by (simp_all add: e)
  show "l_outstanding (lg tx1) = 1" "\<not> l_committing (lg tx1)" "l_start (lg tx1) = 2"
    using op1 by (simp_all add: e lt)
qed


section \<open>Properties\<close>

text \<open>C4: \<open>log_write\<close> keeps the invariant of a transaction being built: the logged blocks are distinct, each is
  pinned in the cache, and none lies in the log area.  A block logged for the first time is appended to
  the header and pinned once; a block logged again is absorbed.  The content of the blocks
  and the disk do not change.\<close>

theorem log_write_extends_transaction:
  assumes "tx_inv s" "rheld s i bn" "lh_n (l_lh (lg s)) < int LOGBLOCKS" "1 \<le> l_outstanding (lg s)"
    "unat bn \<notin> area s" "rrefs s bn + 1 < 2 ^ 32"
  shows "\<exists>t. log_write i s = Done () t \<and> tx_inv t
    \<and> homes t = (if bn \<in> set (homes s) then homes s else homes s @ [bn])
    \<and> rrefs t bn = rrefs s bn + (if bn \<in> set (homes s) then 0 else 1)
    \<and> rview t bn = rview s bn \<and> bsame s t bn \<and> dsk t = dsk s \<and> dwrites t = dwrites s"
  using log_write_spec [OF assms] by blast

theorem log_write_extends_transaction_witness:
  "\<exists>i t. rheld op1 i 100 \<and> log_write i op1 = Done () t \<and> tx_inv t \<and> homes t = [100] \<and> rrefs t 100 = 2"
proof -
  obtain i where i: "rheld op1 i 100" using op1(1) by blast
  have "unat (100 :: uint) \<notin> area op1" using op1(7) by simp
  then show ?thesis
    using log_write_extends_transaction [OF op1(2) i] op1 i by (auto simp: LOGBLOCKS_def MAXOPBLOCKS_def)
qed



text \<open>C6: \<open>log_write\<close> refuses misuse: it panics when the transaction already has \<open>LOGBLOCKS\<close> blocks, even for a block
  it could absorb, and otherwise when no operation is active; the log and the cache are untouched.\<close>

theorem log_write_misuse_panics:
  assumes "held s = []" "int LOGBLOCKS \<le> lh_n (l_lh (lg s)) \<or> l_outstanding (lg s) < 1"
  shows "log_write i s = Stop (Panic (if int LOGBLOCKS \<le> lh_n (l_lh (lg s)) then ''too big a transaction''
      else ''log_write outside of trans'')) (s\<lparr>held := [LogLock]\<rparr>)"
  using assms by (cases "int LOGBLOCKS \<le> lh_n (l_lh (lg s))") (simp_all add: log_write_eq panic_def)

theorem log_write_misuse_panics_witness:
  "log_write 3 kboot0 = Stop (Panic ''log_write outside of trans'') (kboot0\<lparr>held := [LogLock]\<rparr>)"
  using log_write_misuse_panics [of kboot0 3] by (simp add: lg_kboot0 LOGBLOCKS_def MAXOPBLOCKS_def)

text \<open>C3: The last \<open>end_op\<close> of a transaction commits it: the disk is written with the copies in the log, the
  header, the blocks at their homes, and the cleared header, in that order and nothing else.  Afterwards
  every logged block has its cached content on the disk, the log is empty and open for new operations, and each
  logged block has lost exactly the reference that pinned it.\<close>

theorem end_op_commits:
  assumes "commit_ready s" "lblocks s \<noteq> []" "l_outstanding (lg s) = 1" "\<not> l_committing (lg s)"
  shows "\<exists>u. end_op s = Done () u \<and> binv u \<and> held u = []
    \<and> lblocks u = [] \<and> l_outstanding (lg u) = 0 \<and> \<not> l_committing (lg u)
    \<and> dwrites u = dwrites s @ on_disk (log_copies s @ [(hblk s, head_of s)] @ home_copies s @ [(hblk s, put_head (head_of s) [])])
    \<and> (\<forall>b \<in> set (homes s). dsk u (unat b) = rview s b)
    \<and> (\<forall>n. n \<notin> area s \<longrightarrow> n \<notin> unat ` set (homes s) \<longrightarrow> dsk u n = dsk s n)
    \<and> (\<forall>b. unat b \<notin> area s \<longrightarrow> rview u b = rview s b)
    \<and> (\<forall>b. rrefs u b + (if b \<in> set (homes s) then 1 else 0) = rrefs s b)"
proof -
  obtain u where u: "end_op s = Done () u" "binv u" "held u = []" "lblocks u = []" "l_outstanding (lg u) = 0"
    "\<not> l_committing (lg u)" "dwrites u = dwrites s @ on_disk (commit_writes s)"
    "dsk u = apply_writes (dsk s) (on_disk (commit_writes s))" "\<forall>b. unat b \<notin> area s \<longrightarrow> rview u b = rview s b"
    "\<forall>b. rrefs u b + (if b \<in> set (homes s) then 1 else 0) = rrefs s b"
    using end_op_spec [OF assms] by blast
  note W = commit_writes_effect [OF assms(1), of _ "dsk s"]
  have "unat b \<notin> area s" if "b \<in> set (homes s)" for b using that assms(1) by (simp add: commit_ready_def)
  then have "\<forall>b \<in> set (homes s). dsk u (unat b) = rview s b" using W u(8) by simp
  moreover have "\<forall>n. n \<notin> area s \<longrightarrow> n \<notin> unat ` set (homes s) \<longrightarrow> dsk u n = dsk s n" using W u(8) by simp
  ultimately show ?thesis using u(1-7,9,10) unfolding commit_writes_def by blast
qed

theorem end_op_commits_witness:
  "\<exists>u. end_op tx1 = Done () u \<and> dsk u 100 = replicate BSIZE 7 \<and> dsk u 99 = zeros 99"
proof -
  have n: "lblocks tx1 \<noteq> []" using tx1(2) by (auto simp: homes_def)
  show ?thesis using end_op_commits [OF tx1(1) n tx1(3,4)] tx1 by auto
qed

text \<open>C1: A transaction is atomic under a crash.  Let the machine crash when \<open>m\<close> of the writes of \<open>commit\<close> have
  reached the disk, and boot again on that disk.  Then \<open>initlog\<close> recovers without panic, leaves the
  log empty, and outside the log area the disk holds the old contents of all blocks when the
  header had not been written, and the new contents of all the logged blocks when it had.\<close>

theorem commit_crash_atomic:
  assumes "commit_ready s" "lblocks s \<noteq> []" "hd_n (dsk s (nat (l_start (lg s)))) = 0"
    "commit s = Done () u" "dwrites u = dwrites s @ ws"
    "rebooted r" "dsk r = apply_writes (dsk s) (take m ws)" "sb_logstart b = of_nat (nat (l_start (lg s)))"
  shows "\<exists>v. initlog 1 b r = Done () v \<and> binv v \<and> hd_n (dsk v (nat (l_start (lg s)))) = 0
    \<and> (\<forall>n. n \<notin> area s \<longrightarrow> dsk v n =
      (if length (homes s) < m \<and> n \<in> unat ` set (homes s) then rview s (of_nat n) else dsk s n))"
proof -
  have "ws = on_disk (commit_writes s)"
    using commit_spec [OF assms(1,2)] assms(4,5) by (auto simp: bwrotes_def)
  then show ?thesis using crash_spec [OF assms(1,2) refl assms(3,6) _ assms(8), of m] assms(7) by simp
qed

definition crash1 :: "nat \<Rightarrow> kstate" where
  "crash1 m = booted (apply_writes zeros (take m (on_disk (commit_writes tx1))))"

theorem commit_crash_atomic_witness:
  "\<exists>v. initlog 1 ((sb kboot0)\<lparr>sb_logstart := 2\<rparr>) (crash1 2) = Done () v \<and> dsk v 100 = replicate BSIZE 7"
proof -
  have n: "lblocks tx1 \<noteq> []" using tx1(2) by (auto simp: homes_def)
  obtain u where u: "commit tx1 = Done () u" "dwrites u = dwrites tx1 @ on_disk (commit_writes tx1)"
    using commit_spec [OF tx1(1) n] by (auto simp: bwrotes_def)
  have len: "length (snd w) = BSIZE" if "w \<in> set (commit_writes tx1)" for w
    using that length_rview [of tx1] tx1(1) put_head(1) log_geoD(3) [of tx1]
    by (auto simp: commit_writes_def log_copies_def home_copies_def head_of_def commit_ready_def)
  have "\<forall>n. length (apply_writes zeros (take 2 (on_disk (commit_writes tx1))) n) = BSIZE"
  proof
    fix n
    have "length (apply_writes zeros ws n) = BSIZE" if "\<forall>w \<in> set ws. length (snd w) = BSIZE" for ws n
      using that by (induction ws arbitrary: n rule: rev_induct) (auto simp: zeros_def)
    moreover have "\<forall>w \<in> set (take 2 (on_disk (commit_writes tx1))). length (snd w) = BSIZE"
      using len by (fastforce dest: in_set_takeD)
    ultimately show "length (apply_writes zeros (take 2 (on_disk (commit_writes tx1))) n) = BSIZE" by blast
  qed
  note R = booted(1,2) [OF this]
  have h: "hd_n (dsk tx1 (nat (l_start (lg tx1)))) = 0"
    by (simp add: tx1)
  show ?thesis
    using commit_crash_atomic [OF tx1(1) n h u, of "crash1 2" 2 "(sb kboot0)\<lparr>sb_logstart := 2\<rparr>"] R tx1
    by (auto simp: crash1_def)
qed

text \<open>C2: Recovery may itself crash, any number of times.  Let \<open>D\<close> be a disk whose log names the blocks of a
  transaction, and let any number of recoveries start on it, each interrupted after some prefix of its
  writes.  The next recovery that is not interrupted succeeds: it clears the header, every block the header of
  \<open>D\<close> named holds the content logged for it in \<open>D\<close>, and every other block is as it was in \<open>D\<close>.\<close>

theorem recovery_crash_safe:
  assumes "sb_logstart b = of_nat L" "L + 31 < 2 ^ 31" "log_ok L D"
    "distinct (map (logged_home (D L)) [0..<nat (hd_n (D L))])"
    "crashed b D E" "rebooted q" "dsk q = E"
  shows "\<exists>v. initlog 1 b q = Done () v \<and> hd_n (dsk v L) = 0
    \<and> (\<forall>k < nat (hd_n (D L)). dsk v (logged_home (D L) k) = D (L + k + 1))
    \<and> (\<forall>n. n \<notin> insert L (logged_home (D L) ` {0..<nat (hd_n (D L))}) \<longrightarrow> dsk v n = D n)"
proof -
  have C: "log_ok L E" "n \<noteq> L \<Longrightarrow> apply_writes E (recover_writes L E) n = apply_writes D (recover_writes L D) n" for n
    using crashed_recovers [OF assms(5,1-3)] by simp_all
  obtain v where v: "initlog 1 b q = Done () v" "dsk v = apply_writes E (recover_writes L E)"
    using initlog_spec [OF assms(6,1,2)] C(1) assms(7) by auto
  have l: "length (E L) = BSIZE" using rebooted_length [OF assms(6), of L] assms(7) by simp
  have "dsk v L = put_head (E L) []" by (simp add: v(2) recover_writes_def)
  then have "hd_n (dsk v L) = 0" using put_head(2) [OF l, of "[]"] by simp
  moreover have "logged_home (D L) k \<noteq> L" if "k < nat (hd_n (D L))" for k
    using assms(3) that by (auto simp: log_ok_def logged_home_def)
  ultimately show ?thesis using v C(2) recover_installs [OF assms(3,4)] by auto
qed

text \<open>A disk whose log holds a committed transaction for block 100 that is not installed yet.  The first recovery is
  interrupted before its first write, the second between installing the block and clearing the header.\<close>

definition logged1 :: "nat \<Rightarrow> block" where
  "logged1 = zeros(2 := put_head (zeros 2) [100], 3 := replicate BSIZE 7)"

theorem recovery_crash_safe_witness:
  "\<exists>E v. crashed ((sb kboot0)\<lparr>sb_logstart := 2\<rparr>) logged1 E \<and> logged1 100 = replicate BSIZE 0
     \<and> initlog 1 ((sb kboot0)\<lparr>sb_logstart := 2\<rparr>) (booted E) = Done () v
     \<and> hd_n (E 2) = 1 \<and> hd_n (dsk v 2) = 0 \<and> dsk v 100 = replicate BSIZE 7 \<and> dsk v 99 = zeros 99"
proof -
  let ?b = "(sb kboot0)\<lparr>sb_logstart := 2\<rparr>"
  have z: "length (zeros 2) = BSIZE" by (simp add: zeros_def)
  note P = put_head [OF z, of "[100]"]
  have H: "hd_n (logged1 2) = 1" "logged_home (logged1 2) 0 = 100" "logged1 3 = replicate BSIZE 7" "logged1 100 = replicate BSIZE 0"
    using P(2) P(3) [of 0] by (simp_all add: logged1_def logged_home_def zeros_def LOGBLOCKS_def MAXOPBLOCKS_def)
  have len: "\<forall>n. length (logged1 n) = BSIZE" using P(1) by (simp add: logged1_def zeros_def LOGBLOCKS_def MAXOPBLOCKS_def)
  have ok: "log_ok 2 logged1" using H by (simp add: log_ok_def LOGBLOCKS_def MAXOPBLOCKS_def logged_home_def)
  have W: "recover_writes 2 logged1 = [(100, replicate BSIZE 7), (2, put_head (logged1 2) [])]"
    using H by (simp add: recover_writes_def logged_home_def numeral_3_eq_3 [symmetric])
  note R = booted(1,2) [OF len]
  obtain u where u: "initlog 1 ?b (booted logged1) = Done () u" "dwrites u = dwrites (booted logged1) @ recover_writes 2 logged1"
    using initlog_spec [OF R(1), of ?b 2] ok R(2) by auto
  define E where "E = logged1(100 := replicate BSIZE 7)"
  have "crashed ?b logged1 (apply_writes logged1 (take 0 (recover_writes 2 logged1)))"
    by (rule crashed.again [OF crashed.none R u])
  then have "crashed ?b logged1 logged1" by simp
  from crashed.again [OF this R u, of 1] have c: "crashed ?b logged1 E" by (simp add: W E_def apply_writes_def)
  have le: "\<forall>n. length (E n) = BSIZE" using len by (simp add: E_def)
  have "distinct (map (logged_home (logged1 2)) [0..<nat (hd_n (logged1 2))])" using H by simp
  from recovery_crash_safe [OF _ _ ok this c booted(1,2) [OF le]]
  obtain v where v: "initlog 1 ?b (booted E) = Done () v" "hd_n (dsk v 2) = 0"
      "\<forall>k < nat (hd_n (logged1 2)). dsk v (logged_home (logged1 2) k) = logged1 (2 + k + 1)"
      "\<forall>n. n \<notin> insert 2 (logged_home (logged1 2) ` {0..<nat (hd_n (logged1 2))}) \<longrightarrow> dsk v n = logged1 n"
    by auto
  have "dsk v 100 = replicate BSIZE 7" using v(3) H by simp
  moreover have "dsk v 99 = zeros 99" using v(4) H by (simp add: logged1_def)
  moreover have "hd_n (E 2) = 1" using H by (simp add: E_def)
  ultimately show ?thesis using c v H(4) by blast
qed

end
