(* ===== verification/Fs.thy ===== *)
theory Fs
  imports Log Strings
begin

text \<open>
  The file system (\<open>kernel/fs.c\<close>): superblock, block allocation in the bitmap, inodes in the table and on
  disk, file contents through direct and indirect blocks, directories and path names.  An inode
  pointer is the index of the table entry, so the tests for a null pointer in \<open>ilock\<close> and \<open>iunlock\<close>
  are always false here.  A copy to or from an array that is a local variable of the caller is the
  destination \<open>ToLocal\<close>, whose bytes are returned, or the source \<open>FromLocal\<close>.
\<close>

section \<open>On-disk format (kernel/fs.h, kernel/stat.h)\<close>

definition ROOTINO :: uint where "ROOTINO = 1"
definition FSMAGIC :: uint where "FSMAGIC = 0x10203040"
definition NDIRECT :: nat where "NDIRECT = 12"
definition NINDIRECT :: nat where "NINDIRECT = BSIZE div 4"
definition MAXFILE :: nat where "MAXFILE = NDIRECT + NINDIRECT"
definition DINODE_SIZE :: nat where "DINODE_SIZE = 64"
definition IPB :: nat where "IPB = BSIZE div DINODE_SIZE"
definition BPB :: nat where "BPB = BSIZE * 8"
definition DIRSIZ :: nat where "DIRSIZ = 14"
definition T_DIR :: ushort where "T_DIR = 1"
definition T_FILE :: ushort where "T_FILE = 2"
definition T_DEVICE :: ushort where "T_DEVICE = 3"

record dinode =
  d_type :: ushort
  d_major :: ushort
  d_minor :: ushort
  d_nlink :: ushort
  d_size :: uint
  d_addrs :: "uint list"

record stat =
  st_dev :: int
  st_ino :: uint
  st_type :: ushort
  st_nlink :: ushort
  st_size :: uint64

definition IBLOCK :: "uint \<Rightarrow> superblock \<Rightarrow> uint" where
  "IBLOCK i b = of_nat (unat i div IPB) + sb_inodestart b"

definition BBLOCK :: "uint \<Rightarrow> superblock \<Rightarrow> uint" where
  "BBLOCK i b = of_nat (unat i div BPB) + sb_bmapstart b"

text \<open>The structure \<open>dinode\<close> at index \<open>k\<close> of an inode block, read and written in place.\<close>

definition get_dinode :: "block \<Rightarrow> nat \<Rightarrow> dinode" where
  "get_dinode b k = (let o0 = DINODE_SIZE * k in
     \<lparr>d_type = get16 b o0, d_major = get16 b (o0 + 2), d_minor = get16 b (o0 + 4), d_nlink = get16 b (o0 + 6),
      d_size = get32 b (o0 + 8), d_addrs = map (\<lambda>i. get32 b (o0 + 12 + 4 * i)) [0..<NDIRECT + 1]\<rparr>)"

definition put_addrs :: "block \<Rightarrow> nat \<Rightarrow> uint list \<Rightarrow> block" where
  "put_addrs b o0 as = splice b o0 (concat (map (bytes_of 4) as))"

definition put_dinode :: "block \<Rightarrow> nat \<Rightarrow> dinode \<Rightarrow> block" where
  "put_dinode b k d = (let o0 = DINODE_SIZE * k in
     put_addrs (put32 (put16 (put16 (put16 (put16 b o0 (d_type d)) (o0 + 2) (d_major d)) (o0 + 4) (d_minor d))
       (o0 + 6) (d_nlink d)) (o0 + 8) (d_size d)) (o0 + 12) (d_addrs d))"

section \<open>Superblock and blocks\<close>

definition superblock_of :: "block \<Rightarrow> superblock" where
  "superblock_of b = \<lparr>sb_magic = get32 b 0, sb_size = get32 b 4, sb_nblocks = get32 b 8, sb_ninodes = get32 b 12,
     sb_nlog = get32 b 16, sb_logstart = get32 b 20, sb_inodestart = get32 b 24, sb_bmapstart = get32 b 28\<rparr>"

definition readsb :: "uint \<Rightarrow> kstate \<Rightarrow> unit kres" where
  "readsb dev s =
    bnd (bread dev 1 s) (\<lambda>bp s.
    brelse bp (s\<lparr>sb := superblock_of (b_data (bufs s bp))\<rparr>))"

definition bzero :: "uint \<Rightarrow> uint \<Rightarrow> kstate \<Rightarrow> unit kres" where
  "bzero dev bno s =
    bnd (bread dev bno s) (\<lambda>bp s.
    let s = upd_buf bp (\<lambda>r. r\<lparr>b_data := replicate BSIZE 0\<rparr>) s in
    bnd (log_write bp s) (\<lambda>_ s. brelse bp s))"

definition bit_set :: "block \<Rightarrow> nat \<Rightarrow> bool" where
  "bit_set b bi \<longleftrightarrow> (b ! (bi div 8)) AND push_bit (bi mod 8) 1 \<noteq> 0"

definition set_bit_in :: "block \<Rightarrow> nat \<Rightarrow> block" where
  "set_bit_in b bi = b[bi div 8 := (b ! (bi div 8)) OR push_bit (bi mod 8) 1]"

definition clear_bit_in :: "block \<Rightarrow> nat \<Rightarrow> block" where
  "clear_bit_in b bi = b[bi div 8 := (b ! (bi div 8)) AND NOT (push_bit (bi mod 8) 1)]"

function balloc_loop :: "uint \<Rightarrow> nat \<Rightarrow> kstate \<Rightarrow> uint kres" where
  "balloc_loop dev b s =
    (if b < unat (sb_size (sb s))
     then bnd (bread dev (BBLOCK (of_nat b) (sb s)) s) (\<lambda>bp s.
       case find (\<lambda>bi. \<not> bit_set (b_data (bufs s bp)) bi) [0..<min BPB (unat (sb_size (sb s)) - b)] of
         Some bi \<Rightarrow>
           let s = upd_buf bp (\<lambda>r. r\<lparr>b_data := set_bit_in (b_data r) bi\<rparr>) s in
           bnd (log_write bp s) (\<lambda>_ s.
           bnd (brelse bp s) (\<lambda>_ s.
           bnd (bzero dev (of_nat (b + bi)) s) (\<lambda>_ s. Done (of_nat (b + bi)) s)))
       | None \<Rightarrow> bnd (brelse bp s) (\<lambda>_ s. balloc_loop dev (b + BPB) s))
     else bnd (printf (txt_of ''balloc: out of blocks'' @ [10]) [] s) (\<lambda>_ s. Done 0 s))"
  by pat_completeness auto
termination
proof (relation "measure (\<lambda>(_, b, _). 2 ^ 32 - b)")
  fix dev :: uint and b :: nat and s t :: kstate
  assume "b < unat (sb_size (sb s))"
  then have "b < 2 ^ 32" using unat_lt32 [of "sb_size (sb s)"] by (simp del: unat_lt32)
  then show "((dev, b + BPB, t), dev, b, s) \<in> measure (\<lambda>(_, b, _). 2 ^ 32 - b)"
    by (simp add: BPB_def BSIZE_def)
qed simp

declare balloc_loop.simps [simp del]

definition balloc :: "uint \<Rightarrow> kstate \<Rightarrow> uint kres" where
  "balloc dev s = balloc_loop dev 0 s"

definition bfree :: "uint \<Rightarrow> uint \<Rightarrow> kstate \<Rightarrow> unit kres" where
  "bfree dev b s =
    bnd (bread dev (BBLOCK b (sb s)) s) (\<lambda>bp s.
    let bi = unat b mod BPB in
    if \<not> bit_set (b_data (bufs s bp)) bi then panic ''freeing free block'' s
    else let s = upd_buf bp (\<lambda>r. r\<lparr>b_data := clear_bit_in (b_data r) bi\<rparr>) s in
      bnd (log_write bp s) (\<lambda>_ s. brelse bp s))"

section \<open>Inodes\<close>

definition iinit :: "kstate \<Rightarrow> kstate" where
  "iinit s = fold (\<lambda>i s. initsleeplock (InodeSlk i) s) [0..<NINODE] s"

text \<open>The first slot that matches, and the first empty slot before it.\<close>

definition iget :: "uint \<Rightarrow> uint \<Rightarrow> kstate \<Rightarrow> nat kres" where
  "iget dev inum s =
    bnd (kacquire ItableLock s) (\<lambda>_ s.
    case find (\<lambda>i. i_ref (itable s i) > 0 \<and> i_dev (itable s i) = dev \<and> i_inum (itable s i) = inum) [0..<NINODE] of
      Some i \<Rightarrow>
        let s = upd_inode i (\<lambda>r. r\<lparr>i_ref := i_ref r + 1\<rparr>) s in
        bnd (krelease ItableLock s) (\<lambda>_ s. Done i s)
    | None \<Rightarrow>
      (case find (\<lambda>i. i_ref (itable s i) = 0) [0..<NINODE] of
         None \<Rightarrow> panic ''iget: no inodes'' s
       | Some i \<Rightarrow>
         let s = upd_inode i (\<lambda>r. r\<lparr>i_dev := dev, i_inum := inum, i_ref := 1, i_valid := False\<rparr>) s in
         bnd (krelease ItableLock s) (\<lambda>_ s. Done i s)))"

fun ialloc_loop :: "uint \<Rightarrow> ushort \<Rightarrow> nat list \<Rightarrow> kstate \<Rightarrow> nat option kres" where
  "ialloc_loop dev type [] s =
    bnd (printf (txt_of ''ialloc: no inodes'' @ [10]) [] s) (\<lambda>_ s. Done None s)"
| "ialloc_loop dev type (inum # inums) s =
    bnd (bread dev (IBLOCK (of_nat inum) (sb s)) s) (\<lambda>bp s.
    if d_type (get_dinode (b_data (bufs s bp)) (inum mod IPB)) = 0
    then let s = upd_buf bp (\<lambda>r. r\<lparr>b_data := put16 (splice (b_data r) (DINODE_SIZE * (inum mod IPB)) (replicate DINODE_SIZE 0))
                (DINODE_SIZE * (inum mod IPB)) type\<rparr>) s in
      bnd (log_write bp s) (\<lambda>_ s.
      bnd (brelse bp s) (\<lambda>_ s.
      bnd (iget dev (of_nat inum) s) (\<lambda>ip s. Done (Some ip) s)))
    else bnd (brelse bp s) (\<lambda>_ s. ialloc_loop dev type inums s))"

definition ialloc :: "uint \<Rightarrow> ushort \<Rightarrow> kstate \<Rightarrow> nat option kres" where
  "ialloc dev type s = ialloc_loop dev type [1..<unat (sb_ninodes (sb s))] s"

definition iupdate :: "nat \<Rightarrow> kstate \<Rightarrow> unit kres" where
  "iupdate ip s =
    bnd (bread (i_dev (itable s ip)) (IBLOCK (i_inum (itable s ip)) (sb s)) s) (\<lambda>bp s.
    let r = itable s ip;
        s = upd_buf bp (\<lambda>b. b\<lparr>b_data := put_dinode (b_data b) (unat (i_inum r) mod IPB)
              \<lparr>d_type = i_type r, d_major = i_major r, d_minor = i_minor r, d_nlink = i_nlink r,
               d_size = i_size r, d_addrs = i_addrs r\<rparr>\<rparr>) s in
    bnd (log_write bp s) (\<lambda>_ s. brelse bp s))"

definition idup :: "nat \<Rightarrow> kstate \<Rightarrow> nat kres" where
  "idup ip s =
    bnd (kacquire ItableLock s) (\<lambda>_ s.
    let s = upd_inode ip (\<lambda>r. r\<lparr>i_ref := i_ref r + 1\<rparr>) s in
    bnd (krelease ItableLock s) (\<lambda>_ s. Done ip s))"

definition ilock :: "nat \<Rightarrow> kstate \<Rightarrow> unit kres" where
  "ilock ip s =
    (if i_ref (itable s ip) < 1 then panic ''ilock'' s
     else bnd (acquiresleep (InodeSlk ip) s) (\<lambda>_ s.
       if \<not> i_valid (itable s ip)
       then bnd (bread (i_dev (itable s ip)) (IBLOCK (i_inum (itable s ip)) (sb s)) s) (\<lambda>bp s.
         let d = get_dinode (b_data (bufs s bp)) (unat (i_inum (itable s ip)) mod IPB);
             s = upd_inode ip (\<lambda>r. r\<lparr>i_type := d_type d, i_major := d_major d, i_minor := d_minor d,
                   i_nlink := d_nlink d, i_size := d_size d, i_addrs := d_addrs d\<rparr>) s in
         bnd (brelse bp s) (\<lambda>_ s.
         let s = upd_inode ip (\<lambda>r. r\<lparr>i_valid := True\<rparr>) s in
         if i_type (itable s ip) = 0 then panic ''ilock: no type'' s else Done () s))
       else Done () s))"

definition iunlock :: "nat \<Rightarrow> kstate \<Rightarrow> unit kres" where
  "iunlock ip s =
    bnd (holdingsleep (InodeSlk ip) s) (\<lambda>h s.
    if \<not> h \<or> i_ref (itable s ip) < 1 then panic ''iunlock'' s
    else releasesleep (InodeSlk ip) s)"

definition set_addr :: "nat \<Rightarrow> nat \<Rightarrow> uint \<Rightarrow> kstate \<Rightarrow> kstate" where
  "set_addr ip i a s = upd_inode ip (\<lambda>r. r\<lparr>i_addrs := (i_addrs r)[i := a]\<rparr>) s"

definition itrunc :: "nat \<Rightarrow> kstate \<Rightarrow> unit kres" where
  "itrunc ip s =
    bnd (foreach (\<lambda>i s.
      if i_addrs (itable s ip) ! i \<noteq> 0
      then bnd (bfree (i_dev (itable s ip)) (i_addrs (itable s ip) ! i) s) (\<lambda>_ s. Done () (set_addr ip i 0 s))
      else Done () s) [0..<NDIRECT] s) (\<lambda>_ s.
    bnd (if i_addrs (itable s ip) ! NDIRECT \<noteq> 0
      then bnd (bread (i_dev (itable s ip)) (i_addrs (itable s ip) ! NDIRECT) s) (\<lambda>bp s.
        bnd (foreach (\<lambda>j s.
          if get32 (b_data (bufs s bp)) (4 * j) \<noteq> 0
          then bfree (i_dev (itable s ip)) (get32 (b_data (bufs s bp)) (4 * j)) s
          else Done () s) [0..<NINDIRECT] s) (\<lambda>_ s.
        bnd (brelse bp s) (\<lambda>_ s.
        bnd (bfree (i_dev (itable s ip)) (i_addrs (itable s ip) ! NDIRECT) s) (\<lambda>_ s.
        Done () (set_addr ip NDIRECT 0 s)))))
      else Done () s) (\<lambda>_ s.
    iupdate ip (upd_inode ip (\<lambda>r. r\<lparr>i_size := 0\<rparr>) s)))"

definition iput :: "nat \<Rightarrow> kstate \<Rightarrow> unit kres" where
  "iput ip s =
    bnd (kacquire ItableLock s) (\<lambda>_ s.
    bnd (if i_ref (itable s ip) = 1 \<and> i_valid (itable s ip) \<and> i_nlink (itable s ip) = 0
      then bnd (acquiresleep (InodeSlk ip) s) (\<lambda>_ s.
        bnd (krelease ItableLock s) (\<lambda>_ s.
        bnd (itrunc ip s) (\<lambda>_ s.
        bnd (iupdate ip (upd_inode ip (\<lambda>r. r\<lparr>i_type := 0\<rparr>) s)) (\<lambda>_ s.
        bnd (releasesleep (InodeSlk ip) (upd_inode ip (\<lambda>r. r\<lparr>i_valid := False\<rparr>) s)) (\<lambda>_ s.
        kacquire ItableLock s)))))
      else Done () s) (\<lambda>_ s.
    krelease ItableLock (upd_inode ip (\<lambda>r. r\<lparr>i_ref := i_ref r - 1\<rparr>) s)))"

definition iunlockput :: "nat \<Rightarrow> kstate \<Rightarrow> unit kres" where
  "iunlockput ip s = bnd (iunlock ip s) (\<lambda>_ s. iput ip s)"

definition ireclaim :: "uint \<Rightarrow> kstate \<Rightarrow> unit kres" where
  "ireclaim dev s = foreach (\<lambda>inum s.
     bnd (bread dev (IBLOCK (of_nat inum) (sb s)) s) (\<lambda>bp s.
     let d = get_dinode (b_data (bufs s bp)) (inum mod IPB) in
     bnd (if d_type d \<noteq> 0 \<and> d_nlink d = 0
       then bnd (printf (txt_of ''ireclaim: orphaned inode %d'' @ [10]) [VWord (of_nat inum)] s) (\<lambda>_ s.
         bnd (iget dev (of_nat inum) s) (\<lambda>ip s. Done (Some ip) s))
       else Done None s) (\<lambda>ip s.
     bnd (brelse bp s) (\<lambda>_ s.
     case ip of None \<Rightarrow> Done () s
     | Some ip \<Rightarrow>
       bnd (begin_op s) (\<lambda>_ s.
       bnd (ilock ip s) (\<lambda>_ s.
       bnd (iunlock ip s) (\<lambda>_ s.
       bnd (iput ip s) (\<lambda>_ s. end_op s))))))))
   [1..<unat (sb_ninodes (sb s))] s"

definition fsinit :: "uint \<Rightarrow> kstate \<Rightarrow> unit kres" where
  "fsinit dev s =
    bnd (readsb dev s) (\<lambda>_ s.
    if sb_magic (sb s) \<noteq> FSMAGIC then panic ''invalid file system'' s
    else bnd (initlog (sint dev) (sb s) s) (\<lambda>_ s. ireclaim dev s))"

section \<open>Contents\<close>

definition bmap :: "nat \<Rightarrow> uint \<Rightarrow> kstate \<Rightarrow> uint kres" where
  "bmap ip bn s =
    (if unat bn < NDIRECT
     then let addr = i_addrs (itable s ip) ! unat bn in
       if addr = 0
       then bnd (balloc (i_dev (itable s ip)) s) (\<lambda>addr s.
         if addr = 0 then Done 0 s else Done addr (set_addr ip (unat bn) addr s))
       else Done addr s
     else let bn = bn - of_nat NDIRECT in
       if unat bn < NINDIRECT
       then bnd (let addr = i_addrs (itable s ip) ! NDIRECT in
           if addr = 0
           then bnd (balloc (i_dev (itable s ip)) s) (\<lambda>addr s.
             if addr = 0 then Done 0 s else Done addr (set_addr ip NDIRECT addr s))
           else Done addr s) (\<lambda>ind s.
         if ind = 0 then Done 0 s
         else bnd (bread (i_dev (itable s ip)) ind s) (\<lambda>bp s.
           bnd (let addr = get32 (b_data (bufs s bp)) (4 * unat bn) in
               if addr = 0
               then bnd (balloc (i_dev (itable s ip)) s) (\<lambda>addr s.
                 if addr \<noteq> 0
                 then let s = upd_buf bp (\<lambda>r. r\<lparr>b_data := put32 (b_data r) (4 * unat bn) addr\<rparr>) s in
                   bnd (log_write bp s) (\<lambda>_ s. Done addr s)
                 else Done addr s)
               else Done addr s) (\<lambda>addr s.
           bnd (brelse bp s) (\<lambda>_ s. Done addr s))))
       else panic ''bmap: out of range'' s)"

definition stati :: "nat \<Rightarrow> kstate \<Rightarrow> stat" where
  "stati ip s = (let r = itable s ip in
     \<lparr>st_dev = sint (i_dev r), st_ino = i_inum r, st_type = i_type r, st_nlink = i_nlink r, st_size = ucast (i_size r)\<rparr>)"

datatype dst = ToUser uint64 | ToKern uint64 | ToLocal
datatype src = FromUser uint64 | FromKern uint64 | FromLocal "byte list"

primrec copy_to :: "dst \<Rightarrow> nat \<Rightarrow> byte list \<Rightarrow> kstate \<Rightarrow> int kres" where
  "copy_to (ToUser a) k bs s = either_copyout True (a + of_nat k) bs s"
| "copy_to (ToKern a) k bs s = either_copyout False (a + of_nat k) bs s"
| "copy_to ToLocal k bs s = Done 0 s"

primrec copy_from :: "src \<Rightarrow> nat \<Rightarrow> nat \<Rightarrow> kstate \<Rightarrow> (int \<times> byte list) kres" where
  "copy_from (FromUser a) k n s = either_copyin True (a + of_nat k) n s"
| "copy_from (FromKern a) k n s = either_copyin False (a + of_nat k) n s"
| "copy_from (FromLocal bs) k n s = Done (0, slice bs k n) s"

text \<open>
  The loop of \<open>readi\<close> with \<open>left = n - tot\<close> bytes to go; \<open>acc\<close> is what has been copied so far.
\<close>

function readi_loop :: "nat \<Rightarrow> dst \<Rightarrow> uint \<Rightarrow> nat \<Rightarrow> nat \<Rightarrow> byte list \<Rightarrow> kstate \<Rightarrow> (int \<times> byte list) kres" where
  "readi_loop ip d off tot left acc s =
    (if left = 0 then Done (int tot, acc) s
     else bnd (bmap ip (off div of_nat BSIZE) s) (\<lambda>addr s.
       if addr = 0 then Done (int tot, acc) s
       else bnd (bread (i_dev (itable s ip)) addr s) (\<lambda>bp s.
         let m = min left (BSIZE - unat off mod BSIZE);
             bs = slice (b_data (bufs s bp)) (unat off mod BSIZE) m in
         bnd (copy_to d tot bs s) (\<lambda>r s.
         if r = -1 then bnd (brelse bp s) (\<lambda>_ s. Done (-1, acc) s)
         else bnd (brelse bp s) (\<lambda>_ s.
           readi_loop ip d (off + of_nat m) (tot + m) (left - m) (acc @ bs) s)))))"
  by pat_completeness auto
termination
  by (relation "measure (\<lambda>(_, _, _, _, left, _). left)") (auto simp: BSIZE_def)

declare readi_loop.simps [simp del]

definition readi :: "nat \<Rightarrow> dst \<Rightarrow> uint \<Rightarrow> uint \<Rightarrow> kstate \<Rightarrow> (int \<times> byte list) kres" where
  "readi ip d off n s =
    (if off > i_size (itable s ip) \<or> off + n < off then Done (0, []) s
     else let n = (if off + n > i_size (itable s ip) then i_size (itable s ip) - off else n) in
       readi_loop ip d off 0 (unat n) [] s)"

text \<open>The loop of \<open>writei\<close>: the number of bytes written and the offset reached.\<close>

function writei_loop :: "nat \<Rightarrow> src \<Rightarrow> uint \<Rightarrow> nat \<Rightarrow> nat \<Rightarrow> kstate \<Rightarrow> (nat \<times> uint) kres" where
  "writei_loop ip src off tot left s =
    (if left = 0 then Done (tot, off) s
     else bnd (bmap ip (off div of_nat BSIZE) s) (\<lambda>addr s.
       if addr = 0 then Done (tot, off) s
       else bnd (bread (i_dev (itable s ip)) addr s) (\<lambda>bp s.
         let m = min left (BSIZE - unat off mod BSIZE) in
         bnd (copy_from src tot m s) (\<lambda>(r, bs) s.
         let s = upd_buf bp (\<lambda>b. b\<lparr>b_data := splice (b_data b) (unat off mod BSIZE) bs\<rparr>) s in
         if r = -1 then bnd (brelse bp s) (\<lambda>_ s. Done (tot, off) s)
         else bnd (log_write bp s) (\<lambda>_ s.
           bnd (brelse bp s) (\<lambda>_ s.
           writei_loop ip src (off + of_nat m) (tot + m) (left - m) s))))))"
  by pat_completeness auto
termination
  by (relation "measure (\<lambda>(_, _, _, _, left, _). left)") (auto simp: BSIZE_def)

declare writei_loop.simps [simp del]

definition writei :: "nat \<Rightarrow> src \<Rightarrow> uint \<Rightarrow> uint \<Rightarrow> kstate \<Rightarrow> int kres" where
  "writei ip src off n s =
    (if off > i_size (itable s ip) \<or> off + n < off then Done (-1) s
     else if unat (off + n) > MAXFILE * BSIZE then Done (-1) s
     else bnd (writei_loop ip src off 0 (unat n) s) (\<lambda>(tot, off) s.
       let s = (if off > i_size (itable s ip) then upd_inode ip (\<lambda>r. r\<lparr>i_size := off\<rparr>) s else s) in
       bnd (iupdate ip s) (\<lambda>_ s. Done (int tot) s)))"

section \<open>Directories\<close>

text \<open>Two arrays as one memory, the second at address 4096, for the string routines.\<close>

definition two_arrays :: "byte list \<Rightarrow> byte list \<Rightarrow> pmem" where
  "two_arrays a b = (\<lambda>x. if x < 4096 then at0 a x else at0 b (x - 4096))"

definition namecmp :: "byte list \<Rightarrow> byte list \<Rightarrow> int" where
  "namecmp a b = strncmp (two_arrays a b) 0 4096 DIRSIZ"

definition de_inum :: "byte list \<Rightarrow> uint" where "de_inum de = ucast (get16 de 0)"
definition de_name :: "byte list \<Rightarrow> byte list" where "de_name de = slice de 2 DIRSIZ"

definition DIRENT_SIZE :: nat where "DIRENT_SIZE = 16"

definition dirent_offs :: "uint \<Rightarrow> nat list" where
  "dirent_offs sz = map (\<lambda>k. DIRENT_SIZE * k) [0..<(unat sz + DIRENT_SIZE - 1) div DIRENT_SIZE]"

fun dirlookup_loop :: "nat \<Rightarrow> byte list \<Rightarrow> nat list \<Rightarrow> kstate \<Rightarrow> (nat \<times> nat) option kres" where
  "dirlookup_loop dp name [] s = Done None s"
| "dirlookup_loop dp name (off # offs) s =
    bnd (readi dp ToLocal (of_nat off) (of_nat DIRENT_SIZE) s) (\<lambda>(r, de) s.
    if r \<noteq> int DIRENT_SIZE then panic ''dirlookup read'' s
    else if de_inum de = 0 then dirlookup_loop dp name offs s
    else if namecmp name (de_name de) = 0
    then bnd (iget (i_dev (itable s dp)) (de_inum de) s) (\<lambda>ip s. Done (Some (ip, off)) s)
    else dirlookup_loop dp name offs s)"

definition dirlookup :: "nat \<Rightarrow> byte list \<Rightarrow> kstate \<Rightarrow> (nat \<times> nat) option kres" where
  "dirlookup dp name s =
    (if i_type (itable s dp) \<noteq> T_DIR then panic ''dirlookup not DIR'' s
     else dirlookup_loop dp name (dirent_offs (i_size (itable s dp))) s)"

text \<open>The search for an empty entry ends at the first one or at the end of the directory.\<close>

fun dirlink_find :: "nat \<Rightarrow> nat list \<Rightarrow> nat \<Rightarrow> byte list \<Rightarrow> kstate \<Rightarrow> (nat \<times> byte list) kres" where
  "dirlink_find dp [] end_off de s = Done (end_off, de) s"
| "dirlink_find dp (off # offs) end_off de s =
    bnd (readi dp ToLocal (of_nat off) (of_nat DIRENT_SIZE) s) (\<lambda>(r, de) s.
    if r \<noteq> int DIRENT_SIZE then panic ''dirlink read'' s
    else if de_inum de = 0 then Done (off, de) s
    else dirlink_find dp offs end_off de s)"

definition dirlink :: "nat \<Rightarrow> byte list \<Rightarrow> uint \<Rightarrow> kstate \<Rightarrow> int kres" where
  "dirlink dp name inum s =
    bnd (dirlookup dp name s) (\<lambda>found s.
    case found of
      Some (ip, _) \<Rightarrow> bnd (iput ip s) (\<lambda>_ s. Done (-1) s)
    | None \<Rightarrow>
      let offs = dirent_offs (i_size (itable s dp)) in
      bnd (dirlink_find dp offs (DIRENT_SIZE * length offs) (replicate DIRENT_SIZE 0) s) (\<lambda>(off, de) s.
      let nm = rd (strncpy (two_arrays (de_name de) name) 0 4096 (int DIRSIZ)) 0 DIRSIZ;
          de = put16 (splice de 2 nm) 0 (ucast inum) in
      bnd (writei dp (FromLocal de) (of_nat off) (of_nat DIRENT_SIZE) s) (\<lambda>r s.
      if r \<noteq> int DIRENT_SIZE then Done (-1) s else Done 0 s)))"

section \<open>Paths\<close>

definition slash :: byte where "slash = 47"

definition skip_slashes :: "byte list \<Rightarrow> byte list" where
  "skip_slashes path = dropWhile (\<lambda>c. c = slash) path"

definition skipelem :: "byte list \<Rightarrow> byte list \<Rightarrow> (byte list \<times> byte list) option" where
  "skipelem path name =
    (let path = skip_slashes path in
     if at0 path 0 = 0 then None
     else let elem = takeWhile (\<lambda>c. c \<noteq> slash \<and> c \<noteq> 0) path;
              rest = dropWhile (\<lambda>c. c \<noteq> slash \<and> c \<noteq> 0) path;
              name = (if length elem \<ge> DIRSIZ then splice name 0 (take DIRSIZ elem)
                      else (splice name 0 elem)[length elem := 0]) in
       Some (skip_slashes rest, name))"

lemma skipelem_shorter: "skipelem path name = Some (rest, name') \<Longrightarrow> length rest < length path"
proof -
  assume "skipelem path name = Some (rest, name')"
  then have nz: "at0 (skip_slashes path) 0 \<noteq> 0"
    and rest: "rest = skip_slashes (dropWhile (\<lambda>c. c \<noteq> slash \<and> c \<noteq> 0) (skip_slashes path))"
    by (auto simp: skipelem_def Let_def split: if_splits)
  obtain c cs where c: "skip_slashes path = c # cs" "c \<noteq> 0"
    using nz by (cases "skip_slashes path") (auto simp: at0_def)
  have "c \<noteq> slash" using c(1) by (simp add: skip_slashes_def dropWhile_eq_Cons_conv)
  then have "length rest \<le> length cs"
    using c by (simp add: rest skip_slashes_def) (meson length_dropWhile_le order_trans)
  then show ?thesis
    using c(1) length_dropWhile_le [of "\<lambda>c. c = slash" path] by (simp add: skip_slashes_def)
qed

function namex_loop :: "bool \<Rightarrow> nat \<Rightarrow> byte list \<Rightarrow> byte list \<Rightarrow> kstate \<Rightarrow> (nat option \<times> byte list) kres" where
  "namex_loop nameiparent ip path name s =
    (case skipelem path name of
       None \<Rightarrow> if nameiparent then bnd (iput ip s) (\<lambda>_ s. Done (None, name) s) else Done (Some ip, name) s
     | Some (path, name) \<Rightarrow>
       bnd (ilock ip s) (\<lambda>_ s.
       if i_type (itable s ip) \<noteq> T_DIR then bnd (iunlockput ip s) (\<lambda>_ s. Done (None, name) s)
       else if nameiparent \<and> at0 path 0 = 0 then bnd (iunlock ip s) (\<lambda>_ s. Done (Some ip, name) s)
       else bnd (dirlookup ip name s) (\<lambda>next s.
         case next of
           None \<Rightarrow> bnd (iunlockput ip s) (\<lambda>_ s. Done (None, name) s)
         | Some (next, _) \<Rightarrow> bnd (iunlockput ip s) (\<lambda>_ s. namex_loop nameiparent next path name s))))"
  by pat_completeness auto
termination
  by (relation "measure (\<lambda>(_, _, path, _). length path)") (auto dest: skipelem_shorter)

declare namex_loop.simps [simp del]

definition namex :: "byte list \<Rightarrow> bool \<Rightarrow> kstate \<Rightarrow> (nat option \<times> byte list) kres" where
  "namex path nameiparent s =
    bnd (if at0 path 0 = slash then iget ROOTDEV ROOTINO s
         else bnd (myproc s) (\<lambda>p s.
           case p_cwd (procs s p) of None \<Rightarrow> Stop (Fault ''cwd'') s | Some cwd \<Rightarrow> idup cwd s)) (\<lambda>ip s.
    namex_loop nameiparent ip path (replicate DIRSIZ 0) s)"

definition namei :: "byte list \<Rightarrow> kstate \<Rightarrow> nat option kres" where
  "namei path s = bnd (namex path False s) (\<lambda>(ip, _) s. Done ip s)"

definition nameiparent :: "byte list \<Rightarrow> kstate \<Rightarrow> (nat option \<times> byte list) kres" where
  "nameiparent path s = namex path True s"

end
