(* ===== verification/Console.thy ===== *)
theory Console
  imports Printf Ring
begin

text \<open>
  The console (\<open>kernel/console.c\<close>), the interrupt side of the serial port (\<open>uartintr\<close>) and the process
  listing (\<open>procdump\<close> of \<open>kernel/proc.c\<close>).  The input buffer is a ring of bytes with three unbounded
  counters: read, write (end of the last complete line) and edit.
\<close>

definition INPUT_BUF_SIZE :: nat where "INPUT_BUF_SIZE = 128"
definition CONSOLE :: nat where "CONSOLE = 1"

text \<open>\<open>C(x)\<close>: the control character of a letter.\<close>

definition Ctl :: "char \<Rightarrow> uint" where "Ctl x = ucast (chr x) - 64"

definition upd_cons :: "(cons \<Rightarrow> cons) \<Rightarrow> kstate \<Rightarrow> kstate" where
  "upd_cons f s = s\<lparr>console := f (console s)\<rparr>"

primrec state_name :: "procstate \<Rightarrow> byte list" where
  "state_name UNUSED = txt_of ''unused''"
| "state_name USED = txt_of ''used''"
| "state_name SLEEPING = txt_of ''sleep ''"
| "state_name RUNNABLE = txt_of ''runble''"
| "state_name RUNNING = txt_of ''run   ''"
| "state_name ZOMBIE = txt_of ''zombie''"

definition procdump :: "kstate \<Rightarrow> unit kres" where
  "procdump s =
    bnd (printf [10] [] s) (\<lambda>_ s.
    foreach (\<lambda>p s.
      if p_state (procs s p) = UNUSED then Done () s
      else bnd (printf (txt_of ''%d %s %s'')
          [VWord (word_of_int (p_pid (procs s p))), VStr (Some (state_name (p_state (procs s p)))),
           VStr (Some (p_name (procs s p)))] s) (\<lambda>_ s.
        bnd (printf [10] [] s) (\<lambda>_ s. Done () s)))
      [0..<NPROC] s)"

section \<open>Output\<close>

text \<open>
  The loop of \<open>consolewrite\<close> over at most 32 bytes at a time.  When \<open>uartwrite\<close> sleeps, the process is
  left in the middle of the loop.
\<close>

function consolewrite_loop :: "bool \<Rightarrow> uint64 \<Rightarrow> int \<Rightarrow> int \<Rightarrow> kstate \<Rightarrow> int kres" where
  "consolewrite_loop user_src src i n s =
    (if i < n
     then let nn = min 32 (n - i) in
       bnd (either_copyin user_src (src + word_of_int i) (nat nn) s) (\<lambda>(r, buf) s.
       if r = -1 then Done i s
       else bnd (uartwrite buf s) (\<lambda>_ s. consolewrite_loop user_src src (i + nn) n s))
     else Done i s)"
  by pat_completeness auto
termination
  by (relation "measure (\<lambda>(_, _, i, n, _). nat (n - i))") auto

declare consolewrite_loop.simps [simp del]

definition consolewrite :: "bool \<Rightarrow> uint64 \<Rightarrow> int \<Rightarrow> kstate \<Rightarrow> int kres" where
  "consolewrite user_src src n s = consolewrite_loop user_src src 0 n s"

section \<open>Input\<close>

text \<open>The loop of \<open>consoleread\<close>, entered with the console lock held.\<close>

function consoleread_loop :: "bool \<Rightarrow> uint64 \<Rightarrow> int \<Rightarrow> int \<Rightarrow> kstate \<Rightarrow> int kres" where
  "consoleread_loop user_dst dst n target s =
    (if n > 0
     then if con_r (console s) = con_w (console s)
       then bnd (myproc s) (\<lambda>p s.
         bnd (killed p s) (\<lambda>k s.
         if k then bnd (krelease ConsLock s) (\<lambda>_ s. Done (-1) s)
         else sleep ChCons ConsLock s))
       else let c = con_buf (console s) ! (unat (con_r (console s)) mod INPUT_BUF_SIZE);
                s = upd_cons (\<lambda>k. k\<lparr>con_r := con_r k + 1\<rparr>) s in
         if c = 4
         then let s = (if n < target then upd_cons (\<lambda>k. k\<lparr>con_r := con_r k - 1\<rparr>) s else s) in
           bnd (krelease ConsLock s) (\<lambda>_ s. Done (target - n) s)
         else bnd (either_copyout user_dst dst [c] s) (\<lambda>r s.
           if r = -1 then bnd (krelease ConsLock s) (\<lambda>_ s. Done (target - n) s)
           else if c = 10 then bnd (krelease ConsLock s) (\<lambda>_ s. Done (target - (n - 1)) s)
           else consoleread_loop user_dst (dst + 1) (n - 1) target s)
     else bnd (krelease ConsLock s) (\<lambda>_ s. Done (target - n) s))"
  by pat_completeness auto
termination
  by (relation "measure (\<lambda>(_, _, n, _). nat n)") auto

declare consoleread_loop.simps [simp del]

definition consoleread :: "bool \<Rightarrow> uint64 \<Rightarrow> int \<Rightarrow> kstate \<Rightarrow> int kres" where
  "consoleread user_dst dst n s = bnd (kacquire ConsLock s) (\<lambda>_ s. consoleread_loop user_dst dst n n s)"

definition consoleread_resume :: "bool \<Rightarrow> uint64 \<Rightarrow> int \<Rightarrow> int \<Rightarrow> kstate \<Rightarrow> int kres" where
  "consoleread_resume user_dst dst n target s =
    bnd (sleep_resume ConsLock s) (\<lambda>_ s. consoleread_loop user_dst dst n target s)"

text \<open>
  Control-U: erase back to the start of the line.  Every turn moves the edit counter one step towards the
  write counter, where the loop ends, so their distance bounds the number of turns.
\<close>

fun kill_line_loop :: "nat \<Rightarrow> kstate \<Rightarrow> unit kres" where
  "kill_line_loop 0 s = Done () s"
| "kill_line_loop (Suc n) s =
    (let k = console s in
     if con_e k \<noteq> con_w k \<and> con_buf k ! (unat (con_e k - 1) mod INPUT_BUF_SIZE) \<noteq> 10
     then bnd (consputc BACKSPACE (upd_cons (\<lambda>k. k\<lparr>con_e := con_e k - 1\<rparr>) s)) (\<lambda>_ s. kill_line_loop n s)
     else Done () s)"

definition kill_line :: "kstate \<Rightarrow> unit kres" where
  "kill_line s = kill_line_loop (unat (con_e (console s) - con_w (console s))) s"

definition consoleintr :: "uint \<Rightarrow> kstate \<Rightarrow> unit kres" where
  "consoleintr c s =
    bnd (kacquire ConsLock s) (\<lambda>_ s.
    bnd (if c = Ctl CHR ''P'' then procdump s
      else if c = Ctl CHR ''U'' then kill_line s
      else if c = Ctl CHR ''H'' \<or> c = 0x7f
      then if con_e (console s) \<noteq> con_w (console s)
        then consputc BACKSPACE (upd_cons (\<lambda>k. k\<lparr>con_e := con_e k - 1\<rparr>) s)
        else Done () s
      else if c \<noteq> 0 \<and> unat (con_e (console s) - con_r (console s)) < INPUT_BUF_SIZE
      then let c = (if c = 13 then 10 else c) in
        bnd (consputc c s) (\<lambda>_ s.
        let s = upd_cons (\<lambda>k. k\<lparr>con_buf := (con_buf k)[unat (con_e k) mod INPUT_BUF_SIZE := ucast c], con_e := con_e k + 1\<rparr>) s in
        if c = 10 \<or> c = Ctl CHR ''D'' \<or> unat (con_e (console s) - con_r (console s)) = INPUT_BUF_SIZE
        then wakeup ChCons (upd_cons (\<lambda>k. k\<lparr>con_w := con_e k\<rparr>) s)
        else Done () s)
      else Done () s) (\<lambda>_ s.
    krelease ConsLock s))"

definition consoleinit :: "kstate \<Rightarrow> kstate" where
  "consoleinit s = (uartinit s)\<lparr>devsw := (devsw s)(CONSOLE := True)\<rparr>"

section \<open>Serial interrupts\<close>

text \<open>Reading all the input that waits; a device that always has more keeps the handler forever.\<close>

partial_function (option) uart_drain :: "kstate \<Rightarrow> unit kres option" where
  "uart_drain s =
    (case uartgetc s of (c, s) \<Rightarrow>
     case c of None \<Rightarrow> Some (Done () s)
     | Some c \<Rightarrow> (case consoleintr (ucast c) s of Stop e s \<Rightarrow> Some (Stop e s) | Done _ s \<Rightarrow> uart_drain s))"

definition uartintr :: "kstate \<Rightarrow> unit kres" where
  "uartintr s =
    (case ReadReg ISR s of (_, s) \<Rightarrow>
     bnd (kacquire TxLock s) (\<lambda>_ s.
     case ReadReg LSR s of (v, s) \<Rightarrow>
     bnd (if v AND LSR_TX_IDLE \<noteq> 0 then wakeup ChTx (s\<lparr>tx_busy := False\<rparr>) else Done () s) (\<lambda>_ s.
     bnd (krelease TxLock s) (\<lambda>_ s.
     case uart_drain s of None \<Rightarrow> Stop Diverge s | Some r \<Rightarrow> r))))"


section \<open>The line editor\<close>

interpretation cons_ring: byte_ring INPUT_BUF_SIZE
  by unfold_locales (simp_all add: INPUT_BUF_SIZE_def)

text \<open>The input buffer holds complete lines, ready to be read, and the line being edited.\<close>

definition con_ready :: "cons \<Rightarrow> byte list" where
  "con_ready k = ring_list INPUT_BUF_SIZE (con_buf k) (con_r k) (con_w k)"

definition con_edit :: "cons \<Rightarrow> byte list" where
  "con_edit k = ring_list INPUT_BUF_SIZE (con_buf k) (con_w k) (con_e k)"

definition con_inv :: "cons \<Rightarrow> bool" where
  "con_inv k \<longleftrightarrow> length (con_buf k) = INPUT_BUF_SIZE \<and> length (con_ready k) + length (con_edit k) \<le> INPUT_BUF_SIZE
    \<and> 10 \<notin> set (con_edit k)"

text \<open>What one input character does to the two lists.\<close>

fun edit_char :: "byte \<Rightarrow> byte list \<times> byte list \<Rightarrow> byte list \<times> byte list" where
  "edit_char c (cl, ed) =
    (if c = 16 \<or> c = 0 then (cl, ed)
     else if c = 21 then (cl, [])
     else if c = 8 \<or> c = 127 then (cl, butlast ed)
     else if length cl + length ed = INPUT_BUF_SIZE then (cl, ed)
     else let ed = ed @ [if c = 13 then 10 else c] in
       if c = 10 \<or> c = 13 \<or> c = 4 \<or> length cl + length ed = INPUT_BUF_SIZE then (cl @ ed, []) else (cl, ed))"

declare edit_char.simps [simp del]

lemma con_dist:
  assumes "con_inv k"
  shows "unat (con_e k - con_r k) = length (con_ready k) + length (con_edit k)"
    "unat (con_w k - con_r k) = length (con_ready k)" "unat (con_e k - con_w k) = length (con_edit k)"
proof -
  show w: "unat (con_w k - con_r k) = length (con_ready k)" and e: "unat (con_e k - con_w k) = length (con_edit k)"
    by (simp_all add: con_ready_def con_edit_def cons_ring.length_ring)
  have "length (con_ready k) + length (con_edit k) \<le> 128" using assms by (simp add: con_inv_def INPUT_BUF_SIZE_def)
  then have "unat ((con_w k - con_r k) + (con_e k - con_w k)) = length (con_ready k) + length (con_edit k)"
    by (subst unat_add_lt) (simp_all add: w e)
  then show "unat (con_e k - con_r k) = length (con_ready k) + length (con_edit k)" by (simp add: algebra_simps)
qed

lemma con_all: "con_inv k \<Longrightarrow> ring_list INPUT_BUF_SIZE (con_buf k) (con_r k) (con_e k) = con_ready k @ con_edit k"
  unfolding con_ready_def con_edit_def using con_dist by (intro cons_ring.split) simp

lemma con_back:
  assumes "con_inv k" "con_e k \<noteq> con_w k"
  shows "con_ready (k\<lparr>con_e := con_e k - 1\<rparr>) = con_ready k" "con_edit (k\<lparr>con_e := con_e k - 1\<rparr>) = butlast (con_edit k)"
    "con_inv (k\<lparr>con_e := con_e k - 1\<rparr>)" "con_edit k \<noteq> []"
    "last (con_edit k) = con_buf k ! (unat (con_e k - 1) mod INPUT_BUF_SIZE)"
proof -
  let ?k = "k\<lparr>con_e := con_e k - 1\<rparr>"
  show r: "con_ready ?k = con_ready k" by (simp add: con_ready_def)
  show e: "con_edit ?k = butlast (con_edit k)" using cons_ring.unput [OF assms(2)] by (simp add: con_edit_def)
  have "set (butlast (con_edit k)) \<subseteq> set (con_edit k)" by (meson in_set_butlastD subsetI)
  then have "10 \<notin> set (butlast (con_edit k))" using assms(1) by (auto simp: con_inv_def)
  moreover have "length (con_ready k) + length (butlast (con_edit k)) \<le> INPUT_BUF_SIZE"
    using assms(1) unfolding con_inv_def length_butlast by linarith
  moreover have "length (con_buf ?k) = INPUT_BUF_SIZE" using assms(1) by (simp add: con_inv_def)
  ultimately show "con_inv ?k" unfolding con_inv_def r e by blast
  show ne: "con_edit k \<noteq> []" using cons_ring.empty_iff assms(2) by (auto simp: con_edit_def)
  define n where "n = unat (con_e k - con_w k) - 1"
  have "unat (con_e k - con_w k) \<noteq> 0" using assms(2) by (simp add: unsigned_eq_0_iff)
  then have n: "unat (con_e k - con_w k) = Suc n" by (simp add: n_def)
  have "con_w k + of_nat (Suc n) = con_e k" using n [symmetric] by (simp only:) simp
  then have "con_w k + of_nat n = con_e k - 1" by (simp add: algebra_simps)
  then show "last (con_edit k) = con_buf k ! (unat (con_e k - 1) mod INPUT_BUF_SIZE)"
    unfolding con_edit_def ring_list_def n by simp
qed

text \<open>Storing a character at the end of the line; \<open>w\<close> says whether the line becomes ready.\<close>

definition con_put :: "byte \<Rightarrow> bool \<Rightarrow> cons \<Rightarrow> cons" where
  "con_put c w k = (let k = k\<lparr>con_buf := (con_buf k)[unat (con_e k) mod INPUT_BUF_SIZE := c], con_e := con_e k + 1\<rparr> in
     if w then k\<lparr>con_w := con_e k\<rparr> else k)"

lemma con_put:
  assumes "con_inv k" "length (con_ready k) + length (con_edit k) < INPUT_BUF_SIZE" "c = 10 \<Longrightarrow> w"
  shows "con_ready (con_put c w k) = (if w then con_ready k @ con_edit k @ [c] else con_ready k)"
    "con_edit (con_put c w k) = (if w then [] else con_edit k @ [c])" "con_inv (con_put c w k)"
proof -
  let ?b = "(con_buf k)[unat (con_e k) mod INPUT_BUF_SIZE := c]"
  have len: "length (con_buf k) = INPUT_BUF_SIZE" using assms(1) by (simp add: con_inv_def)
  note D = con_dist [OF assms(1)]
  have all: "ring_list INPUT_BUF_SIZE ?b (con_r k) (con_e k + 1) = (con_ready k @ con_edit k) @ [c]"
    using cons_ring.put [OF len, of "con_e k" "con_r k" c] D(1) assms(2) con_all [OF assms(1)] by simp
  have ed: "ring_list INPUT_BUF_SIZE ?b (con_w k) (con_e k + 1) = con_edit k @ [c]"
    using cons_ring.put [OF len, of "con_e k" "con_w k" c] D(3) assms(2) by (simp add: con_edit_def)
  have "unat (con_w k - con_r k) \<le> unat (con_e k + 1 - con_r k)"
    using cons_ring.next_count [of "con_e k" "con_r k"] D(1,2) assms(2) by (simp add: INPUT_BUF_SIZE_def)
  from cons_ring.split [OF this, of ?b] all ed
  have rdy: "ring_list INPUT_BUF_SIZE ?b (con_r k) (con_w k) = con_ready k" by simp
  show r: "con_ready (con_put c w k) = (if w then con_ready k @ con_edit k @ [c] else con_ready k)"
    using all rdy by (simp add: con_put_def con_ready_def)
  show e: "con_edit (con_put c w k) = (if w then [] else con_edit k @ [c])"
    using ed cons_ring.empty_iff by (simp add: con_put_def con_edit_def Let_def)
  show "con_inv (con_put c w k)"
    using assms len unfolding con_inv_def r e by (auto simp: con_put_def Let_def)
qed


lemma upd_cons_simps [simp]:
  "console (upd_cons f s) = f (console s)" "held (upd_cons f s) = held s" "uart_ok (upd_cons f s) = uart_ok s"
  "upd_cons f (s\<lparr>held := h\<rparr>) = (upd_cons f s)\<lparr>held := h\<rparr>" "panicking (upd_cons f s) = panicking s"
  by (simp_all add: upd_cons_def uart_ok_def)

lemma procdump_ok:
  assumes "uart_ok s" "PrLock \<notin> set (held s)"
  shows "\<exists>n bs. procdump s = Done () (sent s n bs)"
proof -
  have nl: "fmt_text [10] [] = Some [10]" by (simp add: fmt_text.simps)
  have pr: "\<exists>bs. fmt_text (txt_of ''%d %s %s'') [VWord x, VStr (Some a), VStr (Some b)] = Some bs" for x a b
    by (simp add: txt_of_def chr_def fmt_text.simps at0_def conv_text_def Let_def)
  obtain n0 where n0: "printf [10] [] s = Done 0 (sent s n0 [10])" using printf_ok [OF assms(1) _ nl] assms(2) by blast
  let ?f = "\<lambda>p s. if p_state (procs s p) = UNUSED then Done () s
      else bnd (printf (txt_of ''%d %s %s'')
          [VWord (word_of_int (p_pid (procs s p))), VStr (Some (state_name (p_state (procs s p)))),
           VStr (Some (p_name (procs s p)))] s) (\<lambda>_ s.
        bnd (printf [10] [] s) (\<lambda>_ s. Done () s))"
  have "\<exists>t. foreach ?f [0..<NPROC] (sent s n0 [10]) = Done () t \<and> (\<exists>n bs. t = sent s n bs)"
  proof (rule foreach_inv [where P = "\<lambda>_ t. \<exists>n bs. t = sent s n bs"])
    show "\<exists>n bs. sent s n0 [10] = sent s n bs" by blast
  next
    fix ys p zs t
    assume "\<exists>n bs. t = sent s n bs"
    then obtain n bs where t: "t = sent s n bs" by blast
    have u: "uart_ok t" "panicking t \<or> PrLock \<notin> set (held t)" using assms by (simp_all add: t)
    show "\<exists>u. ?f p t = Done () u \<and> (\<exists>n bs. u = sent s n bs)"
    proof (cases "p_state (procs t p) = UNUSED")
      case True
      then show ?thesis using t by auto
    next
      case False
      obtain bs1 where "fmt_text (txt_of ''%d %s %s'') [VWord (word_of_int (p_pid (procs t p))),
          VStr (Some (state_name (p_state (procs t p)))), VStr (Some (p_name (procs t p)))] = Some bs1"
        using pr by blast
      from printf_ok [OF u this] obtain n1 where n1: "printf (txt_of ''%d %s %s'') [VWord (word_of_int (p_pid (procs t p))),
          VStr (Some (state_name (p_state (procs t p)))), VStr (Some (p_name (procs t p)))] t = Done 0 (sent t n1 bs1)" by blast
      have u1: "uart_ok (sent t n1 bs1)" "panicking (sent t n1 bs1) \<or> PrLock \<notin> set (held (sent t n1 bs1))" using u by simp_all
      obtain n2 where "printf [10] [] (sent t n1 bs1) = Done 0 (sent (sent t n1 bs1) n2 [10])" using printf_ok [OF u1 nl] by blast
      then show ?thesis using False n1 by (auto simp: t)
    qed
  qed
  then show ?thesis using n0 by (auto simp: procdump_def)
qed

lemma kill_line_loop_ok:
  assumes "con_inv (console s)" "uart_ok s" "length (con_edit (console s)) = n"
  shows "\<exists>k bs. kill_line_loop n s = Done () (sent (upd_cons (\<lambda>c. c\<lparr>con_e := con_w c\<rparr>) s) k bs)"
  using assms
proof (induction n arbitrary: s)
  case 0
  then have "con_e (console s) = con_w (console s)"
    using cons_ring.empty_iff [of "con_buf (console s)" "con_w (console s)" "con_e (console s)"] by (simp add: con_edit_def)
  then have "upd_cons (\<lambda>c. c\<lparr>con_e := con_w c\<rparr>) s = sent s 0 []" by (simp add: upd_cons_def)
  then have "kill_line_loop 0 s = Done () (sent (upd_cons (\<lambda>c. c\<lparr>con_e := con_w c\<rparr>) s) 0 [])" by simp
  then show ?case by blast
next
  case (Suc n)
  let ?k = "console s"
  have "con_edit ?k \<noteq> []" using Suc.prems(3) by auto
  then have ne: "con_e ?k \<noteq> con_w ?k"
    using cons_ring.empty_iff [of "con_buf ?k" "con_w ?k" "con_e ?k"] unfolding con_edit_def by metis
  note B = con_back [OF Suc.prems(1) ne]
  have "last (con_edit ?k) \<in> set (con_edit ?k)" using B(4) by simp
  then have nl: "con_buf ?k ! (unat (con_e ?k - 1) mod INPUT_BUF_SIZE) \<noteq> 10" using Suc.prems(1) B(5) by (auto simp: con_inv_def)
  define u where "u = upd_cons (\<lambda>k. k\<lparr>con_e := con_e k - 1\<rparr>) s"
  have uo: "uart_ok u" using Suc.prems(2) by (simp add: u_def)
  obtain m where m: "consputc BACKSPACE u = Done () (sent u m [8, 32, 8])"
    using consputc_any [OF uo, of BACKSPACE] by auto
  let ?u = "sent u m [8, 32, 8]"
  have r: "kill_line_loop (Suc n) s = kill_line_loop n ?u"
    using ne nl m by (simp add: Let_def u_def)
  have cu: "console ?u = ?k\<lparr>con_e := con_e ?k - 1\<rparr>" by (simp add: u_def)
  have "length (con_edit (console ?u)) = n" unfolding cu B(2) length_butlast Suc.prems(3) by simp
  moreover have "con_inv (console ?u)" unfolding cu by (rule B(3))
  moreover have "uart_ok ?u" using uo by simp
  ultimately obtain k bs where "kill_line_loop n ?u = Done () (sent (upd_cons (\<lambda>c. c\<lparr>con_e := con_w c\<rparr>) ?u) k bs)"
    using Suc.IH by blast
  moreover have "upd_cons (\<lambda>c. c\<lparr>con_e := con_w c\<rparr>) ?u = sent (upd_cons (\<lambda>c. c\<lparr>con_e := con_w c\<rparr>) s) m [8, 32, 8]"
    by (simp add: u_def upd_cons_def sent_def)
  ultimately show ?case unfolding r by auto
qed

lemma ucast_inj [simp]: "(ucast (a :: byte) :: uint) = ucast b \<longleftrightarrow> a = b"
  by (metis ucast_ucast_byte)

lemma Ctl_vals: "Ctl CHR ''P'' = ucast (16 :: byte)" "Ctl CHR ''U'' = ucast (21 :: byte)" "Ctl CHR ''H'' = ucast (8 :: byte)"
  "Ctl CHR ''D'' = ucast (4 :: byte)" "(0x7f :: uint) = ucast (127 :: byte)" "(13 :: uint) = ucast (13 :: byte)"
  "(10 :: uint) = ucast (10 :: byte)" "(0 :: uint) = ucast (0 :: byte)"
  by (simp_all add: Ctl_def chr_def)


lemma con_kill:
  assumes "con_inv k"
  shows "con_ready (k\<lparr>con_e := con_w k\<rparr>) = con_ready k" "con_edit (k\<lparr>con_e := con_w k\<rparr>) = []"
    "con_inv (k\<lparr>con_e := con_w k\<rparr>)"
proof -
  show r: "con_ready (k\<lparr>con_e := con_w k\<rparr>) = con_ready k" by (simp add: con_ready_def)
  show e: "con_edit (k\<lparr>con_e := con_w k\<rparr>) = []" using cons_ring.empty_iff by (simp add: con_edit_def)
  show "con_inv (k\<lparr>con_e := con_w k\<rparr>)" using assms unfolding con_inv_def r e by simp
qed

lemma con_wakeup:
  assumes "no_proclock s"
  shows "\<exists>t. wakeup ch s = Done () t \<and> console t = console s \<and> held t = held s"
  using wakeup_eq [OF assms] by simp


text \<open>C20: the console line editor.  For every input byte and every state of the input buffer, the interrupt
  handler returns with all its locks released and does to the pair of lists (complete lines waiting to be read,
  line being edited) what \<open>edit_char\<close> says: control-U erases the edited line only, backspace and delete erase its
  last character only, a full buffer ignores further characters, and a newline, a carriage return, control-D or
  the last free place makes the line ready.  It never changes lines that are already complete.\<close>

theorem consoleintr_edits_line:
  assumes "uart_ok s" "held s = []" "con_inv (console s)"
  shows "\<exists>t. consoleintr (ucast c) s = Done () t \<and> held t = [] \<and> con_inv (console t)
    \<and> (con_ready (console t), con_edit (console t)) = edit_char c (con_ready (console s), con_edit (console s))"
proof -
  define a where "a = s\<lparr>held := [ConsLock]\<rparr>"
  have A: "kacquire ConsLock s = Done () a" "uart_ok a" "held a = [ConsLock]" "console a = console s"
    using assms by (simp_all add: a_def)
  define body where "body = (if (ucast c :: uint) = ucast (16 :: byte) then procdump a
      else if (ucast c :: uint) = ucast (21 :: byte) then kill_line a
      else if (ucast c :: uint) = ucast (8 :: byte) \<or> (ucast c :: uint) = ucast (127 :: byte)
      then if con_e (console a) \<noteq> con_w (console a)
        then consputc BACKSPACE (upd_cons (\<lambda>k. k\<lparr>con_e := con_e k - 1\<rparr>) a)
        else Done () a
      else if (ucast c :: uint) \<noteq> ucast (0 :: byte) \<and> unat (con_e (console a) - con_r (console a)) < INPUT_BUF_SIZE
      then let c = (if (ucast c :: uint) = ucast (13 :: byte) then ucast (10 :: byte) else ucast c :: uint) in
        bnd (consputc c a) (\<lambda>_ s.
        let s = upd_cons (\<lambda>k. k\<lparr>con_buf := (con_buf k)[unat (con_e k) mod INPUT_BUF_SIZE := ucast c], con_e := con_e k + 1\<rparr>) s in
        if c = ucast (10 :: byte) \<or> c = ucast (4 :: byte) \<or> unat (con_e (console s) - con_r (console s)) = INPUT_BUF_SIZE
        then wakeup ChCons (upd_cons (\<lambda>k. k\<lparr>con_w := con_e k\<rparr>) s)
        else Done () s)
      else Done () a)"
  have run: "consoleintr (ucast c) s = bnd body (\<lambda>_ s. krelease ConsLock s)"
    unfolding consoleintr_def A(1) bnd_Done body_def Ctl_vals ..
  note body = body_def [unfolded ucast_inj]
  have fin: ?thesis if "body = Done () t" "held t = [ConsLock]" "con_inv (console t)"
    "(con_ready (console t), con_edit (console t)) = edit_char c (con_ready (console s), con_edit (console s))" for t
    using that unfolding run by (intro exI [of _ "t\<lparr>held := []\<rparr>"]) simp
  note I = assms(3) and D = con_dist [OF assms(3)]
  consider (P) "c = 16" | (U) "c = 21" | (H) "c = 8 \<or> c = 127" | (Z) "c = 0"
    | (ch) "c \<notin> {16, 21, 8, 127, 0}" by auto
  then show ?thesis
  proof cases
    case P
    obtain n bs where "procdump a = Done () (sent a n bs)" using procdump_ok [OF A(2)] A(3) by auto
    then show ?thesis using P A I by (intro fin [of "sent a n bs"]) (simp_all add: body edit_char.simps)
  next
    case U
    obtain n bs where "kill_line_loop (length (con_edit (console a))) a
        = Done () (sent (upd_cons (\<lambda>c. c\<lparr>con_e := con_w c\<rparr>) a) n bs)"
      using kill_line_loop_ok [OF _ A(2) refl] I A(4) by auto
    then have "kill_line a = Done () (sent (upd_cons (\<lambda>c. c\<lparr>con_e := con_w c\<rparr>) a) n bs)"
      using D(3) A(4) by (simp add: kill_line_def)
    then show ?thesis using U A con_kill [OF I]
      by (intro fin [of "sent (upd_cons (\<lambda>c. c\<lparr>con_e := con_w c\<rparr>) a) n bs"]) (simp_all add: body edit_char.simps)
  next
    case H
    then have b: "body = (if con_e (console s) \<noteq> con_w (console s)
        then consputc BACKSPACE (upd_cons (\<lambda>k. k\<lparr>con_e := con_e k - 1\<rparr>) a) else Done () a)"
      by (auto simp: body A)
    have e: "edit_char c (x, y) = (x, butlast y)" for x y using H by (auto simp: edit_char.simps)
    show ?thesis
    proof (cases "con_e (console s) = con_w (console s)")
      case True
      then have "con_edit (console s) = []" using cons_ring.empty_iff by (simp add: con_edit_def)
      then show ?thesis using True b e A I by (intro fin [of a]) simp_all
    next
      case False
      obtain n where "consputc BACKSPACE (upd_cons (\<lambda>k. k\<lparr>con_e := con_e k - 1\<rparr>) a)
          = Done () (sent (upd_cons (\<lambda>k. k\<lparr>con_e := con_e k - 1\<rparr>) a) n [8, 32, 8])"
        using consputc_any [of "upd_cons (\<lambda>k. k\<lparr>con_e := con_e k - 1\<rparr>) a" BACKSPACE] A(2) by auto
      then show ?thesis using False b e A con_back [OF I False]
        by (intro fin [of "sent (upd_cons (\<lambda>k. k\<lparr>con_e := con_e k - 1\<rparr>) a) n [8, 32, 8]"]) simp_all
    qed
  next
    case Z
    then show ?thesis using A I by (intro fin [of a]) (simp_all add: body edit_char.simps)
  next
    case ch
    define d where "d = (if c = 13 then 10 else c)"
    define w where "w \<longleftrightarrow> d = 10 \<or> d = 4 \<or> Suc (length (con_ready (console s)) + length (con_edit (console s))) = INPUT_BUF_SIZE"
    show ?thesis
    proof (cases "length (con_ready (console s)) + length (con_edit (console s)) < INPUT_BUF_SIZE")
      case False
      then have "length (con_ready (console s)) + length (con_edit (console s)) = INPUT_BUF_SIZE"
        using I by (simp add: con_inv_def)
      then show ?thesis using ch A I D(1) by (intro fin [of a]) (simp_all add: body edit_char.simps)
    next
      case True
      have dd: "(if c = 13 then ucast (10 :: byte) else ucast c :: uint) = ucast d"
        by (simp add: d_def)
      define u where "u = upd_cons (\<lambda>k. k\<lparr>con_buf := (con_buf k)[unat (con_e k) mod INPUT_BUF_SIZE := d], con_e := con_e k + 1\<rparr>) (sent a 1 [d])"
      have un: "unat (con_e (console u) - con_r (console u)) = Suc (length (con_ready (console s)) + length (con_edit (console s)))"
        using cons_ring.next_count [of "con_e (console s)" "con_r (console s)"] True D(1) A(4) by (simp add: u_def INPUT_BUF_SIZE_def)
      have b: "body = (if w then wakeup ChCons (upd_cons (\<lambda>k. k\<lparr>con_w := con_e k\<rparr>) u) else Done () u)"
        using ch True D(1) A(4) unfolding body dd Let_def consputc_byte [OF A(2)] bnd_Done ucast_ucast_byte u_def [symmetric] un ucast_inj
        by (simp add: w_def)
      have kw: "d = 10 \<Longrightarrow> w" by (simp add: w_def)
      note K = con_put [OF I True kw]
      have cu: "console (upd_cons (\<lambda>k. k\<lparr>con_w := con_e k\<rparr>) u) = con_put d True (console s)" "console u = con_put d False (console s)"
        by (simp_all add: u_def con_put_def A(4) Let_def)
      have hu: "held u = [ConsLock]" by (simp add: u_def A)
      have ec: "edit_char c (con_ready (console s), con_edit (console s)) = (if w then (con_ready (console s) @ con_edit (console s) @ [d], [])
          else (con_ready (console s), con_edit (console s) @ [d]))"
        using ch True by (auto simp: edit_char.simps w_def d_def Let_def)
      show ?thesis
      proof (cases w)
        case w: True
        have "no_proclock (upd_cons (\<lambda>k. k\<lparr>con_w := con_e k\<rparr>) u)" by (simp add: no_proclock_def hu)
        from con_wakeup [OF this, of ChCons, unfolded cu(1)] obtain t where
          "wakeup ChCons (upd_cons (\<lambda>k. k\<lparr>con_w := con_e k\<rparr>) u) = Done () t" "console t = con_put d True (console s)" "held t = [ConsLock]"
          using hu by auto
        then show ?thesis using K ec w b by (intro fin [of t]) simp_all
      next
        case w: False
        then show ?thesis using K ec b cu hu by (intro fin [of u]) simp_all
      qed
    qed
  qed
qed


lemma ready0_console: "con_inv (console ready0)" "con_ready (console ready0) = []" "con_edit (console ready0) = []"
  by (simp_all add: ready0_def con_inv_def con_ready_def con_edit_def ring_list_def INPUT_BUF_SIZE_def kboot0_def kboot_def)

text \<open>Typing the character \<open>h\<close> on an empty buffer.\<close>

theorem consoleintr_edits_line_witness:
  "\<exists>t. consoleintr (ucast (104 :: byte)) ready0 = Done () t \<and> con_ready (console t) = [] \<and> con_edit (console t) = [104]"
  using consoleintr_edits_line [OF uart_ok_ready0 held_ready0(1) ready0_console(1), of 104]
  by (auto simp: ready0_console edit_char.simps INPUT_BUF_SIZE_def)

end
