(* ===== verification/Pipe.thy ===== *)
theory Pipe
  imports Sched Usermem Ring
begin

text \<open>
  Pipes (\<open>kernel/pipe.c\<close>).  A pipe is named by the address of the page that holds it; its bytes are a
  ring with two free-running counters.  \<open>pipealloc\<close>, which needs the file table, is in theory \<open>File\<close>.
\<close>

definition PIPESIZE :: nat where "PIPESIZE = 512"

definition pipeclose :: "uint64 \<Rightarrow> bool \<Rightarrow> kstate \<Rightarrow> unit kres" where
  "pipeclose pi writable s =
    bnd (kacquire (PipeLock pi) s) (\<lambda>_ s.
    bnd (if writable
      then wakeup (ChPipeR pi) (upd_pipe pi (\<lambda>r. r\<lparr>pi_writeopen := False\<rparr>) s)
      else wakeup (ChPipeW pi) (upd_pipe pi (\<lambda>r. r\<lparr>pi_readopen := False\<rparr>) s)) (\<lambda>_ s.
    if \<not> pi_readopen (pipes s pi) \<and> \<not> pi_writeopen (pipes s pi)
    then bnd (krelease (PipeLock pi) s) (\<lambda>_ s. kfree pi s)
    else krelease (PipeLock pi) s))"

text \<open>The loop of \<open>pipewrite\<close> by process \<open>pr\<close>, from byte \<open>i\<close> on, with the pipe's lock held.\<close>

definition pipe_put :: "byte \<Rightarrow> pipe \<Rightarrow> pipe" where
  "pipe_put ch r = r\<lparr>pi_data := (pi_data r)[unat (pi_nwrite r) mod PIPESIZE := ch], pi_nwrite := pi_nwrite r + 1\<rparr>"

function pipewrite_loop :: "uint64 \<Rightarrow> nat \<Rightarrow> uint64 \<Rightarrow> int \<Rightarrow> int \<Rightarrow> kstate \<Rightarrow> int kres" where
  "pipewrite_loop pi pr addr i n s =
    (if i < n
     then bnd (if \<not> pi_readopen (pipes s pi) then Done True s else killed pr s) (\<lambda>stopped s.
       if stopped then bnd (krelease (PipeLock pi) s) (\<lambda>_ s. Done (-1) s)
       else if pi_nwrite (pipes s pi) = pi_nread (pipes s pi) + of_nat PIPESIZE
       then bnd (wakeup (ChPipeR pi) s) (\<lambda>_ s. sleep (ChPipeW pi) (PipeLock pi) s)
       else bnd (copyin (p_pagetable (procs s pr)) (addr + word_of_int i) 1 [] s) (\<lambda>(r, ch) s.
         if r = -1
         then bnd (wakeup (ChPipeR pi) s) (\<lambda>_ s. bnd (krelease (PipeLock pi) s) (\<lambda>_ s. Done i s))
         else pipewrite_loop pi pr addr (i + 1) n (upd_pipe pi (pipe_put (hd ch)) s)))
     else bnd (wakeup (ChPipeR pi) s) (\<lambda>_ s. bnd (krelease (PipeLock pi) s) (\<lambda>_ s. Done i s)))"
  by pat_completeness auto
termination
  by (relation "measure (\<lambda>(_, _, _, i, n, _). nat (n - i))") auto

declare pipewrite_loop.simps [simp del]

definition pipewrite :: "uint64 \<Rightarrow> uint64 \<Rightarrow> int \<Rightarrow> kstate \<Rightarrow> int kres" where
  "pipewrite pi addr n s =
    bnd (myproc s) (\<lambda>pr s.
    bnd (kacquire (PipeLock pi) s) (\<lambda>_ s. pipewrite_loop pi pr addr 0 n s))"

definition pipewrite_resume :: "uint64 \<Rightarrow> nat \<Rightarrow> uint64 \<Rightarrow> int \<Rightarrow> int \<Rightarrow> kstate \<Rightarrow> int kres" where
  "pipewrite_resume pi pr addr i n s =
    bnd (sleep_resume (PipeLock pi) s) (\<lambda>_ s. pipewrite_loop pi pr addr i n s)"

definition pipe_get :: "pipe \<Rightarrow> byte" where
  "pipe_get r = pi_data r ! (unat (pi_nread r) mod PIPESIZE)"

function piperead_copy :: "uint64 \<Rightarrow> nat \<Rightarrow> uint64 \<Rightarrow> int \<Rightarrow> int \<Rightarrow> kstate \<Rightarrow> int kres" where
  "piperead_copy pi pr addr i n s =
    (if i < n \<and> pi_nread (pipes s pi) \<noteq> pi_nwrite (pipes s pi)
     then let ch = pipe_get (pipes s pi);
              s = upd_pipe pi (\<lambda>r. r\<lparr>pi_nread := pi_nread r + 1\<rparr>) s in
       bnd (copyout (p_pagetable (procs s pr)) (addr + word_of_int i) [ch] s) (\<lambda>r s.
       if r = -1 then Done i s else piperead_copy pi pr addr (i + 1) n s)
     else Done i s)"
  by pat_completeness auto
termination
  by (relation "measure (\<lambda>(_, _, _, i, n, _). nat (n - i))") auto

declare piperead_copy.simps [simp del]

definition piperead_loop :: "uint64 \<Rightarrow> nat \<Rightarrow> uint64 \<Rightarrow> int \<Rightarrow> kstate \<Rightarrow> int kres" where
  "piperead_loop pi pr addr n s =
    (if pi_nread (pipes s pi) = pi_nwrite (pipes s pi) \<and> pi_writeopen (pipes s pi)
     then bnd (killed pr s) (\<lambda>k s.
       if k then bnd (krelease (PipeLock pi) s) (\<lambda>_ s. Done (-1) s)
       else sleep (ChPipeR pi) (PipeLock pi) s)
     else bnd (piperead_copy pi pr addr 0 n s) (\<lambda>i s.
       bnd (wakeup (ChPipeW pi) s) (\<lambda>_ s.
       bnd (krelease (PipeLock pi) s) (\<lambda>_ s. Done i s))))"

definition piperead :: "uint64 \<Rightarrow> uint64 \<Rightarrow> int \<Rightarrow> kstate \<Rightarrow> int kres" where
  "piperead pi addr n s =
    bnd (myproc s) (\<lambda>pr s.
    bnd (kacquire (PipeLock pi) s) (\<lambda>_ s. piperead_loop pi pr addr n s))"

definition piperead_resume :: "uint64 \<Rightarrow> nat \<Rightarrow> uint64 \<Rightarrow> int \<Rightarrow> kstate \<Rightarrow> int kres" where
  "piperead_resume pi pr addr n s =
    bnd (sleep_resume (PipeLock pi) s) (\<lambda>_ s. piperead_loop pi pr addr n s)"


section \<open>The bytes in a pipe\<close>

interpretation pipe_ring: byte_ring PIPESIZE
  by unfold_locales (simp_all add: PIPESIZE_def)

definition pipe_bytes :: "pipe \<Rightarrow> byte list" where
  "pipe_bytes r = ring_list PIPESIZE (pi_data r) (pi_nread r) (pi_nwrite r)"

definition pipe_inv :: "pipe \<Rightarrow> bool" where
  "pipe_inv r \<longleftrightarrow> length (pi_data r) = PIPESIZE \<and> length (pipe_bytes r) \<le> PIPESIZE"

lemma pipe_put:
  assumes "pipe_inv r" "length (pipe_bytes r) < PIPESIZE"
  shows "pipe_bytes (pipe_put c r) = pipe_bytes r @ [c]" "pipe_inv (pipe_put c r)"
    "pi_readopen (pipe_put c r) = pi_readopen r" "pi_writeopen (pipe_put c r) = pi_writeopen r"
proof -
  show b: "pipe_bytes (pipe_put c r) = pipe_bytes r @ [c]"
    using assms pipe_ring.put unfolding pipe_bytes_def pipe_inv_def pipe_ring.length_ring by (simp add: pipe_put_def)
  then show "pipe_inv (pipe_put c r)" using assms by (simp add: pipe_inv_def) (simp add: pipe_put_def)
qed (simp_all add: pipe_put_def)

lemma pipe_puts:
  assumes "pipe_inv r" "length (pipe_bytes r) + length bs \<le> PIPESIZE"
  shows "pipe_bytes (fold pipe_put bs r) = pipe_bytes r @ bs" "pipe_inv (fold pipe_put bs r)"
proof -
  have "pipe_bytes (fold pipe_put bs r) = pipe_bytes r @ bs \<and> pipe_inv (fold pipe_put bs r)"
    using assms
  proof (induction bs arbitrary: r)
    case (Cons b bs)
    then have "length (pipe_bytes r) < PIPESIZE" by simp
    then show ?case using Cons pipe_put [of r b] by simp
  qed simp
  then show "pipe_bytes (fold pipe_put bs r) = pipe_bytes r @ bs" "pipe_inv (fold pipe_put bs r)" by blast+
qed

lemma pipe_full:
  assumes "pipe_inv r"
  shows "pi_nwrite r = pi_nread r + of_nat PIPESIZE \<longleftrightarrow> length (pipe_bytes r) = PIPESIZE"
  using assms unfolding pipe_inv_def pipe_bytes_def pipe_ring.length_ring
  by (subst pipe_ring.full_iff) (simp_all add: pipe_ring.length_ring)

lemma pipe_empty: "pi_nread r = pi_nwrite r \<longleftrightarrow> pipe_bytes r = []"
  unfolding pipe_bytes_def by (rule pipe_ring.empty_iff [symmetric])

lemma pipe_get:
  assumes "pipe_bytes r \<noteq> []"
  shows "pipe_bytes r = pipe_get r # pipe_bytes (r\<lparr>pi_nread := pi_nread r + 1\<rparr>)"
  using assms pipe_ring.get unfolding pipe_empty [symmetric] by (simp add: pipe_bytes_def pipe_get_def)

lemma killed_eq: "ProcLock p \<notin> set (held s) \<Longrightarrow> killed p s = Done (p_killed (procs s p)) s"
  by (simp add: killed_def)

section \<open>Writing\<close>

text \<open>A process in the kernel, working on a pipe with the user memory at its page table.\<close>

definition pipe_user :: "kstate \<Rightarrow> uint64 \<Rightarrow> nat \<Rightarrow> bool" where
  "pipe_user s pi pr \<longleftrightarrow> curproc s = Some pr \<and> \<not> p_killed (procs s pr) \<and> pt_ok (mem s) (p_pagetable (procs s pr))
    \<and> pipe_inv (pipes s pi)"

definition ubytes :: "kstate \<Rightarrow> nat \<Rightarrow> nat \<Rightarrow> nat \<Rightarrow> byte list" where
  "ubytes s pr a n = map (\<lambda>x. mem s (uaddr (mem s) (p_pagetable (procs s pr)) x)) [a..<a + n]"

lemma pipewrite_loop_spec:
  assumes "pipe_user s pi pr" "held s = [PipeLock pi]" "pi_readopen (pipes s pi)"
    "umapped (mem s) (p_pagetable (procs s pr)) False (a + i) m"
    and k: "k = min m (PIPESIZE - length (pipe_bytes (pipes s pi)))"
    and s': "s' = woken (ChPipeR pi) (upd_pipe pi (\<lambda>_. fold pipe_put (take k (ubytes s pr (a + i) m)) (pipes s pi)) s) {0..<NPROC}"
  shows "pipewrite_loop pi pr (of_nat a) (int i) (int (i + m)) s =
    (if k = m then Done (int (i + m)) (s'\<lparr>held := []\<rparr>)
     else Stop Asleep (upd_proc pr (\<lambda>q. q\<lparr>p_chan := ChPipeW pi, p_state := SLEEPING\<rparr>) (s'\<lparr>held := [ProcLock pr]\<rparr>)))"
  using assms
proof (induction m arbitrary: i s k s')
  case 0
  have np: "no_proclock s" using 0(2) by (simp add: no_proclock_def)
  have "upd_pipe pi (\<lambda>_. pipes s pi) s = s" by (simp add: upd_pipe_def)
  then show ?case using 0 np by (subst pipewrite_loop.simps) (simp add: wakeup_eq)
next
  case (Suc m)
  let ?pt = "p_pagetable (procs s pr)"
  have P: "curproc s = Some pr" "\<not> p_killed (procs s pr)" "pt_ok (mem s) ?pt" "pipe_inv (pipes s pi)"
    using Suc.prems(1) by (simp_all add: pipe_user_def)
  have np: "no_proclock s" "ProcLock pr \<notin> set (held s)" using Suc.prems(2) by (simp_all add: no_proclock_def)
  show ?case
  proof (cases "length (pipe_bytes (pipes s pi)) = PIPESIZE")
    case True
    have e: "upd_pipe pi (\<lambda>_. pipes s pi) s = s" by (simp add: upd_pipe_def)
    have k0: "k = 0" using True Suc.prems(5) by simp
    have sw: "s' = woken (ChPipeR pi) s {0..<NPROC}" using Suc.prems(6) by (simp add: k0 e)
    then have "pipewrite_loop pi pr (of_nat a) (int i) (int (i + Suc m)) s = sleep (ChPipeW pi) (PipeLock pi) s'"
      using Suc.prems(3) P np pipe_full [OF P(4)] True
      by (subst pipewrite_loop.simps) (simp add: killed_eq wakeup_eq)
    also have "\<dots> = Stop Asleep (upd_proc pr (\<lambda>q. q\<lparr>p_chan := ChPipeW pi, p_state := SLEEPING\<rparr>) (s'\<lparr>held := [ProcLock pr]\<rparr>))"
      using P(1) Suc.prems(2) by (intro sleep_eq) (simp_all add: sw)
    finally show ?thesis using k0 by simp
  next
    case False
    then have lt: "length (pipe_bytes (pipes s pi)) < PIPESIZE" using P(4) by (simp add: pipe_inv_def)
    let ?c = "mem s (uaddr (mem s) ?pt (a + i))"
    define t where "t = upd_pipe pi (pipe_put ?c) s"
    have um: "umapped (mem s) ?pt False (a + i) 1" using Suc.prems(4) by (auto simp: umapped_def)
    have cp: "copyin ?pt (of_nat (a + i)) 1 [] s = Done (0, [?c]) s" using copyin_spec [OF P(3) um] by simp
    have r: "pipewrite_loop pi pr (of_nat a) (int i) (int (i + Suc m)) s
        = pipewrite_loop pi pr (of_nat a) (int (Suc i)) (int (Suc i + m)) t"
      using Suc.prems(3) P np pipe_full [OF P(4)] False cp
      by (subst pipewrite_loop.simps) (simp add: killed_eq t_def algebra_simps)
    note C = pipe_put [OF P(4) lt, of ?c]
    have pt: "pipes t pi = pipe_put ?c (pipes s pi)" "mem t = mem s" "procs t = procs s" "held t = held s" "curproc t = curproc s"
      by (simp_all add: t_def upd_pipe_def)
    have "pipe_user t pi pr" using P C(2) pt by (simp add: pipe_user_def)
    moreover have "umapped (mem t) (p_pagetable (procs t pr)) False (a + Suc i) m"
      using umapped_rest [OF Suc.prems(4), of 1] pt by simp
    moreover have rb: "ubytes t pr (a + Suc i) m = tl (ubytes s pr (a + i) (Suc m))" "ubytes s pr (a + i) (Suc m) \<noteq> []"
      "hd (ubytes s pr (a + i) (Suc m)) = ?c"
      by (simp_all add: ubytes_def pt upt_conv_Cons map_tl [symmetric] hd_map del: upt_Suc)
    have "pipewrite_loop pi pr (of_nat a) (int (Suc i)) (int (Suc i + m)) t =
      (if k - 1 = m then Done (int (Suc i + m)) (s'\<lparr>held := []\<rparr>)
       else Stop Asleep (upd_proc pr (\<lambda>q. q\<lparr>p_chan := ChPipeW pi, p_state := SLEEPING\<rparr>) (s'\<lparr>held := [ProcLock pr]\<rparr>)))"
    proof (rule Suc.IH)
      show "pipe_user t pi pr" "umapped (mem t) (p_pagetable (procs t pr)) False (a + Suc i) m" by fact+
      show "held t = [PipeLock pi]" "pi_readopen (pipes t pi)" using Suc.prems(2,3) pt C by simp_all
      show "k - 1 = min m (PIPESIZE - length (pipe_bytes (pipes t pi)))" using Suc.prems(5) pt(1) C(1) lt by simp
      have "take k (ubytes s pr (a + i) (Suc m)) = ?c # take (k - 1) (ubytes t pr (a + Suc i) m)"
      proof -
        have "0 < k" using Suc.prems(5) lt by simp
        then obtain k' where "k = Suc k'" using gr0_implies_Suc by blast
        moreover have "ubytes s pr (a + i) (Suc m) = ?c # ubytes t pr (a + Suc i) m"
          using rb by (cases "ubytes s pr (a + i) (Suc m)") auto
        ultimately show ?thesis by simp
      qed
      then show "s' = woken (ChPipeR pi) (upd_pipe pi (\<lambda>_. fold pipe_put (take (k - 1) (ubytes t pr (a + Suc i) m)) (pipes t pi)) t) {0..<NPROC}"
        unfolding Suc.prems(6) by (simp add: pt t_def upd_pipe_def)
    qed
    moreover have "(k - 1 = m) = (k = Suc m)" using Suc.prems(5) lt by auto
    ultimately show ?thesis using r by simp
  qed
qed


section \<open>Reading\<close>

definition pipe_drop :: "nat \<Rightarrow> pipe \<Rightarrow> pipe" where
  "pipe_drop k r = r\<lparr>pi_nread := pi_nread r + of_nat k\<rparr>"

lemma pipe_drop:
  assumes "k \<le> length (pipe_bytes r)" "pipe_inv r"
  shows "pipe_bytes (pipe_drop k r) = drop k (pipe_bytes r)" "pipe_inv (pipe_drop k r)"
proof -
  have "pipe_bytes (pipe_drop k r) = drop k (pipe_bytes r)"
    using assms(1)
  proof (induction k)
    case 0
    then show ?case by (simp add: pipe_drop_def)
  next
    case (Suc k)
    then have IH: "pipe_bytes (pipe_drop k r) = drop k (pipe_bytes r)" by simp
    then have "pipe_bytes (pipe_drop k r) \<noteq> []" using Suc.prems by simp
    from pipe_get [OF this] have "pipe_bytes (pipe_drop (Suc k) r) = tl (drop k (pipe_bytes r))"
      unfolding IH [symmetric] by (simp add: pipe_drop_def ac_simps)
    then show ?case by (simp add: drop_Suc tl_drop)
  qed
  moreover have "length (drop k (pipe_bytes r)) \<le> PIPESIZE" using assms(2) unfolding pipe_inv_def length_drop by linarith
  ultimately show "pipe_bytes (pipe_drop k r) = drop k (pipe_bytes r)" "pipe_inv (pipe_drop k r)"
    using assms(2) by (simp_all add: pipe_inv_def) (simp add: pipe_drop_def)
qed

lemma piperead_copy_spec:
  assumes "pipe_user s pi pr" "umapped (mem s) (p_pagetable (procs s pr)) True (a + i) m"
    "\<forall>x \<in> {a + i..<a + i + m}. PTE2PA (uleaf (mem s) (p_pagetable (procs s pr)) x) \<notin> set (ptpages (mem s) 2 (p_pagetable (procs s pr)))"
    and k: "k = min m (length (pipe_bytes (pipes s pi)))"
  shows "piperead_copy pi pr (of_nat a) (int i) (int (i + m)) s = Done (int (i + k)) ((upd_pipe pi (pipe_drop k) s)\<lparr>mem :=
      wr_at (mem s) (map (uaddr (mem s) (p_pagetable (procs s pr))) [a + i..<a + i + k]) (take k (pipe_bytes (pipes s pi)))\<rparr>)"
  using assms
proof (induction m arbitrary: i s k)
  case 0
  have "upd_pipe pi (pipe_drop 0) s = s" by (simp add: upd_pipe_def pipe_drop_def)
  then show ?case using 0 by (subst piperead_copy.simps) simp
next
  case (Suc m)
  let ?pt = "p_pagetable (procs s pr)" and ?r = "pipes s pi"
  have P: "curproc s = Some pr" "\<not> p_killed (procs s pr)" "pt_ok (mem s) ?pt" "pipe_inv ?r"
    using Suc.prems(1) by (simp_all add: pipe_user_def)
  have al: "aligned ?pt" using P(3) by (simp add: pt_ok_def)
  show ?case
  proof (cases "pipe_bytes ?r = []")
    case True
    have "upd_pipe pi (pipe_drop 0) s = s" by (simp add: upd_pipe_def pipe_drop_def)
    then show ?thesis using True Suc.prems(4) by (subst piperead_copy.simps) (simp add: pipe_empty)
  next
    case False
    define u where "u = upd_pipe pi (\<lambda>r. r\<lparr>pi_nread := pi_nread r + 1\<rparr>) s"
    let ?b = "pipe_get ?r"
    define t where "t = u\<lparr>mem := wr_at (mem s) (map (uaddr (mem s) ?pt) [a + i]) [?b]\<rparr>"
    have i1: "int i + 1 = int (Suc i)" by simp
    have us: "mem u = mem s" "procs u = procs s" by (simp_all add: u_def upd_pipe_def)
    have um: "umapped (mem u) ?pt True (a + i) (length [?b])" using Suc.prems(2) by (auto simp: umapped_def us)
    have "copyout ?pt (of_nat (a + i)) [?b] u = Done 0 t"
      unfolding t_def using copyout_spec [of u ?pt "a + i" "[?b]"] P(3) um Suc.prems(3) by (simp add: us)
    then have r: "piperead_copy pi pr (of_nat a) (int i) (int (i + Suc m)) s
        = piperead_copy pi pr (of_nat a) (int (Suc i)) (int (Suc i + m)) t"
      using False by (subst piperead_copy.simps) (simp add: pipe_empty Let_def u_def [symmetric] us ac_simps(1) i1)
    have ts: "procs t = procs s" "curproc t = curproc s" "pipes t pi = pipe_drop 1 ?r"
      "mem t = wr_at (mem s) (map (uaddr (mem s) ?pt) [a + i]) [?b]"
      by (simp_all add: t_def us) (simp_all add: u_def upd_pipe_def pipe_drop_def)
    have "\<forall>x \<in> set [a + i]. PTE2PA (uleaf (mem s) ?pt x) \<notin> set (ptpages (mem s) 2 ?pt)" using Suc.prems(3) by simp
    note F = user_write_frame [OF al this ts(4)]
    have l1: "1 \<le> length (pipe_bytes ?r)" using False by (cases "pipe_bytes ?r") auto
    note D = pipe_drop [OF l1 P(4)]
    have pu: "pipe_user t pi pr" using P D(2) F(1) ts by (simp add: pipe_user_def pt_ok_def)
    have "piperead_copy pi pr (of_nat a) (int (Suc i)) (int (Suc i + m)) t = Done (int (Suc i + (k - 1)))
        ((upd_pipe pi (pipe_drop (k - 1)) t)\<lparr>mem := wr_at (mem t) (map (uaddr (mem t) (p_pagetable (procs t pr)))
          [a + Suc i..<a + Suc i + (k - 1)]) (take (k - 1) (pipe_bytes (pipes t pi)))\<rparr>)"
    proof (rule Suc.IH [OF pu])
      show "umapped (mem t) (p_pagetable (procs t pr)) True (a + Suc i) m"
        using umapped_rest [OF Suc.prems(2), of 1] F(2) ts(1) by (simp add: umapped_def)
      show "\<forall>x\<in>{a + Suc i..<a + Suc i + m}. PTE2PA (uleaf (mem t) (p_pagetable (procs t pr)) x) \<notin> set (ptpages (mem t) 2 (p_pagetable (procs t pr)))"
        using Suc.prems(3) F ts(1) by simp
      show "k - 1 = min m (length (pipe_bytes (pipes t pi)))" using Suc.prems(4) ts(3) D(1) l1 by simp
    qed
    moreover have "0 < k" using Suc.prems(4) False by simp
    then obtain j where j: "k = Suc j" using gr0_implies_Suc by blast
    have tk: "take k (pipe_bytes ?r) = ?b # take j (pipe_bytes (pipes t pi))"
      using pipe_get [OF False] by (simp add: j ts(3) pipe_drop_def)
    have ad: "map (uaddr (mem s) ?pt) [a + i..<a + i + k] = uaddr (mem s) ?pt (a + i) # map (uaddr (mem s) ?pt) [Suc (a + i)..<a + i + k]"
      by (simp add: j upt_conv_Cons del: upt_Suc)
    have st: "(upd_pipe pi (pipe_drop j) t)\<lparr>mem := M\<rparr> = (upd_pipe pi (pipe_drop k) s)\<lparr>mem := M\<rparr>" for M
      unfolding t_def u_def upd_pipe_def pipe_drop_def by (simp add: j ac_simps)
    ultimately show ?thesis
      unfolding r tk ad using j ts(1,4) F(3) st by simp
  qed
qed


lemma piperead_spec:
  assumes u: "pipe_user s pi pr" and h: "held s = []"
    and um: "umapped (mem s) (p_pagetable (procs s pr)) True a n"
      "\<forall>x \<in> {a..<a + n}. PTE2PA (uleaf (mem s) (p_pagetable (procs s pr)) x) \<notin> set (ptpages (mem s) 2 (p_pagetable (procs s pr)))"
    and ne: "pipe_bytes (pipes s pi) \<noteq> [] \<or> \<not> pi_writeopen (pipes s pi)"
    and k: "k = min n (length (pipe_bytes (pipes s pi)))"
  shows "piperead pi (of_nat a) (int n) s = Done (int k) (woken (ChPipeW pi) ((upd_pipe pi (pipe_drop k) s)\<lparr>mem :=
      wr_at (mem s) (map (uaddr (mem s) (p_pagetable (procs s pr))) [a..<a + k]) (take k (pipe_bytes (pipes s pi)))\<rparr>) {0..<NPROC})"
proof -
  let ?s = "s\<lparr>held := [PipeLock pi]\<rparr>"
  let ?t = "(upd_pipe pi (pipe_drop k) s)\<lparr>mem := wr_at (mem s) (map (uaddr (mem s) (p_pagetable (procs s pr))) [a..<a + k])
      (take k (pipe_bytes (pipes s pi)))\<rparr>"
  have c: "curproc s = Some pr" using u by (simp add: pipe_user_def)
  have pu: "pipe_user ?s pi pr" using u by (simp add: pipe_user_def)
  have "piperead_copy pi pr (of_nat a) 0 (int n) ?s = Done (int k) (?t\<lparr>held := [PipeLock pi]\<rparr>)"
    using piperead_copy_spec [OF pu, of a 0 n k] um k by simp
  moreover have "no_proclock (?t\<lparr>held := [PipeLock pi]\<rparr>)" by (simp add: no_proclock_def)
  moreover have "(woken c ?t P)\<lparr>held := []\<rparr> = woken c ?t P" for c P using h by simp
  moreover have "(pipe_bytes (pipes s pi) = [] \<and> pi_writeopen (pipes s pi)) = False" using ne by blast
  ultimately show ?thesis
    using c h by (auto simp: piperead_def piperead_loop_def pipe_empty wakeup_eq woken_upd_held)
qed

section \<open>Properties\<close>

text \<open>A pipe of process 0 in the address space \<open>vm0\<close> with the page at \<open>0x1000\<close> mapped, for examples.\<close>

definition pi0 :: kstate where
  "pi0 = (case mappages 0x80030000 0x1000 0x1000 0x80050000 (PTE_R OR PTE_W OR PTE_U) vm0 of
     Done _ s \<Rightarrow> s\<lparr>pipes := \<lambda>_. pipe0\<lparr>pi_readopen := True, pi_writeopen := True\<rparr>\<rparr> | Stop _ s \<Rightarrow> s)"

lemma pi0:
  "pipe_user pi0 q 0" "held pi0 = []" "pi_readopen (pipes pi0 q)" "pi_writeopen (pipes pi0 q)" "pipe_bytes (pipes pi0 q) = []"
  "p_pagetable (procs pi0 0) = 0x80030000" "umapped (mem pi0) 0x80030000 True 0x1000 4"
  "\<forall>x \<in> {0x1000..<0x1004}. PTE2PA (uleaf (mem pi0) 0x80030000 x) \<notin> set (ptpages (mem pi0) 2 0x80030000)"
proof -
  let ?pt = "0x80030000 :: uint64" and ?perm = "PTE_R OR PTE_W OR PTE_U" and ?fs = "[0x80040000, 0x80041000, 0x80042000] :: uint64 list"
  obtain r s gs k where m: "mappages ?pt 0x1000 (of_nat (1 * 4096)) 0x80050000 ?perm vm0 = Done r s"
    "r = 0 \<and> k = 1 \<or> r = -1 \<and> k < 1 \<and> gs = [] \<and> length ?fs < 2 * Suc k"
    "mapped vm0 s ?pt ?fs gs (\<lambda>v. if vpn 0x1000 \<le> vpn v \<and> vpn v < vpn 0x1000 + k
        then PA2PTE (0x80050000 + of_nat ((vpn v - vpn 0x1000) * 4096)) OR ?perm OR PTE_V else leaf (mem vm0) 2 ?pt v)"
    using mappages_spec [OF vm0(1), of 1 "0x1000" "0x80050000" ?perm] by (auto simp: vm0(2) MAXVA_val)
  then have rk: "r = 0" "k = 1" by auto
  have e: "pi0 = s\<lparr>pipes := \<lambda>_. pipe0\<lparr>pi_readopen := True, pi_writeopen := True\<rparr>\<rparr>"
    using m(1) by (simp add: pi0_def)
  have inv: "vm_inv s 2 ?pt gs" using m(3) by (simp add: mapped_def)
  have sv: "s = vm0\<lparr>mem := mem s, freelist := freelist s\<rparr>" using m(3) unfolding mapped_def by blast
  have S: "curproc s = Some 0" "p_pagetable (procs s 0) = ?pt" "held s = []" "p_killed (procs s 0) = False"
    using vm0(4,6,7,8) by (subst sv, simp)+
  have lf: "uleaf (mem s) ?pt x = PA2PTE 0x80050000 OR ?perm OR PTE_V" if "x \<in> {0x1000..<0x1004}" for x
  proof -
    have "x div 4096 = 0x1000 div 4096" using that by auto
    then have "uleaf (mem s) ?pt x = uleaf (mem s) ?pt 0x1000" using that by (intro uleaf_page) (auto simp: MAXVA_val)
    then show ?thesis using m(3) rk unfolding mapped_def uleaf_def by (auto simp: MAXVA_val)
  qed
  obtain new where new: "?fs = new @ gs" "set (ptpages (mem s) 2 ?pt) = set (ptpages (mem vm0) 2 ?pt) \<union> set new"
    using m(3) unfolding mapped_def by blast
  have sub: "set new \<subseteq> set ?fs" unfolding new(1) by simp
  have np: "0x80050000 \<notin> set (ptpages (mem s) 2 ?pt)" unfolding new(2) vm0(3) using sub by auto
  have pa: "PTE2PA (PA2PTE 0x80050000 OR ?perm OR PTE_V) = 0x80050000"
    by (simp add: PTE2PA_def PA2PTE_def PTE_R_def PTE_W_def PTE_U_def PTE_V_def)
  have fl: "user_leaf (PA2PTE 0x80050000 OR ?perm OR PTE_V)" "(PA2PTE 0x80050000 OR ?perm OR PTE_V) AND PTE_W \<noteq> 0"
    by (simp_all add: user_leaf_def pvalid_def PA2PTE_def PTE_R_def PTE_W_def PTE_U_def PTE_V_def)
  show pb: "pipe_bytes (pipes pi0 q) = []" "pi_readopen (pipes pi0 q)" "pi_writeopen (pipes pi0 q)"
    by (simp_all add: e pipe_bytes_def ring_list_def pipe0_def)
  show "held pi0 = []" "p_pagetable (procs pi0 0) = ?pt" using S by (simp_all add: e)
  show "pipe_user pi0 q 0"
    using S vm_inv_pt_ok [OF inv] pb by (simp add: pipe_user_def pipe_inv_def) (simp add: e pipe0_def PIPESIZE_def)
  show "umapped (mem pi0) ?pt True 0x1000 4" unfolding umapped_def using lf pa fl by (simp add: e MAXVA_val)
  show "\<forall>x \<in> {0x1000..<0x1004}. PTE2PA (uleaf (mem pi0) ?pt x) \<notin> set (ptpages (mem pi0) 2 ?pt)"
    using lf pa np by (simp add: e)
qed

text \<open>C17: A write to a pipe appends the bytes of the user's buffer, in order, to the bytes in the pipe; the counters
  may wrap around.  When all fit, \<open>pipewrite\<close> returns their number.  Otherwise the pipe is filled to its
  512 bytes with the first of them, nothing is lost, and the writer sleeps until a reader makes room.\<close>

theorem pipewrite_appends:
  assumes "pipe_user s pi pr" "held s = []" "pi_readopen (pipes s pi)"
    "umapped (mem s) (p_pagetable (procs s pr)) False a n"
    and room: "room = PIPESIZE - length (pipe_bytes (pipes s pi))"
  shows "\<exists>t. pipe_bytes (pipes t pi) = pipe_bytes (pipes s pi) @ take room (ubytes s pr a n) \<and> pipe_inv (pipes t pi)
    \<and> mem t = mem s \<and> pipewrite pi (of_nat a) (int n) s = (if n \<le> room then Done (int n) t else Stop Asleep t)
    \<and> (if n \<le> room then held t = [] else held t = [ProcLock pr] \<and> p_state (procs t pr) = SLEEPING \<and> p_chan (procs t pr) = ChPipeW pi)"
proof -
  let ?s = "s\<lparr>held := [PipeLock pi]\<rparr>"
  define k where "k = min n room"
  define P where "P = fold pipe_put (take k (ubytes s pr a n)) (pipes s pi)"
  define s' where "s' = woken (ChPipeR pi) (upd_pipe pi (\<lambda>_. P) s) {0..<NPROC}"
  have I: "pipe_inv (pipes s pi)" "curproc s = Some pr" using assms(1) by (simp_all add: pipe_user_def)
  have lu: "length (ubytes s pr a n) = n" by (simp add: ubytes_def)
  have tk: "take k (ubytes s pr a n) = take room (ubytes s pr a n)" using lu by (simp add: k_def min_def)
  have "length (pipe_bytes (pipes s pi)) + length (take k (ubytes s pr a n)) \<le> PIPESIZE"
    using I(1) lu unfolding k_def room pipe_inv_def length_take by linarith
  note PP = pipe_puts [OF I(1) this, folded P_def, unfolded tk]
  have "pipe_user ?s pi pr" using assms(1) by (simp add: pipe_user_def)
  then have "pipewrite_loop pi pr (of_nat a) 0 (int n) ?s =
    (if k = n then Done (int n) (s'\<lparr>held := []\<rparr>)
     else Stop Asleep (upd_proc pr (\<lambda>q. q\<lparr>p_chan := ChPipeW pi, p_state := SLEEPING\<rparr>) (s'\<lparr>held := [ProcLock pr]\<rparr>)))"
    using pipewrite_loop_spec [of ?s pi pr a 0 n k] assms(3,4)
    by (simp add: k_def room P_def s'_def woken_upd_held ubytes_def)
  then have run: "pipewrite pi (of_nat a) (int n) s =
    (if k = n then Done (int n) (s'\<lparr>held := []\<rparr>)
     else Stop Asleep (upd_proc pr (\<lambda>q. q\<lparr>p_chan := ChPipeW pi, p_state := SLEEPING\<rparr>) (s'\<lparr>held := [ProcLock pr]\<rparr>)))"
    using I(2) assms(2) by (simp add: pipewrite_def)
  have kn: "k = n \<longleftrightarrow> n \<le> room" by (auto simp: k_def)
  have sp: "pipes s' pi = P" "mem s' = mem s" by (simp_all add: s'_def upd_pipe_def)
  show ?thesis
  proof (cases "n \<le> room")
    case True
    then show ?thesis using run kn sp PP by (intro exI [of _ "s'\<lparr>held := []\<rparr>"]) simp
  next
    case False
    then show ?thesis using run kn sp PP
      by (intro exI [of _ "upd_proc pr (\<lambda>q. q\<lparr>p_chan := ChPipeW pi, p_state := SLEEPING\<rparr>) (s'\<lparr>held := [ProcLock pr]\<rparr>)"])
        (simp add: upd_proc_def)
  qed
qed

theorem pipewrite_appends_witness:
  "\<exists>t. pipewrite 0x80060000 (of_nat 0x1000) 4 pi0 = Done 4 t \<and> pipe_bytes (pipes t 0x80060000) = ubytes pi0 0 0x1000 4"
proof -
  have "umapped (mem pi0) (p_pagetable (procs pi0 0)) False 0x1000 4" using pi0(6,7) by (simp add: umapped_def)
  from pipewrite_appends [OF pi0(1-3) this refl, of "0x80060000"] show ?thesis
    using pi0(5) [of "0x80060000"] by (auto simp: PIPESIZE_def ubytes_def)
qed

text \<open>C18: A read from a pipe that has bytes, or whose write end is closed, takes the oldest bytes out of the pipe, as
  many as were asked for and are there, and stores them in order in the user's buffer; the rest stays in the
  pipe in order.  So bytes leave a pipe in the order in which they entered it, and an empty pipe with
  no writer reads as end of file.\<close>

theorem piperead_takes_oldest:
  assumes "pipe_user s pi pr" "held s = []" "umapped (mem s) (p_pagetable (procs s pr)) True a n"
    "\<forall>x \<in> {a..<a + n}. PTE2PA (uleaf (mem s) (p_pagetable (procs s pr)) x) \<notin> set (ptpages (mem s) 2 (p_pagetable (procs s pr)))"
    "pipe_bytes (pipes s pi) \<noteq> [] \<or> \<not> pi_writeopen (pipes s pi)"
    and k: "k = min n (length (pipe_bytes (pipes s pi)))"
  shows "\<exists>t. piperead pi (of_nat a) (int n) s = Done (int k) t \<and> pipe_inv (pipes t pi)
    \<and> pipe_bytes (pipes t pi) = drop k (pipe_bytes (pipes s pi))
    \<and> mem t = wr_at (mem s) (map (uaddr (mem s) (p_pagetable (procs s pr))) [a..<a + k]) (take k (pipe_bytes (pipes s pi)))"
proof -
  have "k \<le> length (pipe_bytes (pipes s pi))" "pipe_inv (pipes s pi)" using k assms(1) by (simp_all add: pipe_user_def)
  note D = pipe_drop [OF this]
  show ?thesis using piperead_spec [OF assms] D by (simp add: upd_pipe_def)
qed

theorem piperead_takes_oldest_witness:
  "\<exists>t. piperead 0x80060000 (of_nat 0x1000) 4 (upd_pipe 0x80060000 (pipe_put 65) pi0) = Done 1 t \<and> pipe_bytes (pipes t 0x80060000) = []"
proof -
  let ?s = "upd_pipe 0x80060000 (pipe_put 65) pi0" and ?q = "0x80060000 :: uint64"
  have I: "pipe_inv (pipes pi0 ?q)" using pi0(1) [of ?q] by (simp add: pipe_user_def)
  note B = pipe_put [OF I, of 65]
  have b: "pipe_bytes (pipes ?s ?q) = [65]" "pipe_inv (pipes ?s ?q)"
    using B pi0(5) [of ?q] by (simp_all add: upd_pipe_def PIPESIZE_def)
  have f: "mem ?s = mem pi0" "procs ?s = procs pi0" "curproc ?s = curproc pi0" "held ?s = held pi0" by (simp_all add: upd_pipe_def)
  have "pipe_user ?s ?q 0" using pi0(1) [of ?q] b f by (simp add: pipe_user_def)
  from piperead_takes_oldest [OF this _ _ _ _ refl, of "0x1000" 4] show ?thesis
    using pi0(2,6,7,8) b f by auto
qed

text \<open>C19: The ends of a pipe: writing when the read end is closed or the writer was killed returns \<open>-1\<close> and leaves
  the pipe as it was.  Reading an empty pipe whose write end is closed returns 0, end of file, at any user
  address and whether or not the reader was killed, and only wakes the writers that sleep on the pipe.
  Reading an empty pipe that has a writer puts the reader to sleep, or returns \<open>-1\<close> when it was killed.\<close>

theorem pipe_ends:
  assumes "curproc s = Some pr" "held s = []"
  shows "(0 < n \<and> (\<not> pi_readopen (pipes s pi) \<or> p_killed (procs s pr)) \<longrightarrow> pipewrite pi addr n s = Done (-1) s)
    \<and> (pipe_bytes (pipes s pi) = [] \<and> \<not> pi_writeopen (pipes s pi) \<longrightarrow>
        piperead pi addr n s = Done 0 (woken (ChPipeW pi) s {0..<NPROC}))
    \<and> (pipe_bytes (pipes s pi) = [] \<and> pi_writeopen (pipes s pi) \<longrightarrow> piperead pi addr n s =
        (if p_killed (procs s pr) then Done (-1) s
         else Stop Asleep (upd_proc pr (\<lambda>q. q\<lparr>p_chan := ChPipeR pi, p_state := SLEEPING\<rparr>) (s\<lparr>held := [ProcLock pr]\<rparr>))))"
proof -
  let ?s = "s\<lparr>held := [PipeLock pi]\<rparr>"
  have e: "s\<lparr>held := []\<rparr> = s" using assms(2) by simp
  have k: "killed pr ?s = Done (p_killed (procs s pr)) ?s" by (simp add: killed_eq)
  have "pipewrite pi addr n s = Done (-1) s" if "0 < n" "\<not> pi_readopen (pipes s pi) \<or> p_killed (procs s pr)"
  proof -
    have "pipewrite_loop pi pr addr 0 n ?s = Done (-1) s" using that k e by (subst pipewrite_loop.simps) auto
    then show ?thesis using assms by (simp add: pipewrite_def)
  qed
  moreover have "piperead pi addr n s = Done 0 (woken (ChPipeW pi) s {0..<NPROC})"
    if "pipe_bytes (pipes s pi) = []" "\<not> pi_writeopen (pipes s pi)"
  proof -
    have "piperead_copy pi pr addr 0 n ?s = Done 0 ?s" using that by (subst piperead_copy.simps) (simp add: pipe_empty)
    moreover have "no_proclock ?s" by (simp add: no_proclock_def)
    moreover have "(woken c s P)\<lparr>held := []\<rparr> = woken c s P" for c P using assms(2) by simp
    ultimately show ?thesis using that assms by (simp add: piperead_def piperead_loop_def pipe_empty wakeup_eq woken_upd_held)
  qed
  moreover have "(sleep (ChPipeR pi) (PipeLock pi) ?s :: int kres)
      = Stop Asleep (upd_proc pr (\<lambda>q. q\<lparr>p_chan := ChPipeR pi, p_state := SLEEPING\<rparr>) (s\<lparr>held := [ProcLock pr]\<rparr>))"
    using assms(1) by (subst sleep_eq) simp_all
  then have "piperead pi addr n s = (if p_killed (procs s pr) then Done (-1) s
         else Stop Asleep (upd_proc pr (\<lambda>q. q\<lparr>p_chan := ChPipeR pi, p_state := SLEEPING\<rparr>) (s\<lparr>held := [ProcLock pr]\<rparr>)))"
    if "pipe_bytes (pipes s pi) = []" "pi_writeopen (pipes s pi)"
    using that assms k e by (simp add: piperead_def piperead_loop_def pipe_empty)
  ultimately show ?thesis by blast
qed

text \<open>An empty pipe with both ends closed, and one with both ends open.\<close>

theorem pipe_ends_witness:
  "pipewrite 0x80060000 0 1 (pi0\<lparr>pipes := \<lambda>_. pipe0\<rparr>) = Done (-1) (pi0\<lparr>pipes := \<lambda>_. pipe0\<rparr>)
    \<and> piperead 0x80060000 0 4 (pi0\<lparr>pipes := \<lambda>_. pipe0\<rparr>)
      = Done 0 (woken (ChPipeW 0x80060000) (pi0\<lparr>pipes := \<lambda>_. pipe0\<rparr>) {0..<NPROC})
    \<and> piperead 0x80060000 0 4 pi0
      = Stop Asleep (upd_proc 0 (\<lambda>q. q\<lparr>p_chan := ChPipeR 0x80060000, p_state := SLEEPING\<rparr>) (pi0\<lparr>held := [ProcLock 0]\<rparr>))"
proof -
  let ?c = "pi0\<lparr>pipes := \<lambda>_. pipe0\<rparr>" and ?q = "0x80060000 :: uint64"
  have b: "pipe_bytes pipe0 = []" "\<not> pi_readopen pipe0" "\<not> pi_writeopen pipe0"
    by (simp_all add: pipe_bytes_def ring_list_def pipe0_def)
  have p: "curproc pi0 = Some 0" "\<not> p_killed (procs pi0 0)" using pi0(1) [of ?q] by (simp_all add: pipe_user_def)
  have "pipewrite ?q 0 1 ?c = Done (-1) ?c" using pipe_ends [of ?c 0 1 ?q 0] b p pi0(2) by simp
  moreover have "piperead ?q 0 4 ?c = Done 0 (woken (ChPipeW ?q) ?c {0..<NPROC})"
    using pipe_ends [of ?c 0 4 ?q 0] b p pi0(2) by simp
  moreover have "piperead ?q 0 4 pi0
      = Stop Asleep (upd_proc 0 (\<lambda>q. q\<lparr>p_chan := ChPipeR ?q, p_state := SLEEPING\<rparr>) (pi0\<lparr>held := [ProcLock 0]\<rparr>))"
    using pipe_ends [OF p(1) pi0(2), of 4 ?q 0] p(2) pi0(4,5) [of ?q] by simp
  ultimately show ?thesis by blast
qed

end
