(* ===== verification/File.thy ===== *)
theory File
  imports Fs Pipe Console
begin

text \<open>
  Open files (\<open>kernel/file.c\<close>) and \<open>pipealloc\<close> of \<open>kernel/pipe.c\<close>.  A file pointer is the index in the table.
  The device switch has one possible pair of functions, those of the console; \<open>devsw s major\<close> says
  whether they are installed under that number.
\<close>

section \<open>The table\<close>

definition filealloc :: "kstate \<Rightarrow> nat option kres" where
  "filealloc s =
    bnd (kacquire FtableLock s) (\<lambda>_ s.
    case find (\<lambda>f. f_ref (ftable s f) = 0) [0..<NFILE] of
      Some f \<Rightarrow>
        let s = upd_file f (\<lambda>r. r\<lparr>f_ref := 1\<rparr>) s in
        bnd (krelease FtableLock s) (\<lambda>_ s. Done (Some f) s)
    | None \<Rightarrow> bnd (krelease FtableLock s) (\<lambda>_ s. Done None s))"

definition filedup :: "nat \<Rightarrow> kstate \<Rightarrow> nat kres" where
  "filedup f s =
    bnd (kacquire FtableLock s) (\<lambda>_ s.
    if f_ref (ftable s f) < 1 then panic ''filedup'' s
    else let s = upd_file f (\<lambda>r. r\<lparr>f_ref := f_ref r + 1\<rparr>) s in
      bnd (krelease FtableLock s) (\<lambda>_ s. Done f s))"

definition fileclose :: "nat \<Rightarrow> kstate \<Rightarrow> unit kres" where
  "fileclose f s =
    bnd (kacquire FtableLock s) (\<lambda>_ s.
    if f_ref (ftable s f) < 1 then panic ''fileclose'' s
    else let s = upd_file f (\<lambda>r. r\<lparr>f_ref := f_ref r - 1\<rparr>) s in
      if f_ref (ftable s f) > 0 then krelease FtableLock s
      else let ff = ftable s f;
               s = upd_file f (\<lambda>r. r\<lparr>f_ref := 0, f_type := FD_NONE\<rparr>) s in
        bnd (krelease FtableLock s) (\<lambda>_ s.
        case f_type ff of
          FD_PIPE \<Rightarrow> pipeclose (f_pipe ff) (f_writable ff) s
        | FD_INODE \<Rightarrow> bnd (begin_op s) (\<lambda>_ s. bnd (iput (f_ip ff) s) (\<lambda>_ s. end_op s))
        | FD_DEVICE \<Rightarrow> bnd (begin_op s) (\<lambda>_ s. bnd (iput (f_ip ff) s) (\<lambda>_ s. end_op s))
        | FD_NONE \<Rightarrow> Done () s))"

definition pipealloc_bad :: "uint64 \<Rightarrow> nat option \<Rightarrow> nat option \<Rightarrow> kstate \<Rightarrow> (nat \<times> nat) option kres" where
  "pipealloc_bad pi f0 f1 s =
    bnd (if pi \<noteq> 0 then kfree pi s else Done () s) (\<lambda>_ s.
    bnd (case f0 of None \<Rightarrow> Done () s | Some f \<Rightarrow> fileclose f s) (\<lambda>_ s.
    bnd (case f1 of None \<Rightarrow> Done () s | Some f \<Rightarrow> fileclose f s) (\<lambda>_ s.
    Done None s)))"

text \<open>\<open>Some (f0, f1)\<close> is the return value 0 with the two files, \<open>None\<close> the return value -1.\<close>

definition pipealloc :: "kstate \<Rightarrow> (nat \<times> nat) option kres" where
  "pipealloc s =
    bnd (filealloc s) (\<lambda>f0 s.
    case f0 of None \<Rightarrow> pipealloc_bad 0 None None s
    | Some r \<Rightarrow>
      bnd (filealloc s) (\<lambda>f1 s.
      case f1 of None \<Rightarrow> pipealloc_bad 0 (Some r) None s
      | Some w \<Rightarrow>
        bnd (kalloc s) (\<lambda>pi s.
        if pi = 0 then pipealloc_bad 0 (Some r) (Some w) s
        else let s = upd_pipe pi (\<lambda>q. q\<lparr>pi_readopen := True, pi_writeopen := True, pi_nwrite := 0, pi_nread := 0\<rparr>) s;
                 s = upd_file r (\<lambda>x. x\<lparr>f_type := FD_PIPE, f_readable := True, f_writable := False, f_pipe := pi\<rparr>) s;
                 s = upd_file w (\<lambda>x. x\<lparr>f_type := FD_PIPE, f_readable := False, f_writable := True, f_pipe := pi\<rparr>) s in
          Done (Some (r, w)) s)))"

section \<open>Reading and writing\<close>

text \<open>\<open>struct stat\<close> as \<open>copyout\<close> sees it; the four bytes before \<open>size\<close> are padding.\<close>

definition stat_bytes :: "stat \<Rightarrow> byte list" where
  "stat_bytes st = bytes_of 4 (word_of_int (st_dev st) :: uint) @ bytes_of 4 (st_ino st) @ bytes_of 2 (st_type st)
     @ bytes_of 2 (st_nlink st) @ replicate 4 0 @ bytes_of 8 (st_size st)"

definition filestat :: "nat \<Rightarrow> uint64 \<Rightarrow> kstate \<Rightarrow> int kres" where
  "filestat f addr s =
    bnd (myproc s) (\<lambda>p s.
    if f_type (ftable s f) = FD_INODE \<or> f_type (ftable s f) = FD_DEVICE
    then let ip = f_ip (ftable s f) in
      bnd (ilock ip s) (\<lambda>_ s.
      let st = stati ip s in
      bnd (iunlock ip s) (\<lambda>_ s.
      bnd (copyout (p_pagetable (procs s p)) addr (stat_bytes st) s) (\<lambda>r s.
      if r < 0 then Done (-1) s else Done 0 s)))
    else Done (-1) s)"

definition has_dev :: "ushort \<Rightarrow> kstate \<Rightarrow> bool" where
  "has_dev major s \<longleftrightarrow> \<not> (sint major < 0 \<or> sint major \<ge> int NDEV \<or> \<not> devsw s (unat major))"

definition fileread :: "nat \<Rightarrow> uint64 \<Rightarrow> int \<Rightarrow> kstate \<Rightarrow> int kres" where
  "fileread f addr n s =
    (if \<not> f_readable (ftable s f) then Done (-1) s
     else case f_type (ftable s f) of
       FD_PIPE \<Rightarrow> piperead (f_pipe (ftable s f)) addr n s
     | FD_DEVICE \<Rightarrow> if \<not> has_dev (f_major (ftable s f)) s then Done (-1) s else consoleread True addr n s
     | FD_INODE \<Rightarrow>
       let ip = f_ip (ftable s f) in
       bnd (ilock ip s) (\<lambda>_ s.
       bnd (readi ip (ToUser addr) (f_off (ftable s f)) (word_of_int n) s) (\<lambda>(r, _) s.
       let s = (if r > 0 then upd_file f (\<lambda>x. x\<lparr>f_off := f_off x + word_of_int r\<rparr>) s else s) in
       bnd (iunlock ip s) (\<lambda>_ s. Done r s)))
     | FD_NONE \<Rightarrow> panic ''fileread'' s)"

definition max_write :: int where
  "max_write = int ((MAXOPBLOCKS - 1 - 1 - 2) div 2 * BSIZE)"

function filewrite_loop :: "nat \<Rightarrow> uint64 \<Rightarrow> int \<Rightarrow> int \<Rightarrow> kstate \<Rightarrow> int kres" where
  "filewrite_loop f addr i n s =
    (if i < n
     then let n1 = (if n - i > max_write then max_write else n - i);
              ip = f_ip (ftable s f) in
       bnd (begin_op s) (\<lambda>_ s.
       bnd (ilock ip s) (\<lambda>_ s.
       bnd (writei ip (FromUser (addr + word_of_int i)) (f_off (ftable s f)) (word_of_int n1) s) (\<lambda>r s.
       let s = (if r > 0 then upd_file f (\<lambda>x. x\<lparr>f_off := f_off x + word_of_int r\<rparr>) s else s) in
       bnd (iunlock ip s) (\<lambda>_ s.
       bnd (end_op s) (\<lambda>_ s.
       if r \<noteq> n1 then Done i s else filewrite_loop f addr (i + r) n s)))))
     else Done i s)"
  by pat_completeness auto
termination
  by (relation "measure (\<lambda>(_, _, i, n, _). nat (n - i))")
    (auto simp: max_write_def MAXOPBLOCKS_def BSIZE_def split: if_splits)

declare filewrite_loop.simps [simp del]

definition filewrite :: "nat \<Rightarrow> uint64 \<Rightarrow> int \<Rightarrow> kstate \<Rightarrow> int kres" where
  "filewrite f addr n s =
    (if \<not> f_writable (ftable s f) then Done (-1) s
     else case f_type (ftable s f) of
       FD_PIPE \<Rightarrow> pipewrite (f_pipe (ftable s f)) addr n s
     | FD_DEVICE \<Rightarrow> if \<not> has_dev (f_major (ftable s f)) s then Done (-1) s else consolewrite True addr n s
     | FD_INODE \<Rightarrow> bnd (filewrite_loop f addr 0 n s) (\<lambda>i s. Done (if i = n then n else -1) s)
     | FD_NONE \<Rightarrow> panic ''filewrite'' s)"

end
