(* ===== verification/Proc.thy ===== *)
theory Proc
  imports File
begin

text \<open>
  Processes (\<open>kernel/proc.c\<close>): allocation and release of a process and its page table, \<open>fork\<close>, \<open>exit\<close>,
  \<open>wait\<close>, and the size of user memory.  The trap frame is the structure at the start of the page
  \<open>p_trapframe\<close>; its fields are named by \<open>tfield\<close>.  A null parent or \<open>initproc\<close> is \<open>None\<close>.
\<close>

section \<open>The trap frame (kernel/proc.h)\<close>

datatype tfield = TF_kernel_satp | TF_kernel_sp | TF_kernel_trap | TF_epc | TF_kernel_hartid | TF_ra | TF_sp
  | TF_gp | TF_tp | TF_t0 | TF_t1 | TF_t2 | TF_s0 | TF_s1 | TF_a0 | TF_a1 | TF_a2 | TF_a3 | TF_a4 | TF_a5 | TF_a6
  | TF_a7 | TF_s2 | TF_s3 | TF_s4 | TF_s5 | TF_s6 | TF_s7 | TF_s8 | TF_s9 | TF_s10 | TF_s11 | TF_t3 | TF_t4 | TF_t5
  | TF_t6

primrec tf_off :: "tfield \<Rightarrow> nat" where
  "tf_off TF_kernel_satp = 0" | "tf_off TF_kernel_sp = 8" | "tf_off TF_kernel_trap = 16" | "tf_off TF_epc = 24"
| "tf_off TF_kernel_hartid = 32" | "tf_off TF_ra = 40" | "tf_off TF_sp = 48" | "tf_off TF_gp = 56"
| "tf_off TF_tp = 64" | "tf_off TF_t0 = 72" | "tf_off TF_t1 = 80" | "tf_off TF_t2 = 88" | "tf_off TF_s0 = 96"
| "tf_off TF_s1 = 104" | "tf_off TF_a0 = 112" | "tf_off TF_a1 = 120" | "tf_off TF_a2 = 128" | "tf_off TF_a3 = 136"
| "tf_off TF_a4 = 144" | "tf_off TF_a5 = 152" | "tf_off TF_a6 = 160" | "tf_off TF_a7 = 168" | "tf_off TF_s2 = 176"
| "tf_off TF_s3 = 184" | "tf_off TF_s4 = 192" | "tf_off TF_s5 = 200" | "tf_off TF_s6 = 208" | "tf_off TF_s7 = 216"
| "tf_off TF_s8 = 224" | "tf_off TF_s9 = 232" | "tf_off TF_s10 = 240" | "tf_off TF_s11 = 248" | "tf_off TF_t3 = 256"
| "tf_off TF_t4 = 264" | "tf_off TF_t5 = 272" | "tf_off TF_t6 = 280"

definition TRAPFRAME_SIZE :: nat where "TRAPFRAME_SIZE = 288"

definition get_tf :: "nat \<Rightarrow> tfield \<Rightarrow> kstate \<Rightarrow> uint64" where
  "get_tf p r s = load64 (mem s) (unat (p_trapframe (procs s p)) + tf_off r)"

definition set_tf :: "nat \<Rightarrow> tfield \<Rightarrow> uint64 \<Rightarrow> kstate \<Rightarrow> kstate" where
  "set_tf p r v s = s\<lparr>mem := store64 (mem s) (unat (p_trapframe (procs s p)) + tf_off r) v\<rparr>"

section \<open>Allocation\<close>

definition procinit :: "kstate \<Rightarrow> kstate" where
  "procinit s = fold (\<lambda>p s. upd_proc p (\<lambda>q. q\<lparr>p_state := UNUSED, p_kstack := KSTACK p\<rparr>) s) [0..<NPROC] s"

definition proc_pagetable :: "nat \<Rightarrow> kstate \<Rightarrow> uint64 kres" where
  "proc_pagetable p s =
    bnd (uvmcreate s) (\<lambda>pagetable s.
    if pagetable = 0 then Done 0 s
    else bnd (mappages pagetable TRAMPOLINE PGSIZE (sym_trampoline (link s)) (PTE_R OR PTE_X) s) (\<lambda>r s.
      if r < 0 then bnd (uvmfree pagetable 0 s) (\<lambda>_ s. Done 0 s)
      else bnd (mappages pagetable TRAPFRAME PGSIZE (p_trapframe (procs s p)) (PTE_R OR PTE_W) s) (\<lambda>r s.
        if r < 0
        then bnd (uvmunmap pagetable TRAMPOLINE 1 False s) (\<lambda>_ s.
          bnd (uvmfree pagetable 0 s) (\<lambda>_ s. Done 0 s))
        else Done pagetable s)))"

definition proc_freepagetable :: "uint64 \<Rightarrow> uint64 \<Rightarrow> kstate \<Rightarrow> unit kres" where
  "proc_freepagetable pagetable sz s =
    bnd (uvmunmap pagetable TRAMPOLINE 1 False s) (\<lambda>_ s.
    bnd (uvmunmap pagetable TRAPFRAME 1 False s) (\<lambda>_ s.
    uvmfree pagetable sz s))"

definition freeproc :: "nat \<Rightarrow> kstate \<Rightarrow> unit kres" where
  "freeproc p s =
    bnd (if p_trapframe (procs s p) \<noteq> 0 then kfree (p_trapframe (procs s p)) s else Done () s) (\<lambda>_ s.
    let s = upd_proc p (\<lambda>q. q\<lparr>p_trapframe := 0\<rparr>) s in
    bnd (if p_pagetable (procs s p) \<noteq> 0
         then proc_freepagetable (p_pagetable (procs s p)) (p_sz (procs s p)) s else Done () s) (\<lambda>_ s.
    Done () (upd_proc p (\<lambda>q. q\<lparr>p_pagetable := 0, p_sz := 0, p_pid := 0, p_parent := None,
      p_name := (p_name q)[0 := 0], p_chan := ChNull, p_killed := False, p_xstate := 0, p_state := UNUSED\<rparr>) s)))"

text \<open>The search of \<open>allocproc\<close>: it returns holding the lock of the process it found.\<close>

fun allocproc_find :: "nat list \<Rightarrow> kstate \<Rightarrow> nat option kres" where
  "allocproc_find [] s = Done None s"
| "allocproc_find (p # ps) s =
    bnd (kacquire (ProcLock p) s) (\<lambda>_ s.
    if p_state (procs s p) = UNUSED then Done (Some p) s
    else bnd (krelease (ProcLock p) s) (\<lambda>_ s. allocproc_find ps s))"

definition allocproc :: "kstate \<Rightarrow> nat option kres" where
  "allocproc s =
    bnd (allocproc_find [0..<NPROC] s) (\<lambda>found s.
    case found of
      None \<Rightarrow> Done None s
    | Some p \<Rightarrow>
      bnd (allocpid s) (\<lambda>pid s.
      let s = upd_proc p (\<lambda>q. q\<lparr>p_pid := pid, p_state := USED\<rparr>) s in
      bnd (kalloc s) (\<lambda>tf s.
      let s = upd_proc p (\<lambda>q. q\<lparr>p_trapframe := tf\<rparr>) s in
      if tf = 0
      then bnd (freeproc p s) (\<lambda>_ s. bnd (krelease (ProcLock p) s) (\<lambda>_ s. Done None s))
      else bnd (proc_pagetable p s) (\<lambda>pt s.
        let s = upd_proc p (\<lambda>q. q\<lparr>p_pagetable := pt\<rparr>) s in
        if pt = 0
        then bnd (freeproc p s) (\<lambda>_ s. bnd (krelease (ProcLock p) s) (\<lambda>_ s. Done None s))
        else let s = upd_proc p (\<lambda>q. q\<lparr>p_context := \<lparr>ctx_ra = 0, ctx_sp = 0, ctx_s = replicate 12 0\<rparr>\<rparr>) s;
                 s = upd_proc p (\<lambda>q. q\<lparr>p_context := (p_context q)\<lparr>ctx_ra := sym_forkret (link s),
                       ctx_sp := p_kstack q + PGSIZE\<rparr>\<rparr>) s in
          Done (Some p) s))))"

definition userinit :: "kstate \<Rightarrow> unit kres" where
  "userinit s =
    bnd (allocproc s) (\<lambda>p s.
    let s = s\<lparr>initproc := p\<rparr> in
    case p of
      None \<Rightarrow> Stop (Fault ''userinit'') s
    | Some p \<Rightarrow>
      bnd (namei [slash] s) (\<lambda>ip s.
      let s = upd_proc p (\<lambda>q. q\<lparr>p_cwd := ip\<rparr>) s;
          s = upd_proc p (\<lambda>q. q\<lparr>p_state := RUNNABLE\<rparr>) s in
      krelease (ProcLock p) s))"

section \<open>Memory size\<close>

definition growproc :: "int \<Rightarrow> kstate \<Rightarrow> int kres" where
  "growproc n s =
    bnd (myproc s) (\<lambda>p s.
    let sz = p_sz (procs s p); pt = p_pagetable (procs s p) in
    if n > 0
    then bnd (uvmalloc pt sz (sz + word_of_int n) PTE_W s) (\<lambda>sz s.
      if sz = 0 then Done (-1) s else Done 0 (upd_proc p (\<lambda>q. q\<lparr>p_sz := sz\<rparr>) s))
    else if n < 0
    then bnd (uvmdealloc pt sz (sz + word_of_int n) s) (\<lambda>sz s.
      Done 0 (upd_proc p (\<lambda>q. q\<lparr>p_sz := sz\<rparr>) s))
    else Done 0 (upd_proc p (\<lambda>q. q\<lparr>p_sz := sz\<rparr>) s))"

section \<open>fork, exit, wait\<close>

definition copy_name :: "byte list \<Rightarrow> byte list \<Rightarrow> byte list" where
  "copy_name d nm = rd (safestrcpy (two_arrays d nm) 0 4096 16) 0 16"

definition kfork :: "kstate \<Rightarrow> int kres" where
  "kfork s =
    bnd (myproc s) (\<lambda>p s.
    bnd (allocproc s) (\<lambda>np s.
    case np of
      None \<Rightarrow> Done (-1) s
    | Some np \<Rightarrow>
      bnd (uvmcopy (p_pagetable (procs s p)) (p_pagetable (procs s np)) (p_sz (procs s p)) s) (\<lambda>r s.
      if r < 0
      then bnd (freeproc np s) (\<lambda>_ s. bnd (krelease (ProcLock np) s) (\<lambda>_ s. Done (-1) s))
      else let s = upd_proc np (\<lambda>q. q\<lparr>p_sz := p_sz (procs s p)\<rparr>) s;
               s = s\<lparr>mem := wr (mem s) (unat (p_trapframe (procs s np)))
                     (rd (mem s) (unat (p_trapframe (procs s p))) TRAPFRAME_SIZE)\<rparr>;
               s = set_tf np TF_a0 0 s in
        bnd (foreach (\<lambda>i s.
          case p_ofile (procs s p) ! i of
            None \<Rightarrow> Done () s
          | Some f \<Rightarrow> bnd (filedup f s) (\<lambda>f s.
              Done () (upd_proc np (\<lambda>q. q\<lparr>p_ofile := (p_ofile q)[i := Some f]\<rparr>) s))) [0..<NOFILE] s) (\<lambda>_ s.
        case p_cwd (procs s p) of
          None \<Rightarrow> Stop (Fault ''cwd'') s
        | Some cwd \<Rightarrow>
          bnd (idup cwd s) (\<lambda>cwd s.
          let s = upd_proc np (\<lambda>q. q\<lparr>p_cwd := Some cwd\<rparr>) s;
              s = upd_proc np (\<lambda>q. q\<lparr>p_name := copy_name (p_name q) (p_name (procs s p))\<rparr>) s;
              pid = p_pid (procs s np) in
          bnd (krelease (ProcLock np) s) (\<lambda>_ s.
          bnd (kacquire WaitLock s) (\<lambda>_ s.
          bnd (krelease WaitLock (upd_proc np (\<lambda>q. q\<lparr>p_parent := Some p\<rparr>) s)) (\<lambda>_ s.
          bnd (kacquire (ProcLock np) s) (\<lambda>_ s.
          bnd (krelease (ProcLock np) (upd_proc np (\<lambda>q. q\<lparr>p_state := RUNNABLE\<rparr>) s)) (\<lambda>_ s.
          Done pid s))))))))))"

definition proc_chan :: "nat option \<Rightarrow> chan" where
  "proc_chan p = (case p of None \<Rightarrow> ChNull | Some q \<Rightarrow> ChProc q)"

definition reparent :: "nat \<Rightarrow> kstate \<Rightarrow> unit kres" where
  "reparent p s = foreach (\<lambda>pp s.
     if p_parent (procs s pp) = Some p
     then wakeup (proc_chan (initproc s)) (upd_proc pp (\<lambda>q. q\<lparr>p_parent := initproc s\<rparr>) s)
     else Done () s) [0..<NPROC] s"

definition kexit :: "int \<Rightarrow> kstate \<Rightarrow> 'a kres" where
  "kexit status s =
    bnd (myproc s) (\<lambda>p s.
    if initproc s = Some p then panic ''init exiting'' s
    else bnd (foreach (\<lambda>fd s.
        case p_ofile (procs s p) ! fd of
          None \<Rightarrow> Done () s
        | Some f \<Rightarrow> bnd (fileclose f s) (\<lambda>_ s.
            Done () (upd_proc p (\<lambda>q. q\<lparr>p_ofile := (p_ofile q)[fd := None]\<rparr>) s))) [0..<NOFILE] s) (\<lambda>_ s.
      bnd (begin_op s) (\<lambda>_ s.
      case p_cwd (procs s p) of
        None \<Rightarrow> Stop (Fault ''cwd'') s
      | Some cwd \<Rightarrow>
        bnd (iput cwd s) (\<lambda>_ s.
        bnd (end_op s) (\<lambda>_ s.
        let s = upd_proc p (\<lambda>q. q\<lparr>p_cwd := None\<rparr>) s in
        bnd (kacquire WaitLock s) (\<lambda>_ s.
        bnd (reparent p s) (\<lambda>_ s.
        bnd (wakeup (proc_chan (p_parent (procs s p))) s) (\<lambda>_ s.
        bnd (kacquire (ProcLock p) s) (\<lambda>_ s.
        let s = upd_proc p (\<lambda>q. q\<lparr>p_xstate := status, p_state := ZOMBIE\<rparr>) s in
        bnd (krelease WaitLock s) (\<lambda>_ s. sched s))))))))))"

text \<open>
  One pass of \<open>kwait\<close> over the table: the result of the call if a zombie child was found, otherwise whether
  there are children.
\<close>

fun kwait_scan :: "nat \<Rightarrow> uint64 \<Rightarrow> nat list \<Rightarrow> bool \<Rightarrow> kstate \<Rightarrow> (int + bool) kres" where
  "kwait_scan p addr [] havekids s = Done (Inr havekids) s"
| "kwait_scan p addr (pp # pps) havekids s =
    (if p_parent (procs s pp) = Some p
     then bnd (kacquire (ProcLock pp) s) (\<lambda>_ s.
       if p_state (procs s pp) = ZOMBIE
       then let pid = p_pid (procs s pp) in
         bnd (if addr \<noteq> 0
              then copyout (p_pagetable (procs s p)) addr
                (bytes_of 4 (word_of_int (p_xstate (procs s pp)) :: uint)) s
              else Done 0 s) (\<lambda>r s.
         if r < 0
         then bnd (krelease (ProcLock pp) s) (\<lambda>_ s. bnd (krelease WaitLock s) (\<lambda>_ s. Done (Inl (-1)) s))
         else bnd (freeproc pp s) (\<lambda>_ s.
           bnd (krelease (ProcLock pp) s) (\<lambda>_ s. bnd (krelease WaitLock s) (\<lambda>_ s. Done (Inl pid) s))))
       else bnd (krelease (ProcLock pp) s) (\<lambda>_ s. kwait_scan p addr pps True s))
     else kwait_scan p addr pps havekids s)"

definition kwait_loop :: "nat \<Rightarrow> uint64 \<Rightarrow> kstate \<Rightarrow> int kres" where
  "kwait_loop p addr s =
    bnd (kwait_scan p addr [0..<NPROC] False s) (\<lambda>r s.
    case r of
      Inl res \<Rightarrow> Done res s
    | Inr havekids \<Rightarrow>
      bnd (if \<not> havekids then Done True s else killed p s) (\<lambda>give_up s.
      if give_up then bnd (krelease WaitLock s) (\<lambda>_ s. Done (-1) s)
      else sleep (ChProc p) WaitLock s))"

definition kwait :: "uint64 \<Rightarrow> kstate \<Rightarrow> int kres" where
  "kwait addr s =
    bnd (myproc s) (\<lambda>p s. bnd (kacquire WaitLock s) (\<lambda>_ s. kwait_loop p addr s))"

definition kwait_resume :: "nat \<Rightarrow> uint64 \<Rightarrow> kstate \<Rightarrow> int kres" where
  "kwait_resume p addr s = bnd (sleep_resume WaitLock s) (\<lambda>_ s. kwait_loop p addr s)"

end
