(* ===== verification/Exec.thy ===== *)
theory Exec
  imports Proc
begin

text \<open>
  Program loading (\<open>kernel/exec.c\<close>, \<open>kernel/elf.h\<close>).  The ELF headers are read at byte offsets of the
  structures; the argument vector is the list of its strings.  Every \<open>goto bad\<close> is a call of
  \<open>kexec_bad\<close> with the page table, the size and the inode held at that point.
\<close>

definition ELF_MAGIC :: uint where "ELF_MAGIC = 0x464C457F"
definition ELF_PROG_LOAD :: uint where "ELF_PROG_LOAD = 1"

record elfhdr =
  eh_magic :: uint
  eh_entry :: uint64
  eh_phoff :: uint64
  eh_phnum :: ushort

record proghdr =
  ph_type :: uint
  ph_flags :: uint
  ph_off :: uint64
  ph_vaddr :: uint64
  ph_filesz :: uint64
  ph_memsz :: uint64

definition ELFHDR_SIZE :: nat where "ELFHDR_SIZE = 64"
definition PROGHDR_SIZE :: nat where "PROGHDR_SIZE = 56"

definition elfhdr_of :: "byte list \<Rightarrow> elfhdr" where
  "elfhdr_of b = \<lparr>eh_magic = get32 b 0, eh_entry = get64 b 24, eh_phoff = get64 b 32, eh_phnum = get16 b 56\<rparr>"

definition proghdr_of :: "byte list \<Rightarrow> proghdr" where
  "proghdr_of b = \<lparr>ph_type = get32 b 0, ph_flags = get32 b 4, ph_off = get64 b 8, ph_vaddr = get64 b 16,
     ph_filesz = get64 b 32, ph_memsz = get64 b 40\<rparr>"

definition flags2perm :: "uint \<Rightarrow> uint64" where
  "flags2perm flags = (if flags AND 1 \<noteq> 0 then PTE_X else 0) OR (if flags AND 2 \<noteq> 0 then PTE_W else 0)"

text \<open>
  The offset \<open>i\<close> of \<open>loadseg\<close> is a 32-bit integer; a segment within one page of 4 GiB would make it wrap
  to 0 and the loop start over, which is divergence here.
\<close>

function loadseg_loop :: "uint64 \<Rightarrow> uint64 \<Rightarrow> nat \<Rightarrow> uint \<Rightarrow> uint \<Rightarrow> nat \<Rightarrow> kstate \<Rightarrow> int kres" where
  "loadseg_loop pagetable va ip offset sz i s =
    (if i < unat sz
     then bnd (walkaddr pagetable (va + of_nat i) s) (\<lambda>pa s.
       if pa = 0 then panic ''loadseg: address should exist'' s
       else let n = (if unat sz - i < 4096 then unat sz - i else 4096) in
         bnd (readi ip (ToKern pa) (offset + of_nat i) (of_nat n) s) (\<lambda>(r, _) s.
         if r \<noteq> int n then Done (-1) s
         else if i + 4096 \<ge> 2 ^ 32 then Stop Diverge s
         else loadseg_loop pagetable va ip offset sz (i + 4096) s))
     else Done 0 s)"
  by pat_completeness auto
termination
  by (relation "measure (\<lambda>(_, _, _, _, sz, i, _). unat sz - i)") auto

declare loadseg_loop.simps [simp del]

definition loadseg :: "uint64 \<Rightarrow> uint64 \<Rightarrow> nat \<Rightarrow> uint \<Rightarrow> uint \<Rightarrow> kstate \<Rightarrow> int kres" where
  "loadseg pagetable va ip offset sz s = loadseg_loop pagetable va ip offset sz 0 s"

definition kexec_bad :: "uint64 \<Rightarrow> uint64 \<Rightarrow> nat option \<Rightarrow> kstate \<Rightarrow> int kres" where
  "kexec_bad pagetable sz ip s =
    bnd (if pagetable \<noteq> 0 then proc_freepagetable pagetable sz s else Done () s) (\<lambda>_ s.
    bnd (case ip of None \<Rightarrow> Done () s
         | Some ip \<Rightarrow> bnd (iunlockput ip s) (\<lambda>_ s. end_op s)) (\<lambda>_ s.
    Done (-1) s))"

text \<open>The program headers: \<open>(False, sz)\<close> is the jump to \<open>bad\<close>, \<open>(True, sz)\<close> all segments loaded.\<close>

fun load_segments :: "uint64 \<Rightarrow> nat \<Rightarrow> nat \<Rightarrow> uint \<Rightarrow> uint64 \<Rightarrow> kstate \<Rightarrow> (bool \<times> uint64) kres" where
  "load_segments pagetable ip 0 off sz s = Done (True, sz) s"
| "load_segments pagetable ip (Suc k) off sz s =
    bnd (readi ip ToLocal off (of_nat PROGHDR_SIZE) s) (\<lambda>(r, b) s.
    let ph = proghdr_of b; off' = off + of_nat PROGHDR_SIZE in
    if r \<noteq> int PROGHDR_SIZE then Done (False, sz) s
    else if ph_type ph \<noteq> ELF_PROG_LOAD then load_segments pagetable ip k off' sz s
    else if ph_memsz ph < ph_filesz ph then Done (False, sz) s
    else if ph_vaddr ph + ph_memsz ph < ph_vaddr ph then Done (False, sz) s
    else if ph_vaddr ph mod PGSIZE \<noteq> 0 then Done (False, sz) s
    else bnd (uvmalloc pagetable sz (ph_vaddr ph + ph_memsz ph) (flags2perm (ph_flags ph)) s) (\<lambda>sz1 s.
      if sz1 = 0 then Done (False, sz) s
      else bnd (loadseg pagetable (ph_vaddr ph) ip (ucast (ph_off ph)) (ucast (ph_filesz ph)) s) (\<lambda>r s.
        if r < 0 then Done (False, sz1) s else load_segments pagetable ip k off' sz1 s)))"

text \<open>
  The argument strings, pushed one after the other: the stack pointer and the addresses, or \<open>None\<close> for
  the jump to \<open>bad\<close>.
\<close>

fun push_args :: "uint64 \<Rightarrow> uint64 \<Rightarrow> byte list list \<Rightarrow> uint64 list \<Rightarrow> uint64 \<Rightarrow> kstate
    \<Rightarrow> (uint64 \<times> uint64 list) option kres" where
  "push_args pagetable stackbase [] ustack sp s = Done (Some (sp, ustack)) s"
| "push_args pagetable stackbase (arg # args) ustack sp s =
    (if length ustack \<ge> MAXARG then Done None s
     else let sp = sp - of_nat (length arg + 1);
              sp = sp - sp mod 16 in
       if sp < stackbase then Done None s
       else bnd (copyout pagetable sp (arg @ [0]) s) (\<lambda>r s.
         if r < 0 then Done None s
         else push_args pagetable stackbase args (ustack @ [sp]) sp s))"

definition last_elem :: "byte list \<Rightarrow> byte list" where
  "last_elem path = rev (takeWhile (\<lambda>c. c \<noteq> slash) (rev path))"

definition ustack_pages :: uint64 where "ustack_pages = of_nat (USERSTACK + 1) * PGSIZE"

text \<open>The second half of \<open>kexec\<close>, after the file has been closed.\<close>

definition kexec_stack :: "byte list \<Rightarrow> byte list list \<Rightarrow> elfhdr \<Rightarrow> uint64 \<Rightarrow> uint64 \<Rightarrow> kstate \<Rightarrow> int kres" where
  "kexec_stack path argv elf pagetable sz s =
    bnd (myproc s) (\<lambda>p s.
    let oldsz = p_sz (procs s p); sz = PGROUNDUP sz in
    bnd (uvmalloc pagetable sz (sz + ustack_pages) PTE_W s) (\<lambda>sz1 s.
    if sz1 = 0 then kexec_bad pagetable sz None s
    else let sz = sz1 in
      bnd (uvmclear pagetable (sz - ustack_pages) s) (\<lambda>_ s.
      let sp = sz; stackbase = sp - of_nat USERSTACK * PGSIZE in
      bnd (push_args pagetable stackbase argv [] sp s) (\<lambda>pushed s.
      case pushed of
        None \<Rightarrow> kexec_bad pagetable sz None s
      | Some (sp, ustack) \<Rightarrow>
        let argc = length ustack;
            sp = sp - of_nat ((argc + 1) * 8);
            sp = sp - sp mod 16 in
        if sp < stackbase then kexec_bad pagetable sz None s
        else bnd (copyout pagetable sp (concat (map (bytes_of 8) (ustack @ [0]))) s) (\<lambda>r s.
          if r < 0 then kexec_bad pagetable sz None s
          else let s = set_tf p TF_a1 sp s;
                   s = upd_proc p (\<lambda>q. q\<lparr>p_name := copy_name (p_name q) (last_elem path)\<rparr>) s;
                   oldpagetable = p_pagetable (procs s p);
                   s = upd_proc p (\<lambda>q. q\<lparr>p_pagetable := pagetable, p_sz := sz\<rparr>) s;
                   s = set_tf p TF_epc (eh_entry elf) s;
                   s = set_tf p TF_sp sp s in
            bnd (proc_freepagetable oldpagetable oldsz s) (\<lambda>_ s. Done (int argc) s))))))"

definition kexec :: "byte list \<Rightarrow> byte list list \<Rightarrow> kstate \<Rightarrow> int kres" where
  "kexec path argv s =
    bnd (myproc s) (\<lambda>p s.
    bnd (begin_op s) (\<lambda>_ s.
    bnd (namei path s) (\<lambda>ip s.
    case ip of
      None \<Rightarrow> bnd (end_op s) (\<lambda>_ s. Done (-1) s)
    | Some ip \<Rightarrow>
      bnd (ilock ip s) (\<lambda>_ s.
      bnd (readi ip ToLocal 0 (of_nat ELFHDR_SIZE) s) (\<lambda>(r, b) s.
      let elf = elfhdr_of b in
      if r \<noteq> int ELFHDR_SIZE then kexec_bad 0 0 (Some ip) s
      else if eh_magic elf \<noteq> ELF_MAGIC then kexec_bad 0 0 (Some ip) s
      else bnd (proc_pagetable p s) (\<lambda>pagetable s.
        if pagetable = 0 then kexec_bad 0 0 (Some ip) s
        else bnd (load_segments pagetable ip (unat (eh_phnum elf)) (ucast (eh_phoff elf)) 0 s) (\<lambda>(ok, sz) s.
          if \<not> ok then kexec_bad pagetable sz (Some ip) s
          else bnd (iunlockput ip s) (\<lambda>_ s.
            bnd (end_op s) (\<lambda>_ s. kexec_stack path argv elf pagetable sz s)))))))))"

end
