(* ===== verification/Args.thy ===== *)
theory Args
  imports Exec
begin

text \<open>
  System call arguments (\<open>kernel/syscall.c\<close>): the registers saved in the trap frame, and values and strings
  fetched from user memory.  A fetched string is returned with the status the C function returns.
\<close>

definition fetchaddr :: "uint64 \<Rightarrow> kstate \<Rightarrow> (int \<times> uint64) kres" where
  "fetchaddr addr s =
    bnd (myproc s) (\<lambda>p s.
    if addr \<ge> p_sz (procs s p) \<or> addr + 8 > p_sz (procs s p) then Done (-1, 0) s
    else bnd (copyin (p_pagetable (procs s p)) addr 8 [] s) (\<lambda>(r, b) s.
      if r \<noteq> 0 then Done (-1, 0) s else Done (0, of_bytes b) s))"

definition fetchstr :: "uint64 \<Rightarrow> nat \<Rightarrow> kstate \<Rightarrow> (int \<times> byte list) kres" where
  "fetchstr addr max_len s =
    bnd (myproc s) (\<lambda>p s.
    bnd (copyinstr (p_pagetable (procs s p)) addr max_len [] s) (\<lambda>(r, b) s.
    if r < 0 then Done (-1, b) s else Done (int (length (cstr b)), cstr b) s))"

definition argraw :: "nat \<Rightarrow> kstate \<Rightarrow> uint64 kres" where
  "argraw n s =
    bnd (myproc s) (\<lambda>p s.
    if n = 0 then Done (get_tf p TF_a0 s) s
    else if n = 1 then Done (get_tf p TF_a1 s) s
    else if n = 2 then Done (get_tf p TF_a2 s) s
    else if n = 3 then Done (get_tf p TF_a3 s) s
    else if n = 4 then Done (get_tf p TF_a4 s) s
    else if n = 5 then Done (get_tf p TF_a5 s) s
    else panic ''argraw'' s)"

definition argint :: "nat \<Rightarrow> kstate \<Rightarrow> int kres" where
  "argint n s = bnd (argraw n s) (\<lambda>w s. Done (sint (ucast w :: uint)) s)"

definition argaddr :: "nat \<Rightarrow> kstate \<Rightarrow> uint64 kres" where
  "argaddr n s = argraw n s"

definition argstr :: "nat \<Rightarrow> nat \<Rightarrow> kstate \<Rightarrow> (int \<times> byte list) kres" where
  "argstr n max_len s = bnd (argaddr n s) (\<lambda>addr s. fetchstr addr max_len s)"

text \<open>The value a handler of type \<open>int\<close> puts into a 64-bit register.\<close>

definition ret_int :: "int \<Rightarrow> uint64" where "ret_int r = word_of_int r"

end
