(* ===== verification/Sysproc.thy ===== *)
theory Sysproc
  imports Args
begin

text \<open>
  System calls on processes (\<open>kernel/sysproc.c\<close>).
\<close>

definition SBRK_EAGER :: int where "SBRK_EAGER = 1"
definition SBRK_LAZY :: int where "SBRK_LAZY = 2"

definition sys_exit :: "kstate \<Rightarrow> uint64 kres" where
  "sys_exit s = bnd (argint 0 s) (\<lambda>n s. kexit n s)"

definition sys_getpid :: "kstate \<Rightarrow> uint64 kres" where
  "sys_getpid s = bnd (myproc s) (\<lambda>p s. Done (ret_int (p_pid (procs s p))) s)"

definition sys_fork :: "kstate \<Rightarrow> uint64 kres" where
  "sys_fork s = bnd (kfork s) (\<lambda>r s. Done (ret_int r) s)"

definition sys_wait :: "kstate \<Rightarrow> uint64 kres" where
  "sys_wait s = bnd (argaddr 0 s) (\<lambda>p s. bnd (kwait p s) (\<lambda>r s. Done (ret_int r) s))"

definition sys_sbrk :: "kstate \<Rightarrow> uint64 kres" where
  "sys_sbrk s =
    bnd (argint 0 s) (\<lambda>n s.
    bnd (argint 1 s) (\<lambda>t s.
    bnd (myproc s) (\<lambda>p s.
    let addr = p_sz (procs s p) in
    if t = SBRK_EAGER \<or> n < 0
    then bnd (growproc n s) (\<lambda>r s. if r < 0 then Done (ret_int (-1)) s else Done addr s)
    else if addr + word_of_int n < addr then Done (ret_int (-1)) s
    else Done addr (upd_proc p (\<lambda>q. q\<lparr>p_sz := p_sz q + word_of_int n\<rparr>) s))))"

text \<open>The loop of \<open>sys_pause\<close>, entered with the ticks lock held.\<close>

definition pause_loop :: "uint \<Rightarrow> int \<Rightarrow> kstate \<Rightarrow> uint64 kres" where
  "pause_loop ticks0 n s =
    (if ticks s - ticks0 < word_of_int n
     then bnd (myproc s) (\<lambda>p s.
       bnd (killed p s) (\<lambda>k s.
       if k then bnd (krelease TicksLock s) (\<lambda>_ s. Done (ret_int (-1)) s)
       else sleep ChTicks TicksLock s))
     else bnd (krelease TicksLock s) (\<lambda>_ s. Done 0 s))"

definition sys_pause :: "kstate \<Rightarrow> uint64 kres" where
  "sys_pause s =
    bnd (argint 0 s) (\<lambda>n s.
    let n = (if n < 0 then 0 else n) in
    bnd (kacquire TicksLock s) (\<lambda>_ s. pause_loop (ticks s) n s))"

definition sys_pause_resume :: "uint \<Rightarrow> int \<Rightarrow> kstate \<Rightarrow> uint64 kres" where
  "sys_pause_resume ticks0 n s = bnd (sleep_resume TicksLock s) (\<lambda>_ s. pause_loop ticks0 n s)"

definition sys_kill :: "kstate \<Rightarrow> uint64 kres" where
  "sys_kill s = bnd (argint 0 s) (\<lambda>pid s. bnd (kkill pid s) (\<lambda>r s. Done (ret_int r) s))"

definition sys_uptime :: "kstate \<Rightarrow> uint64 kres" where
  "sys_uptime s =
    bnd (kacquire TicksLock s) (\<lambda>_ s.
    let xticks = ticks s in
    bnd (krelease TicksLock s) (\<lambda>_ s. Done (ucast xticks) s))"

end
