(* ===== verification/Sysfile.thy ===== *)
theory Sysfile
  imports Args
begin

text \<open>
  System calls on files (\<open>kernel/sysfile.c\<close>).  A descriptor argument yields the descriptor and the file;
  every failing test returns -1 after undoing what the C code undoes.
\<close>

definition O_RDONLY :: uint where "O_RDONLY = 0x000"
definition O_WRONLY :: uint where "O_WRONLY = 0x001"
definition O_RDWR :: uint where "O_RDWR = 0x002"
definition O_CREATE :: uint where "O_CREATE = 0x200"
definition O_TRUNC :: uint where "O_TRUNC = 0x400"

abbreviation fail :: "kstate \<Rightarrow> uint64 kres" where "fail s \<equiv> Done (ret_int (-1)) s"

definition end_fail :: "kstate \<Rightarrow> uint64 kres" where
  "end_fail s = bnd (end_op s) (\<lambda>_ s. fail s)"

section \<open>Descriptors\<close>

definition argfd :: "nat \<Rightarrow> kstate \<Rightarrow> (nat \<times> nat) option kres" where
  "argfd n s =
    bnd (argint n s) (\<lambda>fd s.
    bnd (myproc s) (\<lambda>p s.
    if fd < 0 \<or> fd \<ge> int NOFILE then Done None s
    else case p_ofile (procs s p) ! nat fd of None \<Rightarrow> Done None s | Some f \<Rightarrow> Done (Some (nat fd, f)) s))"

definition set_ofile :: "nat \<Rightarrow> nat \<Rightarrow> nat option \<Rightarrow> kstate \<Rightarrow> kstate" where
  "set_ofile p fd f s = upd_proc p (\<lambda>q. q\<lparr>p_ofile := (p_ofile q)[fd := f]\<rparr>) s"

definition fdalloc :: "nat \<Rightarrow> kstate \<Rightarrow> nat option kres" where
  "fdalloc f s =
    bnd (myproc s) (\<lambda>p s.
    case find (\<lambda>fd. p_ofile (procs s p) ! fd = None) [0..<NOFILE] of
      None \<Rightarrow> Done None s
    | Some fd \<Rightarrow> Done (Some fd) (set_ofile p fd (Some f) s))"

definition sys_dup :: "kstate \<Rightarrow> uint64 kres" where
  "sys_dup s =
    bnd (argfd 0 s) (\<lambda>a s.
    case a of None \<Rightarrow> fail s
    | Some (_, f) \<Rightarrow>
      bnd (fdalloc f s) (\<lambda>fd s.
      case fd of None \<Rightarrow> fail s
      | Some fd \<Rightarrow> bnd (filedup f s) (\<lambda>_ s. Done (of_nat fd) s)))"

definition sys_read :: "kstate \<Rightarrow> uint64 kres" where
  "sys_read s =
    bnd (argaddr 1 s) (\<lambda>p s.
    bnd (argint 2 s) (\<lambda>n s.
    bnd (argfd 0 s) (\<lambda>a s.
    case a of None \<Rightarrow> fail s | Some (_, f) \<Rightarrow> bnd (fileread f p n s) (\<lambda>r s. Done (ret_int r) s))))"

definition sys_write :: "kstate \<Rightarrow> uint64 kres" where
  "sys_write s =
    bnd (argaddr 1 s) (\<lambda>p s.
    bnd (argint 2 s) (\<lambda>n s.
    bnd (argfd 0 s) (\<lambda>a s.
    case a of None \<Rightarrow> fail s | Some (_, f) \<Rightarrow> bnd (filewrite f p n s) (\<lambda>r s. Done (ret_int r) s))))"

definition sys_close :: "kstate \<Rightarrow> uint64 kres" where
  "sys_close s =
    bnd (argfd 0 s) (\<lambda>a s.
    case a of None \<Rightarrow> fail s
    | Some (fd, f) \<Rightarrow>
      bnd (myproc s) (\<lambda>p s.
      bnd (fileclose f (set_ofile p fd None s)) (\<lambda>_ s. Done 0 s)))"

definition sys_fstat :: "kstate \<Rightarrow> uint64 kres" where
  "sys_fstat s =
    bnd (argaddr 1 s) (\<lambda>st s.
    bnd (argfd 0 s) (\<lambda>a s.
    case a of None \<Rightarrow> fail s | Some (_, f) \<Rightarrow> bnd (filestat f st s) (\<lambda>r s. Done (ret_int r) s)))"

section \<open>Links\<close>

definition add_nlink :: "nat \<Rightarrow> ushort \<Rightarrow> kstate \<Rightarrow> kstate" where
  "add_nlink ip d s = upd_inode ip (\<lambda>r. r\<lparr>i_nlink := i_nlink r + d\<rparr>) s"

definition link_bad :: "nat \<Rightarrow> kstate \<Rightarrow> uint64 kres" where
  "link_bad ip s =
    bnd (ilock ip s) (\<lambda>_ s.
    bnd (iupdate ip (add_nlink ip (-1) s)) (\<lambda>_ s.
    bnd (iunlockput ip s) (\<lambda>_ s. end_fail s)))"

definition sys_link :: "kstate \<Rightarrow> uint64 kres" where
  "sys_link s =
    bnd (argstr 0 MAXPATH s) (\<lambda>(r0, old) s.
    if r0 < 0 then fail s
    else bnd (argstr 1 MAXPATH s) (\<lambda>(r1, new) s.
    if r1 < 0 then fail s
    else bnd (begin_op s) (\<lambda>_ s.
    bnd (namei old s) (\<lambda>ip s.
    case ip of None \<Rightarrow> end_fail s
    | Some ip \<Rightarrow>
      bnd (ilock ip s) (\<lambda>_ s.
      if i_type (itable s ip) = T_DIR then bnd (iunlockput ip s) (\<lambda>_ s. end_fail s)
      else bnd (iupdate ip (add_nlink ip 1 s)) (\<lambda>_ s.
        bnd (iunlock ip s) (\<lambda>_ s.
        bnd (nameiparent new s) (\<lambda>(dp, name) s.
        case dp of None \<Rightarrow> link_bad ip s
        | Some dp \<Rightarrow>
          bnd (ilock dp s) (\<lambda>_ s.
          bnd (if i_dev (itable s dp) \<noteq> i_dev (itable s ip) then Done (-1) s
               else dirlink dp name (i_inum (itable s ip)) s) (\<lambda>r s.
          if r < 0 then bnd (iunlockput dp s) (\<lambda>_ s. link_bad ip s)
          else bnd (iunlockput dp s) (\<lambda>_ s.
            bnd (iput ip s) (\<lambda>_ s.
            bnd (end_op s) (\<lambda>_ s. Done 0 s)))))))))))))"

fun isdirempty_loop :: "nat \<Rightarrow> nat list \<Rightarrow> kstate \<Rightarrow> bool kres" where
  "isdirempty_loop dp [] s = Done True s"
| "isdirempty_loop dp (off # offs) s =
    bnd (readi dp ToLocal (of_nat off) (of_nat DIRENT_SIZE) s) (\<lambda>(r, de) s.
    if r \<noteq> int DIRENT_SIZE then panic ''isdirempty: readi'' s
    else if de_inum de \<noteq> 0 then Done False s
    else isdirempty_loop dp offs s)"

definition isdirempty :: "nat \<Rightarrow> kstate \<Rightarrow> bool kres" where
  "isdirempty dp s = isdirempty_loop dp (drop 2 (dirent_offs (i_size (itable s dp)))) s"

definition unlink_bad :: "nat \<Rightarrow> kstate \<Rightarrow> uint64 kres" where
  "unlink_bad dp s = bnd (iunlockput dp s) (\<lambda>_ s. end_fail s)"

definition unlink_entry :: "nat \<Rightarrow> nat \<Rightarrow> nat \<Rightarrow> kstate \<Rightarrow> uint64 kres" where
  "unlink_entry dp ip off s =
    bnd (writei dp (FromLocal (replicate DIRENT_SIZE 0)) (of_nat off) (of_nat DIRENT_SIZE) s) (\<lambda>r s.
    if r \<noteq> int DIRENT_SIZE then panic ''unlink: writei'' s
    else bnd (if i_type (itable s ip) = T_DIR then iupdate dp (add_nlink dp (-1) s) else Done () s) (\<lambda>_ s.
      bnd (iunlockput dp s) (\<lambda>_ s.
      bnd (iupdate ip (add_nlink ip (-1) s)) (\<lambda>_ s.
      bnd (iunlockput ip s) (\<lambda>_ s.
      bnd (end_op s) (\<lambda>_ s. Done 0 s))))))"

definition sys_unlink :: "kstate \<Rightarrow> uint64 kres" where
  "sys_unlink s =
    bnd (argstr 0 MAXPATH s) (\<lambda>(r, path) s.
    if r < 0 then fail s
    else bnd (begin_op s) (\<lambda>_ s.
    bnd (nameiparent path s) (\<lambda>(dp, name) s.
    case dp of None \<Rightarrow> end_fail s
    | Some dp \<Rightarrow>
      bnd (ilock dp s) (\<lambda>_ s.
      if namecmp name (txt_of ''.'') = 0 \<or> namecmp name (txt_of ''..'') = 0 then unlink_bad dp s
      else bnd (dirlookup dp name s) (\<lambda>found s.
        case found of None \<Rightarrow> unlink_bad dp s
        | Some (ip, off) \<Rightarrow>
          bnd (ilock ip s) (\<lambda>_ s.
          if sint (i_nlink (itable s ip)) < 1 then panic ''unlink: nlink < 1'' s
          else bnd (if i_type (itable s ip) = T_DIR then isdirempty ip s else Done True s) (\<lambda>ok s.
            if \<not> ok then bnd (iunlockput ip s) (\<lambda>_ s. unlink_bad dp s)
            else unlink_entry dp ip off s)))))))"

section \<open>Creating and opening\<close>

definition create_fail :: "nat \<Rightarrow> nat \<Rightarrow> kstate \<Rightarrow> nat option kres" where
  "create_fail ip dp s =
    bnd (iupdate ip (upd_inode ip (\<lambda>r. r\<lparr>i_nlink := 0\<rparr>) s)) (\<lambda>_ s.
    bnd (iunlockput ip s) (\<lambda>_ s.
    bnd (iunlockput dp s) (\<lambda>_ s. Done None s)))"

definition create_new :: "nat \<Rightarrow> byte list \<Rightarrow> ushort \<Rightarrow> ushort \<Rightarrow> ushort \<Rightarrow> kstate \<Rightarrow> nat option kres" where
  "create_new dp name type major minor s =
    bnd (ialloc (i_dev (itable s dp)) type s) (\<lambda>ip s.
    case ip of None \<Rightarrow> bnd (iunlockput dp s) (\<lambda>_ s. Done None s)
    | Some ip \<Rightarrow>
      bnd (ilock ip s) (\<lambda>_ s.
      bnd (iupdate ip (upd_inode ip (\<lambda>r. r\<lparr>i_major := major, i_minor := minor, i_nlink := 1\<rparr>) s)) (\<lambda>_ s.
      bnd (if type = T_DIR
           then bnd (dirlink ip (txt_of ''.'') (i_inum (itable s ip)) s) (\<lambda>r s.
             if r < 0 then Done (-1) s else dirlink ip (txt_of ''..'') (i_inum (itable s dp)) s)
           else Done 0 s) (\<lambda>r s.
      if r < 0 then create_fail ip dp s
      else bnd (dirlink dp name (i_inum (itable s ip)) s) (\<lambda>r s.
        if r < 0 then create_fail ip dp s
        else bnd (if type = T_DIR then iupdate dp (add_nlink dp 1 s) else Done () s) (\<lambda>_ s.
          bnd (iunlockput dp s) (\<lambda>_ s. Done (Some ip) s)))))))"

definition create :: "byte list \<Rightarrow> ushort \<Rightarrow> ushort \<Rightarrow> ushort \<Rightarrow> kstate \<Rightarrow> nat option kres" where
  "create path type major minor s =
    bnd (nameiparent path s) (\<lambda>(dp, name) s.
    case dp of None \<Rightarrow> Done None s
    | Some dp \<Rightarrow>
      bnd (ilock dp s) (\<lambda>_ s.
      bnd (dirlookup dp name s) (\<lambda>found s.
      case found of
        Some (ip, _) \<Rightarrow>
          bnd (iunlockput dp s) (\<lambda>_ s.
          bnd (ilock ip s) (\<lambda>_ s.
          if type = T_FILE \<and> (i_type (itable s ip) = T_FILE \<or> i_type (itable s ip) = T_DEVICE)
          then Done (Some ip) s
          else bnd (iunlockput ip s) (\<lambda>_ s. Done None s)))
      | None \<Rightarrow> create_new dp name type major minor s)))"

definition put_end_fail :: "nat \<Rightarrow> kstate \<Rightarrow> uint64 kres" where
  "put_end_fail ip s = bnd (iunlockput ip s) (\<lambda>_ s. end_fail s)"

text \<open>The second half of \<open>sys_open\<close>, with the inode locked.\<close>

definition open_inode :: "nat \<Rightarrow> uint \<Rightarrow> kstate \<Rightarrow> uint64 kres" where
  "open_inode ip omode s =
    (if i_type (itable s ip) = T_DEVICE \<and> (sint (i_major (itable s ip)) < 0 \<or> sint (i_major (itable s ip)) \<ge> int NDEV)
     then put_end_fail ip s
     else bnd (filealloc s) (\<lambda>f s.
       case f of None \<Rightarrow> put_end_fail ip s
       | Some f \<Rightarrow>
         bnd (fdalloc f s) (\<lambda>fd s.
         case fd of None \<Rightarrow> bnd (fileclose f s) (\<lambda>_ s. put_end_fail ip s)
         | Some fd \<Rightarrow>
           let s = (if i_type (itable s ip) = T_DEVICE
                    then upd_file f (\<lambda>r. r\<lparr>f_type := FD_DEVICE, f_major := i_major (itable s ip)\<rparr>) s
                    else upd_file f (\<lambda>r. r\<lparr>f_type := FD_INODE, f_off := 0\<rparr>) s);
               s = upd_file f (\<lambda>r. r\<lparr>f_ip := ip, f_readable := (omode AND O_WRONLY = 0),
                     f_writable := (omode AND O_WRONLY \<noteq> 0 \<or> omode AND O_RDWR \<noteq> 0)\<rparr>) s in
           bnd (if omode AND O_TRUNC \<noteq> 0 \<and> i_type (itable s ip) = T_FILE then itrunc ip s else Done () s) (\<lambda>_ s.
           bnd (iunlock ip s) (\<lambda>_ s.
           bnd (end_op s) (\<lambda>_ s. Done (of_nat fd) s))))))"

definition sys_open :: "kstate \<Rightarrow> uint64 kres" where
  "sys_open s =
    bnd (argint 1 s) (\<lambda>m s.
    let omode = word_of_int m in
    bnd (argstr 0 MAXPATH s) (\<lambda>(n, path) s.
    if n < 0 then fail s
    else bnd (begin_op s) (\<lambda>_ s.
    if omode AND O_CREATE \<noteq> 0
    then bnd (create path T_FILE 0 0 s) (\<lambda>ip s.
      case ip of None \<Rightarrow> end_fail s | Some ip \<Rightarrow> open_inode ip omode s)
    else bnd (namei path s) (\<lambda>ip s.
      case ip of None \<Rightarrow> end_fail s
      | Some ip \<Rightarrow>
        bnd (ilock ip s) (\<lambda>_ s.
        if i_type (itable s ip) = T_DIR \<and> omode \<noteq> O_RDONLY then put_end_fail ip s
        else open_inode ip omode s)))))"

definition sys_mkdir :: "kstate \<Rightarrow> uint64 kres" where
  "sys_mkdir s =
    bnd (begin_op s) (\<lambda>_ s.
    bnd (argstr 0 MAXPATH s) (\<lambda>(r, path) s.
    if r < 0 then end_fail s
    else bnd (create path T_DIR 0 0 s) (\<lambda>ip s.
      case ip of None \<Rightarrow> end_fail s
      | Some ip \<Rightarrow> bnd (iunlockput ip s) (\<lambda>_ s. bnd (end_op s) (\<lambda>_ s. Done 0 s)))))"

definition sys_mknod :: "kstate \<Rightarrow> uint64 kres" where
  "sys_mknod s =
    bnd (begin_op s) (\<lambda>_ s.
    bnd (argint 1 s) (\<lambda>major s.
    bnd (argint 2 s) (\<lambda>minor s.
    bnd (argstr 0 MAXPATH s) (\<lambda>(r, path) s.
    if r < 0 then end_fail s
    else bnd (create path T_DEVICE (word_of_int major) (word_of_int minor) s) (\<lambda>ip s.
      case ip of None \<Rightarrow> end_fail s
      | Some ip \<Rightarrow> bnd (iunlockput ip s) (\<lambda>_ s. bnd (end_op s) (\<lambda>_ s. Done 0 s)))))))"

definition sys_chdir :: "kstate \<Rightarrow> uint64 kres" where
  "sys_chdir s =
    bnd (myproc s) (\<lambda>p s.
    bnd (begin_op s) (\<lambda>_ s.
    bnd (argstr 0 MAXPATH s) (\<lambda>(r, path) s.
    if r < 0 then end_fail s
    else bnd (namei path s) (\<lambda>ip s.
      case ip of None \<Rightarrow> end_fail s
      | Some ip \<Rightarrow>
        bnd (ilock ip s) (\<lambda>_ s.
        if i_type (itable s ip) \<noteq> T_DIR then put_end_fail ip s
        else bnd (iunlock ip s) (\<lambda>_ s.
          case p_cwd (procs s p) of None \<Rightarrow> Stop (Fault ''cwd'') s
          | Some cwd \<Rightarrow>
            bnd (iput cwd s) (\<lambda>_ s.
            bnd (end_op s) (\<lambda>_ s.
            Done 0 (upd_proc p (\<lambda>q. q\<lparr>p_cwd := Some ip\<rparr>) s)))))))))"

section \<open>exec and pipe\<close>

text \<open>The argument vector: pages allocated so far with their strings, and whether the vector ended well.\<close>

fun exec_args :: "nat \<Rightarrow> uint64 \<Rightarrow> (uint64 \<times> byte list) list \<Rightarrow> kstate \<Rightarrow> (bool \<times> (uint64 \<times> byte list) list) kres" where
  "exec_args 0 uargv argv s = Done (False, argv) s"
| "exec_args (Suc k) uargv argv s =
    bnd (fetchaddr (uargv + 8 * of_nat (length argv)) s) (\<lambda>(r, uarg) s.
    if r < 0 then Done (False, argv) s
    else if uarg = 0 then Done (True, argv) s
    else bnd (kalloc s) (\<lambda>pg s.
      if pg = 0 then Done (False, argv) s
      else bnd (fetchstr uarg 4096 s) (\<lambda>(r, str) s.
        let s = s\<lparr>mem := wr (mem s) (unat pg) (str @ (if r < 0 then [] else [0]))\<rparr> in
        if r < 0 then Done (False, argv @ [(pg, str)]) s
        else exec_args k uargv (argv @ [(pg, str)]) s)))"

definition sys_exec :: "kstate \<Rightarrow> uint64 kres" where
  "sys_exec s =
    bnd (argaddr 1 s) (\<lambda>uargv s.
    bnd (argstr 0 MAXPATH s) (\<lambda>(r, path) s.
    if r < 0 then fail s
    else bnd (exec_args MAXARG uargv [] s) (\<lambda>(ok, argv) s.
      bnd (if ok then kexec path (map snd argv) s else Done (-1) s) (\<lambda>ret s.
      bnd (foreach (\<lambda>a s. kfree (fst a) s) argv s) (\<lambda>_ s.
      Done (ret_int ret) s)))))"

definition sys_pipe :: "kstate \<Rightarrow> uint64 kres" where
  "sys_pipe s =
    bnd (myproc s) (\<lambda>p s.
    bnd (argaddr 0 s) (\<lambda>fdarray s.
    bnd (pipealloc s) (\<lambda>fs s.
    case fs of None \<Rightarrow> fail s
    | Some (rfile, wfile) \<Rightarrow>
      bnd (fdalloc rfile s) (\<lambda>fd0 s.
      case fd0 of None \<Rightarrow> bnd (fileclose rfile s) (\<lambda>_ s. bnd (fileclose wfile s) (\<lambda>_ s. fail s))
      | Some fd0 \<Rightarrow>
        bnd (fdalloc wfile s) (\<lambda>fd1 s.
        case fd1 of
          None \<Rightarrow> bnd (fileclose rfile (set_ofile p fd0 None s)) (\<lambda>_ s. bnd (fileclose wfile s) (\<lambda>_ s. fail s))
        | Some fd1 \<Rightarrow>
          bnd (copyout (p_pagetable (procs s p)) fdarray (bytes_of 4 (of_nat fd0 :: uint)) s) (\<lambda>r0 s.
          bnd (if r0 < 0 then Done r0 s
               else copyout (p_pagetable (procs s p)) (fdarray + 4) (bytes_of 4 (of_nat fd1 :: uint)) s) (\<lambda>r1 s.
          if r1 < 0
          then let s = set_ofile p fd0 None s; s = set_ofile p fd1 None s in
            bnd (fileclose rfile s) (\<lambda>_ s. bnd (fileclose wfile s) (\<lambda>_ s. fail s))
          else Done 0 s)))))))"

end
