(* ===== verification/Syscall.thy ===== *)
theory Syscall
  imports Sysproc Sysfile
begin

text \<open>
  System call dispatch (\<open>kernel/syscall.c\<close>, \<open>kernel/syscall.h\<close>): the table of handlers and the function that
  stores a handler's result in the caller's trap frame.
\<close>

definition syscalls :: "(kstate \<Rightarrow> uint64 kres) option list" where
  "syscalls = [None, Some sys_fork, Some sys_exit, Some sys_wait, Some sys_pipe, Some sys_read, Some sys_kill,
     Some sys_exec, Some sys_fstat, Some sys_chdir, Some sys_dup, Some sys_getpid, Some sys_sbrk, Some sys_pause,
     Some sys_uptime, Some sys_open, Some sys_write, Some sys_mknod, Some sys_unlink, Some sys_link, Some sys_mkdir,
     Some sys_close]"

definition unknown_call :: "nat \<Rightarrow> int \<Rightarrow> kstate \<Rightarrow> unit kres" where
  "unknown_call p num s =
    bnd (printf (txt_of ''%d %s: unknown sys call %d'' @ [10])
        [VWord (word_of_int (p_pid (procs s p))), VStr (Some (p_name (procs s p))), VWord (word_of_int num)] s) (\<lambda>_ s.
    Done () (set_tf p TF_a0 (ret_int (-1)) s))"

definition syscall :: "kstate \<Rightarrow> unit kres" where
  "syscall s =
    bnd (myproc s) (\<lambda>p s.
    let num = sint (ucast (get_tf p TF_a7 s) :: uint) in
    if num > 0 \<and> num < int (length syscalls)
    then (case syscalls ! nat num of
        Some f \<Rightarrow> bnd (f s) (\<lambda>r s. Done () (set_tf p TF_a0 r s))
      | None \<Rightarrow> unknown_call p num s)
    else unknown_call p num s)"

end
