(* ===== verification/Virtio.thy ===== *)
theory Virtio
  imports Printf
begin

text \<open>
  The disk driver (\<open>kernel/virtio_disk.c\<close>, \<open>kernel/virtio.h\<close>): initialisation, the free descriptors, building
  a request of three descriptors, and the completion interrupt.  \<open>disk_rw\<close> is the code's \<open>virtio_disk_rw\<close>
  up to the point where it waits; \<open>disk_rw_resume\<close> is the rest.
\<close>

section \<open>Constants\<close>

definition VIRTIO_MMIO_MAGIC_VALUE :: uint64 where "VIRTIO_MMIO_MAGIC_VALUE = 0x000"
definition VIRTIO_MMIO_VERSION :: uint64 where "VIRTIO_MMIO_VERSION = 0x004"
definition VIRTIO_MMIO_DEVICE_ID :: uint64 where "VIRTIO_MMIO_DEVICE_ID = 0x008"
definition VIRTIO_MMIO_VENDOR_ID :: uint64 where "VIRTIO_MMIO_VENDOR_ID = 0x00c"
definition VIRTIO_MMIO_DEVICE_FEATURES :: uint64 where "VIRTIO_MMIO_DEVICE_FEATURES = 0x010"
definition VIRTIO_MMIO_DRIVER_FEATURES :: uint64 where "VIRTIO_MMIO_DRIVER_FEATURES = 0x020"
definition VIRTIO_MMIO_QUEUE_SEL :: uint64 where "VIRTIO_MMIO_QUEUE_SEL = 0x030"
definition VIRTIO_MMIO_QUEUE_NUM_MAX :: uint64 where "VIRTIO_MMIO_QUEUE_NUM_MAX = 0x034"
definition VIRTIO_MMIO_QUEUE_NUM :: uint64 where "VIRTIO_MMIO_QUEUE_NUM = 0x038"
definition VIRTIO_MMIO_QUEUE_READY :: uint64 where "VIRTIO_MMIO_QUEUE_READY = 0x044"
definition VIRTIO_MMIO_QUEUE_NOTIFY :: uint64 where "VIRTIO_MMIO_QUEUE_NOTIFY = 0x050"
definition VIRTIO_MMIO_INTERRUPT_STATUS :: uint64 where "VIRTIO_MMIO_INTERRUPT_STATUS = 0x060"
definition VIRTIO_MMIO_INTERRUPT_ACK :: uint64 where "VIRTIO_MMIO_INTERRUPT_ACK = 0x064"
definition VIRTIO_MMIO_STATUS :: uint64 where "VIRTIO_MMIO_STATUS = 0x070"
definition VIRTIO_MMIO_QUEUE_DESC_LOW :: uint64 where "VIRTIO_MMIO_QUEUE_DESC_LOW = 0x080"
definition VIRTIO_MMIO_QUEUE_DESC_HIGH :: uint64 where "VIRTIO_MMIO_QUEUE_DESC_HIGH = 0x084"
definition VIRTIO_MMIO_DRIVER_DESC_LOW :: uint64 where "VIRTIO_MMIO_DRIVER_DESC_LOW = 0x090"
definition VIRTIO_MMIO_DRIVER_DESC_HIGH :: uint64 where "VIRTIO_MMIO_DRIVER_DESC_HIGH = 0x094"
definition VIRTIO_MMIO_DEVICE_DESC_LOW :: uint64 where "VIRTIO_MMIO_DEVICE_DESC_LOW = 0x0a0"
definition VIRTIO_MMIO_DEVICE_DESC_HIGH :: uint64 where "VIRTIO_MMIO_DEVICE_DESC_HIGH = 0x0a4"

definition VIRTIO_CONFIG_S_ACKNOWLEDGE :: uint where "VIRTIO_CONFIG_S_ACKNOWLEDGE = 1"
definition VIRTIO_CONFIG_S_DRIVER :: uint where "VIRTIO_CONFIG_S_DRIVER = 2"
definition VIRTIO_CONFIG_S_DRIVER_OK :: uint where "VIRTIO_CONFIG_S_DRIVER_OK = 4"
definition VIRTIO_CONFIG_S_FEATURES_OK :: uint where "VIRTIO_CONFIG_S_FEATURES_OK = 8"

definition VIRTIO_BLK_F_RO :: nat where "VIRTIO_BLK_F_RO = 5"
definition VIRTIO_BLK_F_SCSI :: nat where "VIRTIO_BLK_F_SCSI = 7"
definition VIRTIO_BLK_F_CONFIG_WCE :: nat where "VIRTIO_BLK_F_CONFIG_WCE = 11"
definition VIRTIO_BLK_F_MQ :: nat where "VIRTIO_BLK_F_MQ = 12"
definition VIRTIO_F_ANY_LAYOUT :: nat where "VIRTIO_F_ANY_LAYOUT = 27"
definition VIRTIO_RING_F_INDIRECT_DESC :: nat where "VIRTIO_RING_F_INDIRECT_DESC = 28"
definition VIRTIO_RING_F_EVENT_IDX :: nat where "VIRTIO_RING_F_EVENT_IDX = 29"

definition NUM :: nat where "NUM = 8"
definition VRING_DESC_F_NEXT :: ushort where "VRING_DESC_F_NEXT = 1"
definition VRING_DESC_F_WRITE :: ushort where "VRING_DESC_F_WRITE = 2"
definition VIRTIO_BLK_T_IN :: uint where "VIRTIO_BLK_T_IN = 0"
definition VIRTIO_BLK_T_OUT :: uint where "VIRTIO_BLK_T_OUT = 1"

section \<open>Registers\<close>

text \<open>The device answers reads from its input stream; the register read does not change the stream.\<close>

definition RdR :: "uint64 \<Rightarrow> kstate \<Rightarrow> uint \<times> kstate" where
  "RdR r s = (case io_read s of (v, s) \<Rightarrow> (ucast v, s))"

definition WrR :: "uint64 \<Rightarrow> uint \<Rightarrow> kstate \<Rightarrow> kstate" where
  "WrR r v s = io_write (VIRTIO0 + r) (ucast v) s"

definition upd_disk :: "(disk \<Rightarrow> disk) \<Rightarrow> kstate \<Rightarrow> kstate" where
  "upd_disk f s = s\<lparr>vdisk := f (vdisk s)\<rparr>"

section \<open>Initialisation\<close>

definition probe :: "kstate \<Rightarrow> bool \<times> kstate" where
  "probe s =
    (case RdR VIRTIO_MMIO_MAGIC_VALUE s of (v, s) \<Rightarrow>
     if v \<noteq> 0x74726976 then (False, s)
     else case RdR VIRTIO_MMIO_VERSION s of (v, s) \<Rightarrow>
     if v \<noteq> 2 then (False, s)
     else case RdR VIRTIO_MMIO_DEVICE_ID s of (v, s) \<Rightarrow>
     if v \<noteq> 2 then (False, s)
     else case RdR VIRTIO_MMIO_VENDOR_ID s of (v, s) \<Rightarrow> (v = 0x554d4551, s))"

definition negotiate :: "uint64 \<Rightarrow> uint64" where
  "negotiate features = fold (\<lambda>b f. f AND NOT (push_bit b 1))
     [VIRTIO_BLK_F_RO, VIRTIO_BLK_F_SCSI, VIRTIO_BLK_F_CONFIG_WCE, VIRTIO_BLK_F_MQ, VIRTIO_F_ANY_LAYOUT,
      VIRTIO_RING_F_EVENT_IDX, VIRTIO_RING_F_INDIRECT_DESC] features"

definition virtio_disk_init :: "kstate \<Rightarrow> unit kres" where
  "virtio_disk_init s =
    (case probe s of (found, s) \<Rightarrow>
     if \<not> found then panic ''could not find virtio disk'' s
     else let s = WrR VIRTIO_MMIO_STATUS 0 s;
              status = VIRTIO_CONFIG_S_ACKNOWLEDGE;
              s = WrR VIRTIO_MMIO_STATUS status s;
              status = status OR VIRTIO_CONFIG_S_DRIVER;
              s = WrR VIRTIO_MMIO_STATUS status s in
     case RdR VIRTIO_MMIO_DEVICE_FEATURES s of (features, s) \<Rightarrow>
     let s = WrR VIRTIO_MMIO_DRIVER_FEATURES (ucast (negotiate (ucast features))) s;
         status = status OR VIRTIO_CONFIG_S_FEATURES_OK;
         s = WrR VIRTIO_MMIO_STATUS status s in
     case RdR VIRTIO_MMIO_STATUS s of (status, s) \<Rightarrow>
     if status AND VIRTIO_CONFIG_S_FEATURES_OK = 0 then panic ''virtio disk FEATURES_OK unset'' s
     else let s = WrR VIRTIO_MMIO_QUEUE_SEL 0 s in
     case RdR VIRTIO_MMIO_QUEUE_READY s of (ready, s) \<Rightarrow>
     if ready \<noteq> 0 then panic ''virtio disk should not be ready'' s
     else case RdR VIRTIO_MMIO_QUEUE_NUM_MAX s of (mx, s) \<Rightarrow>
     if mx = 0 then panic ''virtio disk has no queue 0'' s
     else if unat mx < NUM then panic ''virtio disk max queue too short'' s
     else bnd (kalloc s) (\<lambda>d s. bnd (kalloc s) (\<lambda>a s. bnd (kalloc s) (\<lambda>u s.
       let s = upd_disk (\<lambda>k. k\<lparr>dk_desc_pa := d, dk_avail_pa := a, dk_used_pa := u\<rparr>) s in
       if d = 0 \<or> a = 0 \<or> u = 0 then panic ''virtio disk kalloc'' s
       else let s = s\<lparr>mem := memset (mem s) (unat d) 0 (unat PGSIZE)\<rparr>;
                s = s\<lparr>mem := memset (mem s) (unat a) 0 (unat PGSIZE)\<rparr>;
                s = s\<lparr>mem := memset (mem s) (unat u) 0 (unat PGSIZE)\<rparr>;
                s = upd_disk (\<lambda>k. k\<lparr>dk_desc := replicate NUM \<lparr>vq_addr = DmaNull, vq_len = 0, vq_flags = 0, vq_next = 0\<rparr>,
                      dk_avail := \<lparr>av_idx = 0, av_ring = replicate NUM 0\<rparr>,
                      dk_used := \<lparr>us_idx = 0, us_ring = replicate NUM 0\<rparr>\<rparr>) s;
                s = WrR VIRTIO_MMIO_QUEUE_NUM (of_nat NUM) s;
                s = WrR VIRTIO_MMIO_QUEUE_DESC_LOW (ucast d) s;
                s = WrR VIRTIO_MMIO_QUEUE_DESC_HIGH (ucast (drop_bit 32 d)) s;
                s = WrR VIRTIO_MMIO_DRIVER_DESC_LOW (ucast a) s;
                s = WrR VIRTIO_MMIO_DRIVER_DESC_HIGH (ucast (drop_bit 32 a)) s;
                s = WrR VIRTIO_MMIO_DEVICE_DESC_LOW (ucast u) s;
                s = WrR VIRTIO_MMIO_DEVICE_DESC_HIGH (ucast (drop_bit 32 u)) s;
                s = WrR VIRTIO_MMIO_QUEUE_READY 1 s;
                s = upd_disk (\<lambda>k. k\<lparr>dk_free := replicate NUM True\<rparr>) s;
                s = WrR VIRTIO_MMIO_STATUS (status OR VIRTIO_CONFIG_S_DRIVER_OK) s in
         Done () s))))"

section \<open>Descriptors\<close>

definition alloc_desc :: "disk \<Rightarrow> nat option \<times> disk" where
  "alloc_desc k = (case find (\<lambda>i. dk_free k ! i) [0..<NUM] of
     Some i \<Rightarrow> (Some i, k\<lparr>dk_free := (dk_free k)[i := False]\<rparr>) | None \<Rightarrow> (None, k))"

definition desc0 :: virtq_desc where
  "desc0 = \<lparr>vq_addr = DmaNull, vq_len = 0, vq_flags = 0, vq_next = 0\<rparr>"

definition free_desc :: "nat \<Rightarrow> kstate \<Rightarrow> unit kres" where
  "free_desc i s =
    (if i \<ge> NUM then panic ''free_desc 1'' s
     else if dk_free (vdisk s) ! i then panic ''free_desc 2'' s
     else wakeup ChDiskFree (upd_disk (\<lambda>k. k\<lparr>dk_desc := (dk_desc k)[i := desc0], dk_free := (dk_free k)[i := True]\<rparr>) s))"

text \<open>Freeing a descriptor clears its chain bit and marks it free, so a chain is at most \<open>NUM\<close> long.\<close>

fun free_chain_n :: "nat \<Rightarrow> nat \<Rightarrow> kstate \<Rightarrow> unit kres" where
  "free_chain_n 0 i s = Stop Diverge s"
| "free_chain_n (Suc n) i s =
    (if i \<ge> NUM then panic ''free_desc 1'' s
     else let flag = vq_flags (dk_desc (vdisk s) ! i); nxt = vq_next (dk_desc (vdisk s) ! i) in
       bnd (free_desc i s) (\<lambda>_ s.
       if flag AND VRING_DESC_F_NEXT \<noteq> 0 then free_chain_n n (unat nxt) s else Done () s))"

definition free_chain :: "nat \<Rightarrow> kstate \<Rightarrow> unit kres" where
  "free_chain i s = free_chain_n (NUM + 1) i s"

text \<open>\<open>idx\<close> are the descriptors allocated so far.\<close>

fun alloc3_loop :: "nat \<Rightarrow> nat list \<Rightarrow> kstate \<Rightarrow> nat list option kres" where
  "alloc3_loop 0 idx s = Done (Some idx) s"
| "alloc3_loop (Suc n) idx s =
    (case alloc_desc (vdisk s) of
       (Some i, k) \<Rightarrow> alloc3_loop n (idx @ [i]) (s\<lparr>vdisk := k\<rparr>)
     | (None, k) \<Rightarrow> bnd (foreach free_desc idx s) (\<lambda>_ s. Done None s))"

definition alloc3_desc :: "kstate \<Rightarrow> nat list option kres" where
  "alloc3_desc s = alloc3_loop 3 [] s"

section \<open>Requests\<close>

definition set_desc :: "nat \<Rightarrow> virtq_desc \<Rightarrow> kstate \<Rightarrow> kstate" where
  "set_desc i d s = upd_disk (\<lambda>k. k\<lparr>dk_desc := (dk_desc k)[i := d]\<rparr>) s"

definition submit :: "nat \<Rightarrow> bool \<Rightarrow> nat \<Rightarrow> nat \<Rightarrow> nat \<Rightarrow> kstate \<Rightarrow> kstate" where
  "submit b write i0 i1 i2 s =
    (let sector = ucast (b_blockno (bufs s b) * of_nat (BSIZE div 512));
         s = upd_disk (\<lambda>k. k\<lparr>dk_ops := (dk_ops k)[i0 := \<lparr>rq_type = if write then VIRTIO_BLK_T_OUT else VIRTIO_BLK_T_IN,
               rq_reserved = 0, rq_sector = sector\<rparr>]\<rparr>) s;
         s = set_desc i0 \<lparr>vq_addr = DmaOps i0, vq_len = 16, vq_flags = VRING_DESC_F_NEXT, vq_next = of_nat i1\<rparr> s;
         s = set_desc i1 \<lparr>vq_addr = DmaBuf b, vq_len = of_nat BSIZE,
               vq_flags = (if write then 0 else VRING_DESC_F_WRITE) OR VRING_DESC_F_NEXT, vq_next = of_nat i2\<rparr> s;
         s = upd_disk (\<lambda>k. k\<lparr>dk_info_status := (dk_info_status k)[i0 := 0xff]\<rparr>) s;
         s = set_desc i2 \<lparr>vq_addr = DmaStatus i0, vq_len = 1, vq_flags = VRING_DESC_F_WRITE, vq_next = 0\<rparr> s;
         s = upd_buf b (\<lambda>r. r\<lparr>b_disk := True\<rparr>) s;
         s = upd_disk (\<lambda>k. k\<lparr>dk_info_b := (dk_info_b k)[i0 := Some b]\<rparr>) s;
         s = upd_disk (\<lambda>k. k\<lparr>dk_avail := (dk_avail k)\<lparr>av_ring :=
               (av_ring (dk_avail k))[unat (av_idx (dk_avail k)) mod NUM := of_nat i0]\<rparr>\<rparr>) s;
         s = upd_disk (\<lambda>k. k\<lparr>dk_avail := (dk_avail k)\<lparr>av_idx := av_idx (dk_avail k) + 1\<rparr>\<rparr>) s in
     WrR VIRTIO_MMIO_QUEUE_NOTIFY 0 s)"

definition disk_finish :: "nat \<Rightarrow> nat \<Rightarrow> kstate \<Rightarrow> unit kres" where
  "disk_finish b i0 s =
    (if b_disk (bufs s b) then sleep (ChDiskBuf b) VdiskLock s
     else bnd (free_chain i0 (upd_disk (\<lambda>k. k\<lparr>dk_info_b := (dk_info_b k)[i0 := None]\<rparr>) s)) (\<lambda>_ s.
       krelease VdiskLock s))"

definition disk_start :: "nat \<Rightarrow> bool \<Rightarrow> kstate \<Rightarrow> unit kres" where
  "disk_start b write s =
    bnd (alloc3_desc s) (\<lambda>idx s.
    case idx of
      None \<Rightarrow> sleep ChDiskFree VdiskLock s
    | Some is \<Rightarrow> disk_finish b (is ! 0) (submit b write (is ! 0) (is ! 1) (is ! 2) s))"

definition disk_rw :: "nat \<Rightarrow> bool \<Rightarrow> kstate \<Rightarrow> unit kres" where
  "disk_rw b write s = bnd (kacquire VdiskLock s) (\<lambda>_ s. disk_start b write s)"

definition disk_rw_retry :: "nat \<Rightarrow> bool \<Rightarrow> kstate \<Rightarrow> unit kres" where
  "disk_rw_retry b write s = bnd (sleep_resume VdiskLock s) (\<lambda>_ s. disk_start b write s)"

definition disk_rw_resume :: "nat \<Rightarrow> nat \<Rightarrow> kstate \<Rightarrow> unit kres" where
  "disk_rw_resume b i0 s = bnd (sleep_resume VdiskLock s) (\<lambda>_ s. disk_finish b i0 s)"

section \<open>Completion\<close>

text \<open>
  The loop over the used ring: the two 16-bit counters meet after at most as many turns as their distance.
\<close>

fun intr_loop :: "nat \<Rightarrow> kstate \<Rightarrow> unit kres" where
  "intr_loop 0 s = Done () s"
| "intr_loop (Suc n) s =
    (let k = vdisk s in
     if dk_used_idx k \<noteq> us_idx (dk_used k)
     then let id = unat (us_ring (dk_used k) ! (unat (dk_used_idx k) mod NUM)) in
       if id \<ge> NUM then Stop (Fault ''disk.info'') s
       else if dk_info_status k ! id \<noteq> 0 then panic ''virtio_disk_intr status'' s
       else case dk_info_b k ! id of
           None \<Rightarrow> Stop (Fault ''disk.info.b'') s
         | Some b \<Rightarrow>
           bnd (wakeup (ChDiskBuf b) (upd_buf b (\<lambda>r. r\<lparr>b_disk := False\<rparr>) s)) (\<lambda>_ s.
           intr_loop n (upd_disk (\<lambda>k. k\<lparr>dk_used_idx := dk_used_idx k + 1\<rparr>) s))
     else Done () s)"

definition virtio_disk_intr :: "kstate \<Rightarrow> unit kres" where
  "virtio_disk_intr s =
    bnd (kacquire VdiskLock s) (\<lambda>_ s.
    case RdR VIRTIO_MMIO_INTERRUPT_STATUS s of (v, s) \<Rightarrow>
    let s = WrR VIRTIO_MMIO_INTERRUPT_ACK (v AND 3) s in
    bnd (intr_loop (unat (us_idx (dk_used (vdisk s)) - dk_used_idx (vdisk s))) s) (\<lambda>_ s.
    krelease VdiskLock s))"

end
