(* ===== verification/Trap.thy ===== *)
theory Trap
  imports Syscall Virtio
begin

text \<open>
  Traps (\<open>kernel/trap.c\<close>), the interrupt controller (\<open>kernel/plic.c\<close>) and the first return of a new process to user
  space (\<open>forkret\<close> of \<open>kernel/proc.c\<close>).  The control registers are those of the running hart; a
  function that yields stops with \<open>Asleep\<close> and its rest is the definition with suffix \<open>_resume\<close>.
\<close>

section \<open>Interrupt controller\<close>

definition hartid :: "kstate \<Rightarrow> nat" where
  "hartid s = unat (r_tp (hart s))"

definition plicinit :: "kstate \<Rightarrow> kstate" where
  "plicinit s =
    (let s = io_write (PLIC + of_nat (UART0_IRQ * 4)) 1 s in
     io_write (PLIC + of_nat (VIRTIO0_IRQ * 4)) 1 s)"

definition plicinithart :: "kstate \<Rightarrow> kstate" where
  "plicinithart s =
    (let h = hartid s;
         s = io_write (PLIC_SENABLE h) (push_bit UART0_IRQ 1 OR push_bit VIRTIO0_IRQ 1) s in
     io_write (PLIC_SPRIORITY h) 0 s)"

definition plic_claim :: "kstate \<Rightarrow> int \<times> kstate" where
  "plic_claim s = (case io_read s of (v, s) \<Rightarrow> (sint (ucast v :: uint), s))"

definition plic_complete :: "int \<Rightarrow> kstate \<Rightarrow> kstate" where
  "plic_complete irq s = io_write (PLIC_SCLAIM (hartid s)) (ucast (word_of_int irq :: uint)) s"

section \<open>Device interrupts\<close>

definition upd_hartr :: "(csrs \<Rightarrow> csrs) \<Rightarrow> kstate \<Rightarrow> kstate" where
  "upd_hartr f s = s\<lparr>hart := f (hart s)\<rparr>"

definition clockintr :: "kstate \<Rightarrow> unit kres" where
  "clockintr s =
    bnd (if hartid s = 0
      then bnd (kacquire TicksLock s) (\<lambda>_ s.
        let s = s\<lparr>ticks := ticks s + 1\<rparr> in
        bnd (wakeup ChTicks s) (\<lambda>_ s. krelease TicksLock s))
      else Done () s) (\<lambda>_ s.
    Done () (upd_hartr (\<lambda>c. w_stimecmp (r_time c + 1000000) c) s))"

definition devintr :: "kstate \<Rightarrow> int kres" where
  "devintr s =
    (let scause = r_scause (hart s) in
     if scause = 0x8000000000000009
     then case plic_claim s of (irq, s) \<Rightarrow>
       bnd (if irq = int UART0_IRQ then uartintr s
            else if irq = int VIRTIO0_IRQ then virtio_disk_intr s
            else if irq \<noteq> 0
            then bnd (printf (txt_of ''unexpected interrupt irq=%d'' @ [10]) [VWord (word_of_int irq)] s) (\<lambda>_ s. Done () s)
            else Done () s) (\<lambda>_ s.
       Done 1 (if irq \<noteq> 0 then plic_complete irq s else s))
     else if scause = 0x8000000000000005 then bnd (clockintr s) (\<lambda>_ s. Done 2 s)
     else Done 0 s)"

section \<open>Returning to user space\<close>

definition trapinithart :: "kstate \<Rightarrow> kstate" where
  "trapinithart s = upd_hartr (w_stvec (sym_kernelvec (link s))) s"

definition intr_disable :: "kstate \<Rightarrow> kstate" where
  "intr_disable s = (upd_hartr intr_off s)\<lparr>sie := False\<rparr>"

definition intr_enable :: "kstate \<Rightarrow> kstate" where
  "intr_enable s = (upd_hartr intr_on s)\<lparr>sie := True\<rparr>"

definition prepare_return :: "kstate \<Rightarrow> unit kres" where
  "prepare_return s =
    bnd (myproc s) (\<lambda>p s.
    let s = intr_disable s;
        trampoline_uservec = TRAMPOLINE + (sym_uservec (link s) - sym_trampoline (link s));
        s = upd_hartr (w_stvec trampoline_uservec) s;
        s = set_tf p TF_kernel_satp (r_satp (hart s)) s;
        s = set_tf p TF_kernel_sp (p_kstack (procs s p) + PGSIZE) s;
        s = set_tf p TF_kernel_trap (sym_usertrap (link s)) s;
        s = set_tf p TF_kernel_hartid (r_tp (hart s)) s;
        x = (r_sstatus (hart s) AND NOT SSTATUS_SPP) OR SSTATUS_SPIE;
        s = upd_hartr (w_sstatus x) s;
        s = upd_hartr (w_sepc (get_tf p TF_epc s)) s in
    Done () s)"

section \<open>Traps\<close>

text \<open>The end of \<open>usertrap\<close>: the page table for the trampoline to switch to.\<close>

definition usertrap_end :: "nat \<Rightarrow> kstate \<Rightarrow> uint64 kres" where
  "usertrap_end p s = bnd (prepare_return s) (\<lambda>_ s. Done (MAKE_SATP (p_pagetable (procs s p))) s)"

definition usertrap_after :: "nat \<Rightarrow> int \<Rightarrow> kstate \<Rightarrow> uint64 kres" where
  "usertrap_after p which_dev s =
    bnd (killed p s) (\<lambda>k s.
    if k then kexit (-1) s
    else bnd (if which_dev = 2 then yield s else Done () s) (\<lambda>_ s. usertrap_end p s))"

definition usertrap_unexpected :: "nat \<Rightarrow> kstate \<Rightarrow> unit kres" where
  "usertrap_unexpected p s =
    bnd (printf (txt_of ''usertrap(): unexpected scause 0x%lx pid=%d'' @ [10])
        [VWord (r_scause (hart s)), VWord (word_of_int (p_pid (procs s p)))] s) (\<lambda>_ s.
    bnd (printf (txt_of ''            sepc=0x%lx stval=0x%lx'' @ [10])
        [VWord (r_sepc (hart s)), VWord (r_stval (hart s))] s) (\<lambda>_ s.
    setkilled p s))"

definition usertrap :: "kstate \<Rightarrow> uint64 kres" where
  "usertrap s =
    (if r_sstatus (hart s) AND SSTATUS_SPP \<noteq> 0 then panic ''usertrap: not from user mode'' s
     else let s = upd_hartr (w_stvec (sym_kernelvec (link s))) s in
       bnd (myproc s) (\<lambda>p s.
       let s = set_tf p TF_epc (r_sepc (hart s)) s in
       if r_scause (hart s) = 8
       then bnd (killed p s) (\<lambda>k s.
         if k then kexit (-1) s
         else let s = set_tf p TF_epc (get_tf p TF_epc s + 4) s;
                  s = intr_enable s in
           bnd (syscall s) (\<lambda>_ s. usertrap_after p 0 s))
       else bnd (devintr s) (\<lambda>which_dev s.
         if which_dev \<noteq> 0 then usertrap_after p which_dev s
         else bnd (if r_scause (hart s) = 15 \<or> r_scause (hart s) = 13
                   then vmfault (p_pagetable (procs s p)) (r_stval (hart s)) s else Done 0 s) (\<lambda>pa s.
           if pa \<noteq> 0 then usertrap_after p 0 s
           else bnd (usertrap_unexpected p s) (\<lambda>_ s. usertrap_after p 0 s)))))"

definition usertrap_resume :: "nat \<Rightarrow> kstate \<Rightarrow> uint64 kres" where
  "usertrap_resume p s = bnd (yield_resume s) (\<lambda>_ s. usertrap_end p s)"

definition kerneltrap_end :: "uint64 \<Rightarrow> uint64 \<Rightarrow> kstate \<Rightarrow> unit kres" where
  "kerneltrap_end sepc sstatus s = Done () (upd_hartr (\<lambda>c. w_sstatus sstatus (w_sepc sepc c)) s)"

definition kerneltrap :: "kstate \<Rightarrow> unit kres" where
  "kerneltrap s =
    (let sepc = r_sepc (hart s); sstatus = r_sstatus (hart s); scause = r_scause (hart s) in
     if sstatus AND SSTATUS_SPP = 0 then panic ''kerneltrap: not from supervisor mode'' s
     else if intr_get (hart s) then panic ''kerneltrap: interrupts enabled'' s
     else bnd (devintr s) (\<lambda>which_dev s.
       if which_dev = 0
       then bnd (printf (txt_of ''scause=0x%lx sepc=0x%lx stval=0x%lx'' @ [10])
           [VWord scause, VWord (r_sepc (hart s)), VWord (r_stval (hart s))] s) (\<lambda>_ s. panic ''kerneltrap'' s)
       else bnd (if which_dev = 2 \<and> curproc s \<noteq> None then yield s else Done () s) (\<lambda>_ s.
         kerneltrap_end sepc sstatus s)))"

definition kerneltrap_resume :: "uint64 \<Rightarrow> uint64 \<Rightarrow> kstate \<Rightarrow> unit kres" where
  "kerneltrap_resume sepc sstatus s = bnd (yield_resume s) (\<lambda>_ s. kerneltrap_end sepc sstatus s)"

section \<open>A new process\<close>

text \<open>\<open>forkret\<close> ends by jumping to the trampoline: the result is the address and its argument.\<close>

definition forkret :: "kstate \<Rightarrow> (uint64 \<times> uint64) kres" where
  "forkret s =
    bnd (myproc s) (\<lambda>p s.
    bnd (krelease (ProcLock p) s) (\<lambda>_ s.
    bnd (if forkret_first s
      then bnd (fsinit ROOTDEV s) (\<lambda>_ s.
        let s = s\<lparr>forkret_first := False\<rparr> in
        bnd (kexec (txt_of ''/init'') [txt_of ''/init''] s) (\<lambda>r s.
        let s = set_tf p TF_a0 (ret_int r) s in
        if get_tf p TF_a0 s = - 1 then panic ''exec'' s else Done () s))
      else Done () s) (\<lambda>_ s.
    bnd (prepare_return s) (\<lambda>_ s.
    Done (TRAMPOLINE + (sym_userret (link s) - sym_trampoline (link s)), MAKE_SATP (p_pagetable (procs s p))) s))))"

end
