(* ===== verification/Boot.thy ===== *)
theory Boot
  imports Trap Pagetable
begin

text \<open>
  Start of a hart: \<open>kernel/start.c\<close> in machine mode and \<open>kernel/main.c\<close>.  The address of \<open>main\<close> is an
  argument of \<open>start\<close>.  A hart other than the first waits for \<open>started\<close>; while it is unset, the wait
  has not ended.
\<close>

definition timerinit :: "csrs \<Rightarrow> csrs" where
  "timerinit c =
    (let c = w_mie (r_mie c OR MIE_STIE) c;
         c = w_menvcfg (r_menvcfg c OR push_bit 63 1) c;
         c = w_mcounteren (r_mcounteren c OR 2) c in
     w_stimecmp (r_time c + 1000000) c)"

definition start :: "uint64 \<Rightarrow> csrs \<Rightarrow> csrs" where
  "start main_addr c =
    (let x = r_mstatus c AND NOT MSTATUS_MPP_MASK;
         x = x OR MSTATUS_MPP_S;
         c = w_mstatus x c;
         c = w_mepc main_addr c;
         c = w_satp 0 c;
         c = w_medeleg 0xffff c;
         c = w_mideleg 0xffff c;
         c = w_sie (r_sie c OR SIE_SEIE OR SIE_STIE) c;
         c = w_pmpaddr0 0x3fffffffffffff c;
         c = w_pmpcfg0 0xf c;
         c = timerinit c in
     w_tp (scast (ucast (r_mhartid c) :: uint)) c)"

text \<open>\<open>main\<close> up to the call of the scheduler.\<close>

definition main_init :: "kstate \<Rightarrow> unit kres" where
  "main_init s =
    (if hartid s = 0
     then let s = consoleinit s in
       bnd (printf [10] [] s) (\<lambda>_ s.
       bnd (printf (txt_of ''xv6 kernel is booting'' @ [10]) [] s) (\<lambda>_ s.
       bnd (printf [10] [] s) (\<lambda>_ s.
       bnd (kinit s) (\<lambda>_ s.
       bnd (kvminit s) (\<lambda>_ s.
       let s = kvminithart s; s = procinit s; s = trapinithart s; s = plicinit s; s = plicinithart s in
       bnd (binit s) (\<lambda>_ s.
       let s = iinit s in
       bnd (virtio_disk_init s) (\<lambda>_ s.
       bnd (userinit s) (\<lambda>_ s.
       Done () (s\<lparr>started := True\<rparr>)))))))))
     else if \<not> started s then Stop Diverge s
     else bnd (printf (txt_of ''hart %d starting'' @ [10]) [VWord (of_nat (hartid s))] s) (\<lambda>_ s.
       let s = kvminithart s; s = trapinithart s; s = plicinithart s in
       Done () s))"

definition main :: "(nat \<Rightarrow> kstate \<Rightarrow> kstate) \<Rightarrow> kstate \<Rightarrow> bool kres" where
  "main run s = bnd (main_init s) (\<lambda>_ s. scheduler run s)"

end
