(* ===== verification/Ulib.thy ===== *)
theory Ulib
  imports Fs
begin

text \<open>
  The C library of the user programs (\<open>user/ulib.c\<close>, \<open>user/printf.c\<close>) and the world a program runs in.
  A program sees the kernel through its system calls only: the record \<open>sys\<close> holds one function per call
  from the state of the world to the value returned, with the bytes the call stores in the caller's memory,
  and the new world.  A program is a function of these.  It returns, or its process ends (\<open>exit\<close>, or an
  \<open>exec\<close> that succeeded and replaced the program), or it runs forever, the value \<open>None\<close>.  A C string is the
  list of the bytes before its NUL.
\<close>

section \<open>Programs\<close>

datatype ending = Exit int | Execd "byte list" "byte list list" | Crash string

datatype ('a, 'w) run = Ret 'a 'w | End ending 'w

type_synonym ('a, 'w) prog = "('a, 'w) run option"

definition ubnd :: "('a, 'w) prog \<Rightarrow> ('a \<Rightarrow> 'w \<Rightarrow> ('b, 'w) prog) \<Rightarrow> ('b, 'w) prog" where
  "ubnd r f = (case r of None \<Rightarrow> None | Some (Ret a w) \<Rightarrow> f a w | Some (End e w) \<Rightarrow> Some (End e w))"

lemma ubnd_simps [simp]:
  "ubnd (Some (Ret a w)) f = f a w" "ubnd (Some (End e w)) f = Some (End e w)" "ubnd None f = None"
  by (simp_all add: ubnd_def)

lemma ubnd_mono [partial_function_mono]:
  assumes "mono_option B" "\<And>a w. mono_option (\<lambda>g. C a w g)"
  shows "mono_option (\<lambda>g. ubnd (B g) (\<lambda>a w. C a w g))"
proof -
  have "ubnd (B g) (\<lambda>a w. C a w g)
      = Option.bind (B g) (\<lambda>r. case r of Ret a w \<Rightarrow> C a w g | End e w \<Rightarrow> Some (End e w))" for g
    by (auto simp: ubnd_def split: option.splits run.splits)
  moreover have "mono_option (\<lambda>g. case r of Ret a w \<Rightarrow> C a w g | End e w \<Rightarrow> Some (End e w))" for r
    using assms(2) by (cases r) (auto intro: option.const_mono)
  ultimately show ?thesis by (simp only: bind_mono [OF assms(1)])
qed

section \<open>System calls (user/user.h)\<close>

record 'w sys =
  s_fork :: "'w \<Rightarrow> int \<times> 'w"
  s_wait :: "'w \<Rightarrow> int \<times> 'w"
  s_pipe :: "'w \<Rightarrow> int \<times> (int \<times> int) \<times> 'w"
  s_write :: "int \<Rightarrow> byte list \<Rightarrow> 'w \<Rightarrow> int \<times> 'w"
  s_read :: "int \<Rightarrow> nat \<Rightarrow> 'w \<Rightarrow> int \<times> byte list \<times> 'w"
  s_close :: "int \<Rightarrow> 'w \<Rightarrow> int \<times> 'w"
  s_kill :: "int \<Rightarrow> 'w \<Rightarrow> int \<times> 'w"
  s_exec :: "byte list \<Rightarrow> byte list list \<Rightarrow> 'w \<Rightarrow> bool \<times> 'w"
  s_open :: "byte list \<Rightarrow> nat \<Rightarrow> 'w \<Rightarrow> int \<times> 'w"
  s_mknod :: "byte list \<Rightarrow> int \<Rightarrow> int \<Rightarrow> 'w \<Rightarrow> int \<times> 'w"
  s_unlink :: "byte list \<Rightarrow> 'w \<Rightarrow> int \<times> 'w"
  s_fstat :: "int \<Rightarrow> 'w \<Rightarrow> int \<times> stat \<times> 'w"
  s_link :: "byte list \<Rightarrow> byte list \<Rightarrow> 'w \<Rightarrow> int \<times> 'w"
  s_mkdir :: "byte list \<Rightarrow> 'w \<Rightarrow> int \<times> 'w"
  s_chdir :: "byte list \<Rightarrow> 'w \<Rightarrow> int \<times> 'w"
  s_dup :: "int \<Rightarrow> 'w \<Rightarrow> int \<times> 'w"
  s_sbrk :: "int \<Rightarrow> int \<Rightarrow> 'w \<Rightarrow> uint64 \<times> 'w"
  s_pause :: "int \<Rightarrow> 'w \<Rightarrow> int \<times> 'w"

text \<open>\<open>exec\<close> returns only when it fails, and then -1.\<close>

definition uexec :: "'w sys \<Rightarrow> byte list \<Rightarrow> byte list list \<Rightarrow> 'w \<Rightarrow> (int, 'w) prog" where
  "uexec sys path argv w = (case s_exec sys path argv w of
     (True, w) \<Rightarrow> Some (End (Execd path argv) w) | (False, w) \<Rightarrow> Some (Ret (-1) w))"

definition uexit :: "int \<Rightarrow> 'w \<Rightarrow> ('a, 'w) prog" where
  "uexit n w = Some (End (Exit n) w)"

section \<open>Strings (user/ulib.c)\<close>

fun strcmp :: "byte list \<Rightarrow> byte list \<Rightarrow> int" where
  "strcmp (p # ps) (q # qs) = (if p = q then strcmp ps qs else int (unat p) - int (unat q))"
| "strcmp (p # ps) [] = int (unat p)"
| "strcmp [] (q # qs) = - int (unat q)"
| "strcmp [] [] = 0"

fun strlen_u :: "byte list \<Rightarrow> nat" where
  "strlen_u [] = 0"
| "strlen_u (c # s) = Suc (strlen_u s)"

text \<open>\<open>strchr\<close>: the index of the first occurrence; the NUL at the end is never found.\<close>

fun strchr :: "byte list \<Rightarrow> byte \<Rightarrow> nat option" where
  "strchr [] c = None"
| "strchr (x # s) c = (if x = c then Some 0 else map_option Suc (strchr s c))"

text \<open>\<open>atoi\<close> in 32-bit arithmetic.\<close>

fun atoi_loop :: "uint \<Rightarrow> byte list \<Rightarrow> uint" where
  "atoi_loop n [] = n"
| "atoi_loop n (c # s) = (if 48 \<le> c \<and> c \<le> 57 then atoi_loop (n * 10 + ucast c - 48) s else n)"

definition atoi :: "byte list \<Rightarrow> int" where "atoi s = sint (atoi_loop 0 s)"

text \<open>The routines on raw memory.\<close>

partial_function (option) strcpy :: "pmem \<Rightarrow> nat \<Rightarrow> nat \<Rightarrow> pmem option" where
  "strcpy m s t = (let m' = m(s := m t) in if m t \<noteq> 0 then strcpy m' (s + 1) (t + 1) else Some m')"

fun memset_u :: "pmem \<Rightarrow> nat \<Rightarrow> uint \<Rightarrow> nat \<Rightarrow> nat \<Rightarrow> pmem" where
  "memset_u m cdst c i 0 = m"
| "memset_u m cdst c i (Suc left) = memset_u (m(cdst + i := ucast c)) cdst c (i + 1) left"

definition memmove_u :: "pmem \<Rightarrow> nat \<Rightarrow> nat \<Rightarrow> int \<Rightarrow> pmem" where
  "memmove_u m dst src n =
     (if src > dst then copy_up m dst src (nat n)
      else copy_down m (nat (int dst + n)) (nat (int src + n)) (nat n))"

fun memcmp_u :: "pmem \<Rightarrow> nat \<Rightarrow> nat \<Rightarrow> nat \<Rightarrow> int" where
  "memcmp_u m p1 p2 0 = 0"
| "memcmp_u m p1 p2 (Suc n) =
     (if m p1 \<noteq> m p2 then int (unat (m p1)) - int (unat (m p2)) else memcmp_u m (p1 + 1) (p2 + 1) n)"

definition memcpy_u :: "pmem \<Rightarrow> nat \<Rightarrow> nat \<Rightarrow> uint \<Rightarrow> pmem" where
  "memcpy_u m dst src n = memmove_u m dst src (sint n)"

interpretation umove: byte_mover "\<lambda>m d s n. memmove_u m d s (int n)"
  by unfold_locales (auto simp: memmove_u_def copy_up_wr copy_down_wr nat_add_distrib)

section \<open>Library routines that call the kernel\<close>

text \<open>
  \<open>gets\<close>, one byte at a time: the bytes stored before the NUL it adds at the end.  The variable \<open>c\<close> is not
  initialised; a read of one byte that says it succeeded has stored it.
\<close>

function gets_loop :: "'w sys \<Rightarrow> nat \<Rightarrow> nat \<Rightarrow> 'w \<Rightarrow> byte list \<times> 'w" where
  "gets_loop sys mx i w =
    (if i + 1 < mx
     then case s_read sys 0 1 w of (cc, bs, w) \<Rightarrow>
       if cc < 1 then ([], w)
       else let c = at0 bs 0 in
         if c = 10 \<or> c = 13 then ([c], w)
         else case gets_loop sys mx (i + 1) w of (cs, w) \<Rightarrow> (c # cs, w)
     else ([], w))"
  by pat_completeness auto
termination
  by (relation "measure (\<lambda>(_, mx, i, _). mx - i)") auto

declare gets_loop.simps [simp del]

definition gets :: "'w sys \<Rightarrow> nat \<Rightarrow> 'w \<Rightarrow> byte list \<times> 'w" where
  "gets sys mx w = gets_loop sys mx 0 w"

definition O_RDONLY :: nat where "O_RDONLY = 0"
definition O_WRONLY :: nat where "O_WRONLY = 1"
definition O_RDWR :: nat where "O_RDWR = 2"
definition O_CREATE :: nat where "O_CREATE = 0x200"
definition O_TRUNC :: nat where "O_TRUNC = 0x400"

definition stat_u :: "'w sys \<Rightarrow> byte list \<Rightarrow> stat \<Rightarrow> 'w \<Rightarrow> int \<times> stat \<times> 'w" where
  "stat_u sys n st w =
    (case s_open sys n O_RDONLY w of (fd, w) \<Rightarrow>
     if fd < 0 then (-1, st, w)
     else case s_fstat sys fd w of (r, st, w) \<Rightarrow>
       case s_close sys fd w of (_, w) \<Rightarrow> (r, st, w))"

definition SBRK_EAGER :: int where "SBRK_EAGER = 1"
definition SBRK_LAZY :: int where "SBRK_LAZY = 2"

definition sbrk :: "'w sys \<Rightarrow> int \<Rightarrow> 'w \<Rightarrow> uint64 \<times> 'w" where
  "sbrk sys n w = s_sbrk sys n SBRK_EAGER w"

definition sbrklazy :: "'w sys \<Rightarrow> int \<Rightarrow> 'w \<Rightarrow> uint64 \<times> 'w" where
  "sbrklazy sys n w = s_sbrk sys n SBRK_LAZY w"

text \<open>\<open>start\<close>: the entry point of every program.\<close>

definition start_u :: "('w \<Rightarrow> (int, 'w) prog) \<Rightarrow> 'w \<Rightarrow> (int, 'w) prog" where
  "start_u main w = ubnd (main w) (\<lambda>_ w. uexit 0 w)"

section \<open>Formatted output (user/printf.c)\<close>

definition putc :: "'w sys \<Rightarrow> int \<Rightarrow> byte \<Rightarrow> 'w \<Rightarrow> 'w" where
  "putc sys fd c w = snd (s_write sys fd [c] w)"

definition upper_digits :: "byte list" where "upper_digits = txt_of ''0123456789ABCDEF''"

function uprint_digits :: "uint \<Rightarrow> uint \<Rightarrow> byte list" where
  "uprint_digits x base =
    (if unat base < 2 then []
     else upper_digits ! unat (x mod base) # (if x div base \<noteq> 0 then uprint_digits (x div base) base else []))"
  by auto
termination
proof (relation "measure (\<lambda>(x, base). unat x)")
  fix x base :: uint
  assume "\<not> unat base < 2" "x div base \<noteq> 0"
  moreover from this have "x \<noteq> 0" by auto
  ultimately show "((x div base, base), x, base) \<in> measure (\<lambda>(x, base). unat x)"
    by (simp add: unat_div div_less_dividend unat_gt_0)
qed simp

declare uprint_digits.simps [simp del]

text \<open>The number is converted to 32 bits, whatever the width of the argument.\<close>

definition uprint_buf :: "uint64 \<Rightarrow> uint \<Rightarrow> bool \<Rightarrow> byte list" where
  "uprint_buf xx base sg =
    (let neg = sg \<and> sint xx < 0;
         x = (if neg then ucast (- xx) else ucast xx :: uint) in
     uprint_digits x base @ (if neg then [45] else []))"

definition printint_u :: "'w sys \<Rightarrow> int \<Rightarrow> uint64 \<Rightarrow> uint \<Rightarrow> bool \<Rightarrow> 'w \<Rightarrow> 'w" where
  "printint_u sys fd xx base sg w = fold (putc sys fd) (rev (uprint_buf xx base sg)) w"

fun printptr_loop_u :: "'w sys \<Rightarrow> int \<Rightarrow> nat \<Rightarrow> uint64 \<Rightarrow> 'w \<Rightarrow> 'w" where
  "printptr_loop_u sys fd 0 x w = w"
| "printptr_loop_u sys fd (Suc n) x w =
    printptr_loop_u sys fd n (push_bit 4 x) (putc sys fd (upper_digits ! unat (drop_bit 60 x)) w)"

definition printptr_u :: "'w sys \<Rightarrow> int \<Rightarrow> uint64 \<Rightarrow> 'w \<Rightarrow> 'w" where
  "printptr_u sys fd x w = printptr_loop_u sys fd 16 x (putc sys fd 120 (putc sys fd 48 w))"

text \<open>
  One conversion, \<open>c0\<close>, \<open>c1\<close>, \<open>c2\<close> being the characters after the percent sign: the number of further
  characters and of arguments it consumes.
\<close>

definition va_word_u :: "varg list \<Rightarrow> (uint64 \<Rightarrow> 'w \<Rightarrow> 'w) \<Rightarrow> nat \<Rightarrow> 'w \<Rightarrow> (nat \<times> nat, 'w) prog" where
  "va_word_u ap f k w = (case ap of VWord v # _ \<Rightarrow> Some (Ret (k, 1) (f v w)) | _ \<Rightarrow> Some (End (Crash ''va_arg'') w))"

definition vprintf_conv :: "'w sys \<Rightarrow> int \<Rightarrow> byte \<Rightarrow> byte \<Rightarrow> byte \<Rightarrow> varg list \<Rightarrow> 'w \<Rightarrow> (nat \<times> nat, 'w) prog" where
  "vprintf_conv sys fd c0 c1 c2 ap w =
    (if c0 = chr CHR ''d'' then va_word_u ap (\<lambda>v. printint_u sys fd (int_arg v) 10 True) 0 w
     else if c0 = chr CHR ''l'' \<and> c1 = chr CHR ''d'' then va_word_u ap (\<lambda>v. printint_u sys fd v 10 True) 1 w
     else if c0 = chr CHR ''l'' \<and> c1 = chr CHR ''l'' \<and> c2 = chr CHR ''d''
     then va_word_u ap (\<lambda>v. printint_u sys fd v 10 True) 2 w
     else if c0 = chr CHR ''u'' then va_word_u ap (\<lambda>v. printint_u sys fd (uint_arg v) 10 False) 0 w
     else if c0 = chr CHR ''l'' \<and> c1 = chr CHR ''u'' then va_word_u ap (\<lambda>v. printint_u sys fd v 10 False) 1 w
     else if c0 = chr CHR ''l'' \<and> c1 = chr CHR ''l'' \<and> c2 = chr CHR ''u''
     then va_word_u ap (\<lambda>v. printint_u sys fd v 10 False) 2 w
     else if c0 = chr CHR ''x'' then va_word_u ap (\<lambda>v. printint_u sys fd (uint_arg v) 16 False) 0 w
     else if c0 = chr CHR ''l'' \<and> c1 = chr CHR ''x'' then va_word_u ap (\<lambda>v. printint_u sys fd v 16 False) 1 w
     else if c0 = chr CHR ''l'' \<and> c1 = chr CHR ''l'' \<and> c2 = chr CHR ''x''
     then va_word_u ap (\<lambda>v. printint_u sys fd v 16 False) 2 w
     else if c0 = chr CHR ''p'' then va_word_u ap (printptr_u sys fd) 0 w
     else if c0 = chr CHR ''c'' then va_word_u ap (\<lambda>v. putc sys fd (ucast v)) 0 w
     else if c0 = chr CHR ''s''
     then (case ap of
         VStr t # _ \<Rightarrow> Some (Ret (0, 1) (fold (putc sys fd)
             (cstr (case t of None \<Rightarrow> txt_of ''(null)'' | Some cs \<Rightarrow> cs)) w))
       | _ \<Rightarrow> Some (End (Crash ''va_arg'') w))
     else if c0 = chr CHR ''%'' then Some (Ret (0, 0) (putc sys fd 37 w))
     else Some (Ret (0, 0) (putc sys fd c0 (putc sys fd 37 w))))"

text \<open>The loop over the format, with the variable \<open>state\<close> as whether a percent sign has just been read.\<close>

function vprintf_loop :: "'w sys \<Rightarrow> int \<Rightarrow> bool \<Rightarrow> byte list \<Rightarrow> varg list \<Rightarrow> 'w \<Rightarrow> (unit, 'w) prog" where
  "vprintf_loop sys fd state [] ap w = Some (Ret () w)"
| "vprintf_loop sys fd state (c0 # fmt) ap w =
    (if \<not> state
     then if c0 = 37 then vprintf_loop sys fd True fmt ap w
       else vprintf_loop sys fd False fmt ap (putc sys fd c0 w)
     else let c1 = at0 fmt 0; c2 = (if c1 \<noteq> 0 then at0 fmt 1 else 0) in
       ubnd (vprintf_conv sys fd c0 c1 c2 ap w) (\<lambda>(k, a) w. vprintf_loop sys fd False (drop k fmt) (drop a ap) w))"
  by pat_completeness auto
termination
  by (relation "measure (\<lambda>(_, _, _, fmt, _). length fmt)") auto

declare vprintf_loop.simps(2) [simp del]

definition vprintf :: "'w sys \<Rightarrow> int \<Rightarrow> byte list \<Rightarrow> varg list \<Rightarrow> 'w \<Rightarrow> (unit, 'w) prog" where
  "vprintf sys fd fmt ap w = vprintf_loop sys fd False fmt ap w"

definition fprintf :: "'w sys \<Rightarrow> int \<Rightarrow> byte list \<Rightarrow> varg list \<Rightarrow> 'w \<Rightarrow> (unit, 'w) prog" where
  "fprintf sys fd fmt ap w = vprintf sys fd fmt ap w"

definition printf_u :: "'w sys \<Rightarrow> byte list \<Rightarrow> varg list \<Rightarrow> 'w \<Rightarrow> (unit, 'w) prog" where
  "printf_u sys fmt ap w = vprintf sys 1 fmt ap w"

end
