(* ===== verification/Stdio.thy ===== *)
theory Stdio
  imports Ulib
begin

text \<open>
  What user programs rely on when they read a file and print: \<open>stdio sys fd inp out\<close> says that reads of \<open>fd\<close>
  deliver the bytes \<open>inp\<close> in pieces of any size, an empty one only at the end, and that writes to standard
  output append to \<open>out\<close>.  Under this contract formatted output appends the text its format denotes, and a
  number that fits in 32 bits reads back.
\<close>

definition stdio :: "'w sys \<Rightarrow> int \<Rightarrow> ('w \<Rightarrow> byte list) \<Rightarrow> ('w \<Rightarrow> byte list) \<Rightarrow> bool" where
  "stdio sys fd inp out \<longleftrightarrow>
    (\<forall>k w. 0 < k \<longrightarrow> (\<exists>n w'. s_read sys fd k w = (int n, take n (inp w), w') \<and> n \<le> k \<and> n \<le> length (inp w)
       \<and> (n = 0 \<longrightarrow> inp w = []) \<and> inp w' = drop n (inp w) \<and> out w' = out w))
    \<and> (\<forall>bs w. \<exists>w'. s_write sys 1 bs w = (int (length bs), w') \<and> inp w' = inp w \<and> out w' = out w @ bs)"

lemma stdio_read:
  assumes "stdio sys fd inp out" "0 < k"
  obtains n w' where "s_read sys fd k w = (int n, take n (inp w), w')" "n \<le> k" "n \<le> length (inp w)"
    "n = 0 \<Longrightarrow> inp w = []" "inp w' = drop n (inp w)" "out w' = out w"
  using assms unfolding stdio_def by blast

lemma stdio_write:
  assumes "stdio sys fd inp out"
  obtains w' where "s_write sys 1 bs w = (int (length bs), w')" "inp w' = inp w" "out w' = out w @ bs"
  using assms unfolding stdio_def by blast

text \<open>A world of this kind: the input not read yet and the output so far.  A read delivers at most three bytes.\<close>

type_synonym tape = "byte list \<times> byte list"

definition tape_sys :: "tape sys" where
  "tape_sys = \<lparr>s_fork = \<lambda>w. (-1, w), s_wait = \<lambda>w. (-1, w), s_pipe = \<lambda>w. (-1, (0, 0), w),
     s_write = \<lambda>fd bs w. if fd = 1 then (int (length bs), (fst w, snd w @ bs)) else (-1, w),
     s_read = \<lambda>fd k w. let n = min k (min 3 (length (fst w))) in (int n, take n (fst w), (drop n (fst w), snd w)),
     s_close = \<lambda>fd w. (0, w), s_kill = \<lambda>p w. (-1, w), s_exec = \<lambda>p a w. (False, w), s_open = \<lambda>p m w. (0, w),
     s_mknod = \<lambda>p a b w. (-1, w), s_unlink = \<lambda>p w. (-1, w),
     s_fstat = \<lambda>fd w. (-1, \<lparr>st_dev = 0, st_ino = 0, st_type = 0, st_nlink = 0, st_size = 0\<rparr>, w),
     s_link = \<lambda>p q w. (-1, w), s_mkdir = \<lambda>p w. (-1, w), s_chdir = \<lambda>p w. (-1, w), s_dup = \<lambda>fd w. (-1, w),
     s_sbrk = \<lambda>n m w. (-1, w), s_pause = \<lambda>n w. (0, w)\<rparr>"

lemma stdio_tape: "stdio tape_sys fd fst snd"
  unfolding stdio_def
proof (intro conjI allI impI)
  fix k :: nat and w :: tape
  assume "0 < k"
  then show "\<exists>n w'. s_read tape_sys fd k w = (int n, take n (fst w), w') \<and> n \<le> k \<and> n \<le> length (fst w)
      \<and> (n = 0 \<longrightarrow> fst w = []) \<and> fst w' = drop n (fst w) \<and> snd w' = snd w"
    by (intro exI [of _ "min k (min 3 (length (fst w)))"]) (auto simp: tape_sys_def Let_def min_def split: if_splits)
qed (simp add: tape_sys_def)

section \<open>Formatted output\<close>

lemma upper_digits_eq: "upper_digits = [48, 49, 50, 51, 52, 53, 54, 55, 56, 57, 65, 66, 67, 68, 69, 70]"
  by (simp add: upper_digits_def txt_of_def chr_def)

lemma digit_table_upper: "digit_table upper_digits"
  by (simp add: digit_table_def upper_digits_eq digit_val_def upt_rec_numeral upt_conv_Cons)

interpretation user_digits: digit_loop upper_digits uprint_digits
  by unfold_locales (rule digit_table_upper, subst uprint_digits.simps, simp)

text \<open>Appending to the output.\<close>

definition wrote :: "('w \<Rightarrow> byte list) \<Rightarrow> ('w \<Rightarrow> byte list) \<Rightarrow> byte list \<Rightarrow> 'w \<Rightarrow> 'w \<Rightarrow> bool" where
  "wrote inp out bs w w' \<longleftrightarrow> inp w' = inp w \<and> out w' = out w @ bs"

lemma wrote_nil [simp]: "wrote inp out [] w w"
  by (simp add: wrote_def)

lemma wrote_trans: "wrote inp out as u v \<Longrightarrow> wrote inp out bs v w \<Longrightarrow> wrote inp out (as @ bs) u w"
  by (simp add: wrote_def)

lemma putc_wrote:
  assumes "stdio sys fd inp out"
  shows "wrote inp out [c] w (putc sys 1 c w)"
proof -
  obtain w' where "s_write sys 1 [c] w = (int (length [c]), w')" "inp w' = inp w" "out w' = out w @ [c]"
    by (rule stdio_write [OF assms])
  then show ?thesis by (simp add: putc_def wrote_def)
qed

lemma puts_wrote:
  assumes "stdio sys fd inp out"
  shows "wrote inp out cs w (fold (putc sys 1) cs w)"
proof (induction cs arbitrary: w)
  case (Cons c cs)
  show ?case using wrote_trans [OF putc_wrote [OF assms, of c w] Cons] by simp
qed simp

fun uptr_text :: "nat \<Rightarrow> uint64 \<Rightarrow> byte list" where
  "uptr_text 0 x = []"
| "uptr_text (Suc n) x = upper_digits ! unat (drop_bit 60 x) # uptr_text n (push_bit 4 x)"

lemma printptr_wrote:
  assumes "stdio sys fd inp out"
  shows "wrote inp out (48 # 120 # uptr_text 16 x) w (printptr_u sys 1 x w)"
proof -
  have l: "wrote inp out (uptr_text n x) w (printptr_loop_u sys 1 n x w)" for n x w
  proof (induction n arbitrary: x w)
    case (Suc n)
    show ?case using wrote_trans [OF putc_wrote [OF assms] Suc] by simp
  qed simp
  show ?thesis unfolding printptr_u_def
    using wrote_trans [OF wrote_trans [OF putc_wrote [OF assms, of 48 w] putc_wrote [OF assms, of 120]] l [of 16 x]]
    by (metis append_Cons append_Nil)
qed

text \<open>The text of a conversion and of a format; \<open>None\<close> when an argument is missing or of the wrong kind.\<close>

definition uconv_text :: "byte \<Rightarrow> byte \<Rightarrow> byte \<Rightarrow> varg list \<Rightarrow> (byte list \<times> nat \<times> nat) option" where
  "uconv_text c0 c1 c2 ap =
    (if c0 = 37 then Some ([37], 0, 0)
     else if c0 = 115 then (case ap of VStr t # _ \<Rightarrow>
         Some (cstr (case t of None \<Rightarrow> txt_of ''(null)'' | Some cs \<Rightarrow> cs), 0, 1) | _ \<Rightarrow> None)
     else
       let (long, c) = (if c0 = 108 \<and> c1 \<in> {100, 117, 120} then (1, c1)
           else if c0 = 108 \<and> c1 = 108 \<and> c2 \<in> {100, 117, 120} then (2, c2) else (0, c0)) in
       if c \<in> {100, 117, 120, 112, 99}
       then (case ap of VWord v # _ \<Rightarrow>
           Some (if c = 112 then 48 # 120 # uptr_text 16 v
             else if c = 99 then [ucast v]
             else rev (uprint_buf (if long \<noteq> 0 then v else if c = 100 then int_arg v else uint_arg v)
                 (if c = 120 then 16 else 10) (c = 100)), long, 1)
         | _ \<Rightarrow> None)
       else Some ([37, c0], 0, 0))"

lemma va_word_u_eq:
  "va_word_u (VWord v # ap) f k w = Some (Ret (k, 1) (f v w))"
  by (simp add: va_word_u_def)

lemma vprintf_conv_wrote:
  assumes s: "stdio sys fd inp out" and c: "uconv_text c0 c1 c2 ap = Some (bs, k, a)"
  shows "\<exists>w'. vprintf_conv sys 1 c0 c1 c2 ap w = Some (Ret (k, a) w') \<and> wrote inp out bs w w'"
proof -
  note [simp] = va_word_u_eq puts_wrote [OF s] printptr_wrote [OF s] putc_wrote [OF s] printint_u_def
  have two: "wrote inp out [37, c] w (putc sys 1 c (putc sys 1 37 w))" for c
    using wrote_trans [OF putc_wrote [OF s, of 37 w] putc_wrote [OF s, of c]] by simp
  obtain long :: nat and c where lc: "(long, c) = (if c0 = 108 \<and> c1 \<in> {100, 117, 120} then (1, c1)
      else if c0 = 108 \<and> c1 = 108 \<and> c2 \<in> {100, 117, 120} then (2, c2) else (0, c0))" by (metis surj_pair)
  consider "c0 = 37" | "c0 = 115" | (w) "c0 \<noteq> 37" "c0 \<noteq> 115" "c \<in> {100, 117, 120, 112, 99}"
    | (n) "c0 \<noteq> 37" "c0 \<noteq> 115" "c \<notin> {100, 117, 120, 112, 99}" by blast
  then show ?thesis
  proof cases
    case 1
    then show ?thesis using c by (auto simp: uconv_text_def vprintf_conv_def)
  next
    case 2
    then show ?thesis using c by (simp add: uconv_text_def vprintf_conv_def split: list.splits varg.splits)
  next
    case w
    have u: "uconv_text c0 c1 c2 ap = (case ap of VWord v # _ \<Rightarrow>
           Some (if c = 112 then 48 # 120 # uptr_text 16 v
             else if c = 99 then [ucast v]
             else rev (uprint_buf (if long \<noteq> 0 then v else if c = 100 then int_arg v else uint_arg v)
                 (if c = 120 then 16 else 10) (c = 100)), long, 1)
         | _ \<Rightarrow> None)"
      using w unfolding uconv_text_def lc [symmetric] by simp
    obtain v ap' where ap: "ap = VWord v # ap'" using c by (auto simp: u split: list.splits varg.splits)
    have e: "k = long" "a = 1" "bs = (if c = 112 then 48 # 120 # uptr_text 16 v
             else if c = 99 then [ucast v]
             else rev (uprint_buf (if long \<noteq> 0 then v else if c = 100 then int_arg v else uint_arg v)
                 (if c = 120 then 16 else 10) (c = 100)))" using c [unfolded u, unfolded ap] by (simp_all split del: if_split)
    consider "c0 = 108" "c1 \<in> {100, 117, 120}" "long = 1" "c = c1"
      | "c0 = 108" "c1 = 108" "c2 \<in> {100, 117, 120}" "long = 2" "c = c2" | "long = 0" "c = c0" "c0 \<noteq> 108"
      using lc w(3) by (auto split: if_splits)
    then show ?thesis
    proof cases
      case 1
      then show ?thesis unfolding e ap by (elim insertE emptyE; simp add: vprintf_conv_def)
    next
      case 2
      then show ?thesis unfolding e ap by (elim insertE emptyE; simp add: vprintf_conv_def)
    next
      case 3
      then have "c0 \<in> {100, 117, 120, 112, 99}" using w(3) by simp
      then show ?thesis using 3 unfolding e ap by (elim insertE emptyE; simp add: vprintf_conv_def)
    qed
  next
    case n
    have u: "uconv_text c0 c1 c2 ap = Some ([37, c0], 0, 0)"
      using n unfolding uconv_text_def lc [symmetric] by simp
    have "vprintf_conv sys 1 c0 c1 c2 ap w = Some (Ret (0, 0) (putc sys 1 c0 (putc sys 1 37 w)))"
    proof (cases "c0 = 108")
      case True
      then have "c1 \<notin> {100, 117, 120}" "c1 = 108 \<Longrightarrow> c2 \<notin> {100, 117, 120}" using lc n(3) by (auto split: if_splits)
      then show ?thesis using True by (cases "c1 = 108"; simp add: vprintf_conv_def)
    next
      case False
      then have "c0 \<notin> {100, 117, 120, 112, 99}" using lc n(3) by simp
      then show ?thesis using False n(1,2) by (simp add: vprintf_conv_def)
    qed
    then show ?thesis using c two [of c0] unfolding u by auto
  qed
qed

function ufmt_text :: "bool \<Rightarrow> byte list \<Rightarrow> varg list \<Rightarrow> byte list option" where
  "ufmt_text st [] ap = Some []"
| "ufmt_text st (c0 # fmt) ap =
    (if \<not> st
     then if c0 = 37 then ufmt_text True fmt ap else map_option (\<lambda>bs. c0 # bs) (ufmt_text False fmt ap)
     else let c1 = at0 fmt 0; c2 = (if c1 \<noteq> 0 then at0 fmt 1 else 0) in
       (case uconv_text c0 c1 c2 ap of
         None \<Rightarrow> None
       | Some (bs, k, a) \<Rightarrow> map_option (\<lambda>cs. bs @ cs) (ufmt_text False (drop k fmt) (drop a ap))))"
  by pat_completeness auto
termination
  by (relation "measure (\<lambda>(_, fmt, _). length fmt)") auto

declare ufmt_text.simps(2) [simp del]

lemma vprintf_loop_wrote:
  assumes "stdio sys fd inp out"
  shows "ufmt_text st fmt ap = Some bs \<Longrightarrow>
    \<exists>w'. vprintf_loop sys 1 st fmt ap w = Some (Ret () w') \<and> wrote inp out bs w w'"
proof (induction st fmt ap arbitrary: bs w rule: ufmt_text.induct)
  case (2 st c0 fmt ap)
  define c1 where "c1 = at0 fmt 0"
  define c2 where "c2 = (if c1 \<noteq> 0 then at0 fmt 1 else 0)"
  consider "\<not> st" "c0 = 37" | "\<not> st" "c0 \<noteq> 37" | "st" by blast
  then show ?case
  proof cases
    case 1
    then show ?thesis using 2 by (auto simp: ufmt_text.simps vprintf_loop.simps)
  next
    case b: 2
    then obtain cs where cs: "ufmt_text False fmt ap = Some cs" "bs = c0 # cs" using 2(4) by (auto simp: ufmt_text.simps)
    then show ?thesis
      using 2(2) [OF b cs(1), of "putc sys 1 c0 w"] b wrote_trans [OF putc_wrote [OF assms, of c0 w]]
      by (auto simp: vprintf_loop.simps)
  next
    case 3
    obtain b1 k a where c: "uconv_text c0 c1 c2 ap = Some (b1, k, a)"
      using 3 2(4) by (auto simp: ufmt_text.simps Let_def c1_def c2_def split: option.splits)
    obtain w1 where w1: "vprintf_conv sys 1 c0 c1 c2 ap w = Some (Ret (k, a) w1)" "wrote inp out b1 w w1"
      using vprintf_conv_wrote [OF assms c] by blast
    obtain cs where cs: "ufmt_text False (drop k fmt) (drop a ap) = Some cs" "bs = b1 @ cs"
      using 3 2(4) c unfolding c1_def c2_def by (simp add: ufmt_text.simps Let_def split: option.splits) blast
    have c2: "c2 = (if c1 \<noteq> 0 then at0 fmt 1 else 0)" by (simp add: c2_def)
    from 2(3) [OF _ c1_def c2 c refl refl cs(1), of w1] 3
    obtain w2 where "vprintf_loop sys 1 False (drop k fmt) (drop a ap) w1 = Some (Ret () w2)" "wrote inp out cs w1 w2"
      by blast
    moreover have "vprintf_loop sys 1 st (c0 # fmt) ap w
        = ubnd (vprintf_conv sys 1 c0 c1 c2 ap w) (\<lambda>(k, a) w. vprintf_loop sys 1 False (drop k fmt) (drop a ap) w)"
      using 3 unfolding c1_def c2_def by (simp add: vprintf_loop.simps Let_def)
    ultimately show ?thesis using w1 wrote_trans [OF w1(2)] unfolding cs(2) by auto
  qed
qed simp

lemma printf_u_wrote:
  assumes "stdio sys fd inp out" "ufmt_text False fmt ap = Some bs"
  shows "\<exists>w'. printf_u sys fmt ap w = Some (Ret () w') \<and> wrote inp out bs w w'"
  using vprintf_loop_wrote [OF assms] by (simp add: printf_u_def vprintf_def)

section \<open>Numbers\<close>

lemma uprint_buf_text:
  assumes "2 \<le> unat base" "unat base \<le> 16"
  shows "text_val (unat base) (rev (uprint_buf xx base sg))
    = (if sg \<and> sint xx < 0 then - (- sint xx mod 2 ^ 32) else uint xx mod 2 ^ 32)"
proof -
  note v = user_digits.digits_value [OF assms] and c = user_digits.digits_chars [OF assms]
  have m: "int (unat (ucast y :: uint)) = uint y mod 2 ^ 32" for y :: uint64
    by (simp add: unsigned_ucast_eq take_bit_eq_mod zmod_int)
  show ?thesis
  proof (cases "sg \<and> sint xx < 0")
    case True
    then have "uint (- xx) = - sint xx" using unat_neg_sint [of xx] by simp
    then show ?thesis using True c [of "ucast (- xx)"] m [of "- xx"]
      by (simp add: uprint_buf_def text_val_rev [OF _ _ digit_table_upper] v)
  next
    case False
    then have "uprint_buf xx base sg = uprint_digits (ucast xx) base" by (auto simp: uprint_buf_def)
    then have "text_val (unat base) (rev (uprint_buf xx base sg)) = uint xx mod 2 ^ 32"
      using c [of "ucast xx"] m [of xx] by (simp add: text_val_rev [OF _ _ digit_table_upper] v)
    then show ?thesis by (simp only: False if_False)
  qed
qed

lemma uprint_buf_fits: "base \<in> {10, 16} \<Longrightarrow> length (uprint_buf xx base sg) \<le> 11"
proof -
  assume b: "base \<in> {10, 16}"
  have l: "length (uprint_digits x base) \<le> 10" for x
  proof (rule user_digits.digits_length)
    have "unat x < 10 ^ 10" by (rule less_le_trans [OF unat_lt32]) simp
    then show "unat x < unat base ^ 10" using b by auto
  qed (use b in auto)
  show ?thesis using l [of "ucast xx"] l [of "ucast (- xx)"] by (simp add: uprint_buf_def Let_def)
qed

section \<open>Properties\<close>

text \<open>C31: the user library's \<open>printint\<close> prints the low 32 bits of its argument, in both bases and for every
  width of the argument: the text reads back as the argument, or the negated argument for a negative number
  printed as signed, reduced modulo \<open>2 ^ 32\<close>.  At most 11 of the 20 bytes of its buffer are used.\<close>

theorem printint_u_low_bits:
  assumes "stdio sys fd inp out" "base \<in> {10, 16}"
  shows "\<exists>cs. out (printint_u sys 1 xx base sg w) = out w @ cs \<and> length cs \<le> 11
    \<and> text_val (unat base) cs = (if sg \<and> sint xx < 0 then - (- sint xx mod 2 ^ 32) else uint xx mod 2 ^ 32)"
proof -
  have b: "2 \<le> unat base" "unat base \<le> 16" using assms(2) by auto
  show ?thesis
    using puts_wrote [OF assms(1), of "rev (uprint_buf xx base sg)" w] uprint_buf_fits [OF assms(2)] uprint_buf_text [OF b]
    by (intro exI [of _ "rev (uprint_buf xx base sg)"]) (simp add: printint_u_def wrote_def)
qed

text \<open>The address \<open>0x100000005\<close> printed in hexadecimal reads back as 5.\<close>

theorem printint_u_low_bits_witness:
  "\<exists>cs. snd (printint_u tape_sys 1 0x100000005 16 False ([], [])) = cs \<and> text_val 16 cs = 5"
  using printint_u_low_bits [OF stdio_tape, where base = 16 and xx = "0x100000005" and sg = False and w = "([], [])"] by simp

end
