(* ===== verification/Uprogs.thy ===== *)
theory Uprogs
  imports Stdio
begin

text \<open>
  Programs of the \<open>user\<close> directory: \<open>cat\<close>, \<open>wc\<close>, \<open>echo\<close>, \<open>kill\<close>, \<open>ln\<close>, \<open>mkdir\<close>, \<open>rm\<close>, \<open>sleep\<close>, \<open>zombie\<close>,
  \<open>init\<close>, \<open>ls\<close>, \<open>find\<close>, \<open>sixfive\<close> and \<open>memdump\<close>.  The definition \<open>x_main\<close> is the function \<open>main\<close> of \<open>x.c\<close>;
  \<open>argv\<close> is the list of its arguments, the name of the program included.  A read that returns \<open>n\<close> bytes has
  stored them at the start of the buffer.
\<close>

section \<open>Notation\<close>

definition ln_of :: "string \<Rightarrow> byte list" where "ln_of s = txt_of s @ [10]"

text \<open>A message on standard error and the end of the process.\<close>

definition fail :: "'w sys \<Rightarrow> byte list \<Rightarrow> varg list \<Rightarrow> 'w \<Rightarrow> ('a, 'w) prog" where
  "fail sys fmt ap w = ubnd (fprintf sys 2 fmt ap w) (\<lambda>_ w. uexit 1 w)"

fun each :: "('x \<Rightarrow> 'w \<Rightarrow> (unit, 'w) prog) \<Rightarrow> 'x list \<Rightarrow> 'w \<Rightarrow> (unit, 'w) prog" where
  "each f [] w = Some (Ret () w)"
| "each f (x # xs) w = ubnd (f x w) (\<lambda>_ w. each f xs w)"

text \<open>The common part of \<open>cat\<close>, \<open>wc\<close> and \<open>grep\<close>: every named file is opened, handled and closed.\<close>

definition with_file :: "'w sys \<Rightarrow> ('w \<Rightarrow> (unit, 'w) prog) \<Rightarrow> (int \<Rightarrow> 'w \<Rightarrow> (unit, 'w) prog) \<Rightarrow> byte list \<Rightarrow> 'w \<Rightarrow> (unit, 'w) prog" where
  "with_file sys err f name w =
    (case s_open sys name O_RDONLY w of (fd, w) \<Rightarrow>
     if fd < 0 then err w
     else ubnd (f fd w) (\<lambda>_ w. Some (Ret () (snd (s_close sys fd w)))))"

section \<open>cat\<close>

partial_function (option) cat :: "'w sys \<Rightarrow> int \<Rightarrow> 'w \<Rightarrow> (unit, 'w) prog" where
  "cat sys fd w =
    (case s_read sys fd 512 w of (n, bs, w) \<Rightarrow>
     if n > 0
     then case s_write sys 1 (take (nat n) bs) w of (r, w) \<Rightarrow>
       if r \<noteq> n then fail sys (ln_of ''cat: write error'') [] w else cat sys fd w
     else if n < 0 then fail sys (ln_of ''cat: read error'') [] w
     else Some (Ret () w))"

definition cat_main :: "'w sys \<Rightarrow> byte list list \<Rightarrow> 'w \<Rightarrow> (int, 'w) prog" where
  "cat_main sys argv w =
    (if length argv \<le> 1 then ubnd (cat sys 0 w) (\<lambda>_ w. uexit 0 w)
     else ubnd (each (\<lambda>a. with_file sys (\<lambda>w. fail sys (ln_of ''cat: cannot open %s'') [VStr (Some a)] w) (cat sys) a) (tl argv) w)
       (\<lambda>_ w. uexit 0 w))"

section \<open>wc\<close>

type_synonym counts = "uint \<times> uint \<times> uint \<times> bool"

definition wc_seps :: "byte list" where "wc_seps = [32, 13, 9, 10, 11]"

definition wc_byte :: "byte \<Rightarrow> counts \<Rightarrow> counts" where
  "wc_byte b k = (case k of (l, wd, c, inword) \<Rightarrow>
     let c = c + 1; l = (if b = 10 then l + 1 else l) in
     if strchr wc_seps b \<noteq> None then (l, wd, c, False)
     else if \<not> inword then (l, wd + 1, c, True) else (l, wd, c, inword))"

partial_function (option) wc_loop :: "'w sys \<Rightarrow> int \<Rightarrow> counts \<Rightarrow> 'w \<Rightarrow> (int \<times> counts, 'w) prog" where
  "wc_loop sys fd k w =
    (case s_read sys fd 512 w of (n, bs, w) \<Rightarrow>
     if n > 0 then wc_loop sys fd (fold wc_byte (take (nat n) bs) k) w else Some (Ret (n, k) w))"

definition wc :: "'w sys \<Rightarrow> int \<Rightarrow> byte list \<Rightarrow> 'w \<Rightarrow> (unit, 'w) prog" where
  "wc sys fd name w =
    ubnd (wc_loop sys fd (0, 0, 0, False) w) (\<lambda>(n, l, wd, c, inword) w.
    if n < 0 then ubnd (printf_u sys (ln_of ''wc: read error'') [] w) (\<lambda>_ w. uexit 1 w)
    else printf_u sys (ln_of ''%d %d %d %s'') [VWord (ucast l), VWord (ucast wd), VWord (ucast c), VStr (Some name)] w)"

definition wc_main :: "'w sys \<Rightarrow> byte list list \<Rightarrow> 'w \<Rightarrow> (int, 'w) prog" where
  "wc_main sys argv w =
    (if length argv \<le> 1 then ubnd (wc sys 0 [] w) (\<lambda>_ w. uexit 0 w)
     else ubnd (each (\<lambda>a. with_file sys
         (\<lambda>w. ubnd (printf_u sys (ln_of ''wc: cannot open %s'') [VStr (Some a)] w) (\<lambda>_ w. uexit 1 w))
         (\<lambda>fd. wc sys fd a) a) (tl argv) w)
       (\<lambda>_ w. uexit 0 w))"

section \<open>Programs without input\<close>

fun echo_args :: "'w sys \<Rightarrow> byte list list \<Rightarrow> 'w \<Rightarrow> 'w" where
  "echo_args sys [] w = w"
| "echo_args sys (a # as) w =
    (let w = snd (s_write sys 1 a w);
         w = (if as \<noteq> [] then snd (s_write sys 1 [32] w) else snd (s_write sys 1 [10] w)) in
     echo_args sys as w)"

definition echo_main :: "'w sys \<Rightarrow> byte list list \<Rightarrow> 'w \<Rightarrow> (int, 'w) prog" where
  "echo_main sys argv w = uexit 0 (echo_args sys (tl argv) w)"

definition kill_main :: "'w sys \<Rightarrow> byte list list \<Rightarrow> 'w \<Rightarrow> (int, 'w) prog" where
  "kill_main sys argv w =
    (if length argv < 2 then fail sys (ln_of ''usage: kill pid...'') [] w
     else uexit 0 (fold (\<lambda>a w. snd (s_kill sys (atoi a) w)) (tl argv) w))"

definition ln_main :: "'w sys \<Rightarrow> byte list list \<Rightarrow> 'w \<Rightarrow> (int, 'w) prog" where
  "ln_main sys argv w =
    (if length argv \<noteq> 3 then fail sys (ln_of ''Usage: ln old new'') [] w
     else case s_link sys (argv ! 1) (argv ! 2) w of (r, w) \<Rightarrow>
       ubnd (if r < 0 then fprintf sys 2 (ln_of ''link %s %s: failed'') [VStr (Some (argv ! 1)), VStr (Some (argv ! 2))] w
             else Some (Ret () w))
         (\<lambda>_ w. uexit 0 w))"

text \<open>The loops of \<open>mkdir\<close> and \<open>rm\<close> stop at the first failure.\<close>

fun until_failure :: "'w sys \<Rightarrow> (byte list \<Rightarrow> 'w \<Rightarrow> int \<times> 'w) \<Rightarrow> byte list \<Rightarrow> byte list list \<Rightarrow> 'w \<Rightarrow> (unit, 'w) prog" where
  "until_failure sys f msg [] w = Some (Ret () w)"
| "until_failure sys f msg (a # as) w =
    (case f a w of (r, w) \<Rightarrow>
     if r < 0 then fprintf sys 2 msg [VStr (Some a)] w else until_failure sys f msg as w)"

definition mkdir_main :: "'w sys \<Rightarrow> byte list list \<Rightarrow> 'w \<Rightarrow> (int, 'w) prog" where
  "mkdir_main sys argv w =
    (if length argv < 2 then fail sys (ln_of ''Usage: mkdir files...'') [] w
     else ubnd (until_failure sys (s_mkdir sys) (ln_of ''mkdir: %s failed to create'') (tl argv) w) (\<lambda>_ w. uexit 0 w))"

definition rm_main :: "'w sys \<Rightarrow> byte list list \<Rightarrow> 'w \<Rightarrow> (int, 'w) prog" where
  "rm_main sys argv w =
    (if length argv < 2 then fail sys (ln_of ''Usage: rm files...'') [] w
     else ubnd (until_failure sys (s_unlink sys) (ln_of ''rm: %s failed to delete'') (tl argv) w) (\<lambda>_ w. uexit 0 w))"

definition sleep_main :: "'w sys \<Rightarrow> byte list list \<Rightarrow> 'w \<Rightarrow> (int, 'w) prog" where
  "sleep_main sys argv w =
    (if length argv \<noteq> 2 then fail sys (ln_of ''Usage: sleep ticks'') [] w
     else let ticks = atoi (argv ! 1) in
       if ticks < 0 then fail sys (ln_of ''sleep: ticks must be non-negative'') [] w
       else uexit 0 (snd (s_pause sys ticks w)))"

definition zombie_main :: "'w sys \<Rightarrow> 'w \<Rightarrow> (int, 'w) prog" where
  "zombie_main sys w =
    (case s_fork sys w of (pid, w) \<Rightarrow> uexit 0 (if pid > 0 then snd (s_pause sys 5 w) else w))"

section \<open>init\<close>

partial_function (option) init_wait :: "'w sys \<Rightarrow> int \<Rightarrow> 'w \<Rightarrow> (unit, 'w) prog" where
  "init_wait sys pid w =
    (case s_wait sys w of (wpid, w) \<Rightarrow>
     if wpid = pid then Some (Ret () w)
     else if wpid < 0 then ubnd (printf_u sys (ln_of ''init: wait returned an error'') [] w) (\<lambda>_ w. uexit 1 w)
     else init_wait sys pid w)"

partial_function (option) init_loop :: "'w sys \<Rightarrow> 'w \<Rightarrow> (int, 'w) prog" where
  "init_loop sys w =
    ubnd (printf_u sys (ln_of ''init: starting sh'') [] w) (\<lambda>_ w.
    case s_fork sys w of (pid, w) \<Rightarrow>
    if pid < 0 then ubnd (printf_u sys (ln_of ''init: fork failed'') [] w) (\<lambda>_ w. uexit 1 w)
    else if pid = 0
    then ubnd (uexec sys (txt_of ''sh'') [txt_of ''sh''] w) (\<lambda>_ w.
      ubnd (printf_u sys (ln_of ''init: exec sh failed'') [] w) (\<lambda>_ w. uexit 1 w))
    else ubnd (init_wait sys pid w) (\<lambda>_ w. init_loop sys w))"

definition init_main :: "'w sys \<Rightarrow> 'w \<Rightarrow> (int, 'w) prog" where
  "init_main sys w =
    (case s_open sys (txt_of ''console'') O_RDWR w of (r, w) \<Rightarrow>
     let w = (if r < 0 then snd (s_open sys (txt_of ''console'') O_RDWR (snd (s_mknod sys (txt_of ''console'') 1 0 w))) else w);
         w = snd (s_dup sys 0 w);
         w = snd (s_dup sys 0 w) in
     init_loop sys w)"

section \<open>ls\<close>

text \<open>The position after the last slash, searched for from the end of a path.\<close>

fun base_from :: "byte list \<Rightarrow> nat \<Rightarrow> nat" where
  "base_from path 0 = 0"
| "base_from path (Suc p) = (if path ! p = 47 then Suc p else base_from path p)"

definition fmtname :: "byte list \<Rightarrow> byte list" where
  "fmtname path =
    (let p = drop (base_from path (length path)) path in
     if length p \<ge> DIRSIZ then p else p @ replicate (DIRSIZ - length p) 32)"

definition ls_line :: "'w sys \<Rightarrow> byte list \<Rightarrow> stat \<Rightarrow> 'w \<Rightarrow> (unit, 'w) prog" where
  "ls_line sys path st w = printf_u sys (ln_of ''%s %d %d %d'')
    [VStr (Some (fmtname path)), VWord (scast (st_type st)), VWord (ucast (st_ino st)), VWord (st_size st)] w"

text \<open>The loop over the entries; \<open>pre\<close> is the path with a slash, \<open>st\<close> the variable the calls of \<open>stat\<close> fill.\<close>

partial_function (option) ls_dir :: "'w sys \<Rightarrow> int \<Rightarrow> byte list \<Rightarrow> stat \<Rightarrow> 'w \<Rightarrow> (unit, 'w) prog" where
  "ls_dir sys fd pre st w =
    (case s_read sys fd DIRENT_SIZE w of (n, de, w) \<Rightarrow>
     if n = int DIRENT_SIZE
     then if de_inum de = 0 then ls_dir sys fd pre st w
       else let buf = pre @ cstr (de_name de) in
         case stat_u sys buf st w of (r, st, w) \<Rightarrow>
         if r < 0 then ubnd (printf_u sys (ln_of ''ls: cannot stat %s'') [VStr (Some buf)] w) (\<lambda>_ w. ls_dir sys fd pre st w)
         else ubnd (ls_line sys buf st w) (\<lambda>_ w. ls_dir sys fd pre st w)
     else Some (Ret () w))"

definition ls :: "'w sys \<Rightarrow> byte list \<Rightarrow> 'w \<Rightarrow> (unit, 'w) prog" where
  "ls sys path w =
    (case s_open sys path O_RDONLY w of (fd, w) \<Rightarrow>
     if fd < 0 then fprintf sys 2 (ln_of ''ls: cannot open %s'') [VStr (Some path)] w
     else case s_fstat sys fd w of (r, st, w) \<Rightarrow>
       if r < 0
       then ubnd (fprintf sys 2 (ln_of ''ls: cannot stat %s'') [VStr (Some path)] w) (\<lambda>_ w. Some (Ret () (snd (s_close sys fd w))))
       else ubnd (if st_type st = T_DEVICE \<or> st_type st = T_FILE then ls_line sys path st w
             else if st_type st = T_DIR
             then if strlen_u path + 1 + DIRSIZ + 1 > 512 then printf_u sys (ln_of ''ls: path too long'') [] w
               else ls_dir sys fd (path @ [47]) st w
             else Some (Ret () w))
         (\<lambda>_ w. Some (Ret () (snd (s_close sys fd w)))))"

definition ls_main :: "'w sys \<Rightarrow> byte list list \<Rightarrow> 'w \<Rightarrow> (int, 'w) prog" where
  "ls_main sys argv w =
    (if length argv < 2 then ubnd (ls sys (txt_of ''.'') w) (\<lambda>_ w. uexit 0 w)
     else ubnd (each (ls sys) (tl argv) w) (\<lambda>_ w. uexit 0 w))"


section \<open>What they print\<close>

text \<open>C28: \<open>cat\<close> copies a file to standard output.  However the kernel cuts the file into reads, \<open>cat\<close> ends
  and has appended exactly the bytes of the file, in order, to its output.\<close>

theorem cat_copies:
  assumes "stdio sys fd inp out"
  shows "\<exists>w'. cat sys fd w = Some (Ret () w') \<and> inp w' = [] \<and> out w' = out w @ inp w"
proof (induction "length (inp w)" arbitrary: w rule: less_induct)
  case less
  obtain n u where r: "s_read sys fd 512 w = (int n, take n (inp w), u)" "n \<le> length (inp w)"
    "n = 0 \<Longrightarrow> inp w = []" "inp u = drop n (inp w)" "out u = out w"
    by (rule stdio_read [OF assms, of 512 w]) auto
  show ?case
  proof (cases "n = 0")
    case True
    then show ?thesis using r by (subst cat.simps) auto
  next
    case False
    obtain v where v: "s_write sys 1 (take n (inp w)) u = (int (length (take n (inp w))), v)" "inp v = inp u"
        "out v = out u @ take n (inp w)"
      by (rule stdio_write [OF assms])
    have "length (inp v) < length (inp w)" using v(2) r(2,4) False by simp
    from less [OF this] obtain w' where w': "cat sys fd v = Some (Ret () w')" "inp w' = []" "out w' = out v @ inp v" by blast
    have "cat sys fd w = cat sys fd v" using r(1,2) v(1) False by (subst cat.simps) simp
    moreover have "out w' = out w @ inp w" using w'(3) v(2,3) r(4,5) by simp
    ultimately show ?thesis using w'(1,2) by simp
  qed
qed

theorem cat_copies_witness:
  "\<exists>w'. cat tape_sys 0 ([104, 101, 108, 108, 111], []) = Some (Ret () w') \<and> snd w' = [104, 101, 108, 108, 111]"
  using cat_copies [OF stdio_tape, of 0 "([104, 101, 108, 108, 111], [])"] by simp

text \<open>
  What \<open>wc\<close> counts: a word starts at every byte that is no separator and follows a separator or nothing.
\<close>

definition wc_words :: "byte list \<Rightarrow> nat" where
  "wc_words bs = length (filter (\<lambda>i. bs ! i \<notin> set wc_seps \<and> (i = 0 \<or> bs ! (i - 1) \<in> set wc_seps)) [0..<length bs])"

lemma strchr_set: "strchr s c = None \<longleftrightarrow> c \<notin> set s"
  by (induction s) auto

lemma wc_words_snoc:
  "wc_words (bs @ [b]) = wc_words bs + (if b \<notin> set wc_seps \<and> (bs = [] \<or> last bs \<in> set wc_seps) then 1 else 0)"
proof -
  have "filter (\<lambda>i. (bs @ [b]) ! i \<notin> set wc_seps \<and> (i = 0 \<or> (bs @ [b]) ! (i - 1) \<in> set wc_seps)) [0..<length bs]
      = filter (\<lambda>i. bs ! i \<notin> set wc_seps \<and> (i = 0 \<or> bs ! (i - 1) \<in> set wc_seps)) [0..<length bs]"
    by (rule filter_cong) (auto simp: nth_append)
  moreover have "bs \<noteq> [] \<Longrightarrow> last bs = bs ! (length bs - 1)" by (rule last_conv_nth)
  ultimately show ?thesis by (cases "bs = []") (auto simp: wc_words_def nth_append)
qed

definition wc_counts :: "byte list \<Rightarrow> counts" where
  "wc_counts bs = (of_nat (count_list bs 10), of_nat (wc_words bs), of_nat (length bs), bs \<noteq> [] \<and> last bs \<notin> set wc_seps)"

lemma wc_byte_snoc: "wc_byte b (wc_counts bs) = wc_counts (bs @ [b])"
  by (auto simp: wc_byte_def wc_counts_def wc_words_snoc strchr_set Let_def)

lemma wc_byte_fold: "fold wc_byte cs (wc_counts bs) = wc_counts (bs @ cs)"
proof (induction cs arbitrary: bs)
  case (Cons c cs)
  then show ?case using Cons [of "bs @ [c]"] by (simp add: wc_byte_snoc)
qed simp

lemma wc_loop_counts:
  assumes "stdio sys fd inp out"
  shows "\<exists>w'. wc_loop sys fd (wc_counts bs) w = Some (Ret (0, wc_counts (bs @ inp w)) w') \<and> inp w' = [] \<and> out w' = out w"
proof (induction "length (inp w)" arbitrary: w bs rule: less_induct)
  case less
  obtain n u where r: "s_read sys fd 512 w = (int n, take n (inp w), u)" "n \<le> length (inp w)"
    "n = 0 \<Longrightarrow> inp w = []" "inp u = drop n (inp w)" "out u = out w"
    by (rule stdio_read [OF assms, of 512 w]) auto
  show ?case
  proof (cases "n = 0")
    case True
    then show ?thesis using r by (subst wc_loop.simps) auto
  next
    case False
    have "length (inp u) < length (inp w)" using r(2,4) False by simp
    from less [OF this, of "bs @ take n (inp w)"] obtain w' where
      "wc_loop sys fd (wc_counts (bs @ take n (inp w))) u = Some (Ret (0, wc_counts (bs @ inp w)) w')" "inp w' = []" "out w' = out u"
      by (auto simp: r(4))
    moreover have "wc_loop sys fd (wc_counts bs) w = wc_loop sys fd (wc_counts (bs @ take n (inp w))) u"
      using r(1) False by (subst wc_loop.simps) (simp add: wc_byte_fold)
    ultimately show ?thesis using r(5) by simp
  qed
qed

text \<open>C29: \<open>wc\<close> prints the numbers of lines, words and bytes of the whole file, whatever the sizes of the reads.
  Words are maximal runs of bytes other than the separators, also when a run is cut by two reads.\<close>

theorem wc_prints_counts:
  assumes "stdio sys fd inp out"
    and "ufmt_text False (ln_of ''%d %d %d %s'')
      [VWord (ucast (of_nat (count_list (inp w) 10) :: uint)), VWord (ucast (of_nat (wc_words (inp w)) :: uint)),
       VWord (ucast (of_nat (length (inp w)) :: uint)), VStr (Some name)] = Some text"
  shows "\<exists>w'. wc sys fd name w = Some (Ret () w') \<and> out w' = out w @ text"
proof -
  have "wc_counts [] = (0, 0, 0, False)" by (simp add: wc_counts_def wc_words_def)
  then obtain u where u: "wc_loop sys fd (0, 0, 0, False) w = Some (Ret (0, wc_counts (inp w)) u)" "out u = out w"
    using wc_loop_counts [OF assms(1), of "[]" w] by auto
  obtain w' where "printf_u sys (ln_of ''%d %d %d %s'')
      [VWord (ucast (of_nat (count_list (inp w) 10) :: uint)), VWord (ucast (of_nat (wc_words (inp w)) :: uint)),
       VWord (ucast (of_nat (length (inp w)) :: uint)), VStr (Some name)] u = Some (Ret () w')" "out w' = out u @ text"
    using printf_u_wrote [OF assms, of u] by (auto simp: wrote_def)
  then show ?thesis using u by (simp add: wc_def wc_counts_def)
qed

text \<open>Two lines of three words in 14 bytes.\<close>

theorem wc_prints_counts_witness:
  "\<exists>w'. wc tape_sys 0 (txt_of ''f'') (txt_of ''one two'' @ [10] @ txt_of ''three'' @ [10], []) = Some (Ret () w')
    \<and> snd w' = txt_of ''2 3 14 f'' @ [10]"
proof -
  let ?i = "txt_of ''one two'' @ [10] @ txt_of ''three'' @ [10]"
  have d: "uprint_digits 2 10 = [50]" "uprint_digits 3 10 = [51]" "uprint_digits 14 10 = [52, 49]"
    by (simp_all add: uprint_digits.simps upper_digits_eq)
  have "ufmt_text False (ln_of ''%d %d %d %s'')
      [VWord (ucast (of_nat (count_list ?i 10) :: uint)), VWord (ucast (of_nat (wc_words ?i) :: uint)),
       VWord (ucast (of_nat (length ?i) :: uint)), VStr (Some (txt_of ''f''))] = Some (txt_of ''2 3 14 f'' @ [10])"
    by (simp add: ln_of_def txt_of_def chr_def ufmt_text.simps uconv_text_def at0_def uprint_buf_def int_arg_def d
        wc_words_def wc_seps_def upt_rec_numeral upt_conv_Cons)
  from wc_prints_counts [OF stdio_tape, where w = "(?i, [])", unfolded fst_conv, OF this] show ?thesis by simp
qed

end
