(* ===== verification/Grep.thy ===== *)
theory Grep
  imports Uprogs
begin

text \<open>
  The pattern search of \<open>user/grep.c\<close>: the matcher with the operators \<open>^ . * $\<close> and the loop that cuts the input
  into lines.  The matcher is compared with the languages its patterns denote, and the loop with the list of
  matching lines of the input.
\<close>

section \<open>The matcher\<close>

function matchhere :: "byte list \<Rightarrow> byte list \<Rightarrow> bool" and matchstar :: "byte \<Rightarrow> byte list \<Rightarrow> byte list \<Rightarrow> bool" where
  "matchhere re text =
    (if re = [] then True
     else if at0 re 1 = chr CHR ''*'' then matchstar (re ! 0) (drop 2 re) text
     else if re ! 0 = chr CHR ''$'' \<and> at0 re 1 = 0 then text = []
     else if text \<noteq> [] \<and> (re ! 0 = chr CHR ''.'' \<or> re ! 0 = text ! 0) then matchhere (tl re) (tl text)
     else False)"
| "matchstar c re text =
    (if matchhere re text then True
     else if text \<noteq> [] \<and> (text ! 0 = c \<or> c = chr CHR ''.'') then matchstar c re (tl text)
     else False)"
  by pat_completeness auto
termination
  by (relation "inv_image (less_than <*lex*> less_than <*lex*> less_than)
      (\<lambda>x. case x of Inl (re, text) \<Rightarrow> (length re, length text, 0 :: nat) | Inr (c, re, text) \<Rightarrow> (length re, length text, 1))") auto

declare matchhere.simps [simp del] matchstar.simps [simp del]

fun match_from :: "byte list \<Rightarrow> byte list \<Rightarrow> bool" where
  "match_from re [] = matchhere re []"
| "match_from re (t # text) = (if matchhere re (t # text) then True else match_from re text)"

definition match :: "byte list \<Rightarrow> byte list \<Rightarrow> bool" where
  "match re text = (if at0 re 0 = chr CHR ''^'' then matchhere (tl re) text else match_from re text)"

section \<open>Lines\<close>

lemma strchr_bound: "strchr s c = Some i \<Longrightarrow> i < length s \<and> s ! i = c"
  by (induction s arbitrary: i) (auto split: if_splits)

text \<open>
  The inner loop: the lines that are complete in the buffer; the result is what remains of it.  The C string at
  \<open>p\<close> ends at the first NUL of the buffer.
\<close>

function grep_lines :: "'w sys \<Rightarrow> byte list \<Rightarrow> byte list \<Rightarrow> 'w \<Rightarrow> byte list \<times> 'w" where
  "grep_lines sys pattern p w =
    (case strchr (cstr p) 10 of
      None \<Rightarrow> (p, w)
    | Some q \<Rightarrow> grep_lines sys pattern (drop (q + 1) p)
        (if match pattern (take q p) then snd (s_write sys 1 (take (q + 1) p) w) else w))"
  by pat_completeness auto

termination
proof (relation "measure (\<lambda>(_, _, p, _). length p)")
  fix sys :: "'w sys" and pattern p :: "byte list" and w :: 'w and q
  assume "strchr (cstr p) 10 = Some q"
  then have "q < length p" using strchr_bound length_cstr_le [of p] by fastforce
  then show "((sys, pattern, drop (q + 1) p,
      if match pattern (take q p) then snd (s_write sys 1 (take (q + 1) p) w) else w), sys, pattern, p, w)
    \<in> measure (\<lambda>(_, _, p, _). length p)" by simp
qed simp

declare grep_lines.simps [simp del]

partial_function (option) grep_loop :: "'w sys \<Rightarrow> byte list \<Rightarrow> int \<Rightarrow> byte list \<Rightarrow> 'w \<Rightarrow> (unit, 'w) prog" where
  "grep_loop sys pattern fd buf w =
    (case s_read sys fd (1024 - length buf - 1) w of (n, bs, w) \<Rightarrow>
     if n > 0
     then case grep_lines sys pattern (buf @ take (nat n) bs) w of (rest, w) \<Rightarrow> grep_loop sys pattern fd rest w
     else Some (Ret () w))"

definition grep :: "'w sys \<Rightarrow> byte list \<Rightarrow> int \<Rightarrow> 'w \<Rightarrow> (unit, 'w) prog" where
  "grep sys pattern fd w = grep_loop sys pattern fd [] w"

definition grep_main :: "'w sys \<Rightarrow> byte list list \<Rightarrow> 'w \<Rightarrow> (int, 'w) prog" where
  "grep_main sys argv w =
    (if length argv \<le> 1 then fail sys (ln_of ''usage: grep pattern [file ...]'') [] w
     else let pattern = argv ! 1 in
       if length argv \<le> 2 then ubnd (grep sys pattern 0 w) (\<lambda>_ w. uexit 0 w)
       else ubnd (each (\<lambda>a. with_file sys
           (\<lambda>w. ubnd (printf_u sys (ln_of ''grep: cannot open %s'') [VStr (Some a)] w) (\<lambda>_ w. uexit 1 w))
           (grep sys pattern) a) (drop 2 argv) w)
         (\<lambda>_ w. uexit 0 w))"

section \<open>Running the matcher\<close>

lemma matchhere_Nil: "matchhere [] tx = True"
  by (subst matchhere.simps) simp

lemma matchhere_run:
  "matchhere [c] tx = (if c = 36 then tx = [] else tx \<noteq> [] \<and> (c = 46 \<or> c = tx ! 0))"
  "matchhere (c # 42 # re) tx = matchstar c re tx"
  "d \<noteq> 42 \<Longrightarrow> d \<noteq> 0 \<Longrightarrow> matchhere (c # d # re) tx = (tx \<noteq> [] \<and> (c = 46 \<or> c = tx ! 0) \<and> matchhere (d # re) (tl tx))"
  by (subst matchhere.simps, simp add: at0_def chr_def matchhere_Nil)+

lemma matchstar_run:
  "matchstar c re [] = matchhere re []"
  "matchstar c re (t # ts) = (matchhere re (t # ts) \<or> (t = c \<or> c = 46) \<and> matchstar c re ts)"
  by (subst matchstar.simps, simp add: chr_def)+

section \<open>Languages\<close>

text \<open>
  A pattern is a sequence of items, one character or any number of them, and may be anchored at the end.  The
  language of a pattern is the set of strings it matches completely.
\<close>

datatype item = One byte | Many byte

definition fits :: "byte \<Rightarrow> byte \<Rightarrow> bool" where "fits c x \<longleftrightarrow> x = c \<or> c = 46"

fun items :: "byte list \<Rightarrow> item list \<times> bool" where
  "items [] = ([], False)"
| "items [c] = (if c = 36 then ([], True) else ([One c], False))"
| "items (c # d # re) =
    (if d = 42 then (let (is, e) = items re in (Many c # is, e)) else (let (is, e) = items (d # re) in (One c # is, e)))"

fun item_lang :: "item \<Rightarrow> byte list set" where
  "item_lang (One c) = {[x] | x. fits c x}"
| "item_lang (Many c) = {xs. \<forall>x \<in> set xs. fits c x}"

fun lang :: "item list \<Rightarrow> byte list set" where
  "lang [] = {[]}"
| "lang (i # is) = {u @ v | u v. u \<in> item_lang i \<and> v \<in> lang is}"

text \<open>A pattern without the anchor at the start found at the beginning of a text, and anywhere in it.\<close>

definition begins :: "byte list \<Rightarrow> byte list \<Rightarrow> bool" where
  "begins re text \<longleftrightarrow> (\<exists>u v. text = u @ v \<and> u \<in> lang (fst (items re)) \<and> (snd (items re) \<longrightarrow> v = []))"

definition found :: "byte list \<Rightarrow> byte list \<Rightarrow> bool" where
  "found re text \<longleftrightarrow> (case re of c # re' \<Rightarrow> if c = 94 then begins re' text else (\<exists>u v. text = u @ v \<and> begins re v)
     | [] \<Rightarrow> True)"

text \<open>\<open>pre is P text\<close>: a prefix of the text is in the language and the rest satisfies \<open>P\<close>.\<close>

definition pre :: "item list \<Rightarrow> (byte list \<Rightarrow> bool) \<Rightarrow> byte list \<Rightarrow> bool" where
  "pre is P tx \<longleftrightarrow> (\<exists>u v. tx = u @ v \<and> u \<in> lang is \<and> P v)"

lemma pre_Nil [simp]: "pre [] P tx = P tx"
  by (simp add: pre_def)

lemma pre_Cons: "pre (i # is) P tx \<longleftrightarrow> (\<exists>u v. tx = u @ v \<and> u \<in> item_lang i \<and> pre is P v)"
proof
  assume "pre (i # is) P tx"
  then obtain u v w where "tx = u @ v @ w" "u \<in> item_lang i" "v \<in> lang is" "P w" by (auto simp: pre_def)
  then show "\<exists>u v. tx = u @ v \<and> u \<in> item_lang i \<and> pre is P v" unfolding pre_def by blast
next
  assume "\<exists>u v. tx = u @ v \<and> u \<in> item_lang i \<and> pre is P v"
  then obtain u v w where t: "tx = u @ v @ w" "u \<in> item_lang i" "v \<in> lang is" "P w" unfolding pre_def by blast
  then have "u @ v \<in> lang (i # is)" by auto
  moreover have "tx = (u @ v) @ w" using t(1) by simp
  ultimately show "pre (i # is) P tx" using t(4) unfolding pre_def by blast
qed

lemma pre_One: "pre (One c # is) P tx \<longleftrightarrow> (case tx of [] \<Rightarrow> False | t # ts \<Rightarrow> fits c t \<and> pre is P ts)"
proof (cases tx)
  case (Cons t ts)
  have "(\<exists>u v. t # ts = u @ v \<and> u \<in> item_lang (One c) \<and> pre is P v) \<longleftrightarrow> fits c t \<and> pre is P ts"
    by (auto simp: Cons_eq_append_conv intro: exI [of _ "[t]"] exI [of _ ts])
  then show ?thesis by (simp add: pre_Cons Cons del: item_lang.simps)
qed (simp add: pre_Cons)

lemma pre_Many: "pre (Many c # is) P tx \<longleftrightarrow> pre is P tx \<or> (case tx of [] \<Rightarrow> False | t # ts \<Rightarrow> fits c t \<and> pre (Many c # is) P ts)"
proof -
  have "(\<exists>u v. tx = u @ v \<and> (\<forall>x \<in> set u. fits c x) \<and> pre is P v) \<longleftrightarrow> pre is P tx
      \<or> (\<exists>t ts. tx = t # ts \<and> fits c t \<and> (\<exists>u v. ts = u @ v \<and> (\<forall>x \<in> set u. fits c x) \<and> pre is P v))"
    (is "?L \<longleftrightarrow> _ \<or> ?B")
  proof
    assume ?L
    then obtain u v where u: "tx = u @ v" "\<forall>x \<in> set u. fits c x" "pre is P v" by blast
    then show "pre is P tx \<or> ?B" by (cases u) auto
  next
    assume "pre is P tx \<or> ?B"
    then show ?L
    proof
      assume "pre is P tx"
      then show ?L by (intro exI [of _ "[]"] exI [of _ tx]) simp
    next
      assume ?B
      then obtain t u v where "tx = t # u @ v" "fits c t" "\<forall>x \<in> set u. fits c x" "pre is P v" by blast
      then show ?L by (intro exI [of _ "t # u"] exI [of _ v]) simp
    qed
  qed
  then show ?thesis by (auto simp: pre_Cons split: list.splits)
qed

lemma chr_ops: "chr CHR ''*'' = 42" "chr CHR ''$'' = 36" "chr CHR ''.'' = 46" "chr CHR ''^'' = 94"
  by (simp_all add: chr_def)

lemma matchstar_pre:
  assumes "\<And>tx. matchhere re tx = pre is P tx"
  shows "matchstar c re tx = pre (Many c # is) P tx"
proof (induction tx)
  case Nil
  show ?case by (subst matchstar.simps, subst pre_Many) (simp add: assms)
next
  case (Cons t ts)
  then show ?case by (subst matchstar.simps, subst pre_Many) (auto simp: assms chr_ops fits_def)
qed

text \<open>A NUL byte is no character of a C string; the pattern is the list of the bytes before it.\<close>

lemma matchhere_begins: "0 \<notin> set re \<Longrightarrow> matchhere re tx = begins re tx"
proof -
  let ?P = "\<lambda>re v. snd (items re) \<longrightarrow> v = []"
  have "0 \<notin> set re \<Longrightarrow> matchhere re tx = pre (fst (items re)) (?P re) tx" for tx
  proof (induction re arbitrary: tx rule: items.induct)
    case 1
    show ?case by (subst matchhere.simps) simp
  next
    case (2 c)
    show ?case
      by (subst matchhere.simps) (auto simp: at0_def chr_ops pre_One fits_def matchhere.simps split: list.splits)
  next
    case (3 c d re)
    show ?case
    proof (cases "d = 42")
      case True
      have "matchhere re tx = pre (fst (items re)) (?P re) tx" for tx using 3(1) [OF True] 3(3) by simp
      then have "matchstar c re tx = pre (Many c # fst (items re)) (?P re) tx" by (rule matchstar_pre)
      then show ?thesis using True by (subst matchhere.simps) (simp add: at0_def chr_ops split: prod.splits)
    next
      case False
      have IH: "matchhere (d # re) tx = pre (fst (items (d # re))) (?P (d # re)) tx" for tx using 3(2) [OF False] 3(3) by simp
      have "d \<noteq> 0" using 3(3) by auto
      then have "matchhere (c # d # re) tx = (tx \<noteq> [] \<and> fits c (tx ! 0) \<and> matchhere (d # re) (tl tx))"
        using False by (subst matchhere.simps) (auto simp: at0_def chr_ops fits_def)
      moreover have "items (c # d # re) = (One c # fst (items (d # re)), snd (items (d # re)))"
        using False by (simp split: prod.splits)
      ultimately show ?thesis by (simp add: IH pre_One split: list.splits)
    qed
  qed
  then show "0 \<notin> set re \<Longrightarrow> ?thesis" by (simp add: begins_def pre_def)
qed

lemma match_from_begins:
  assumes "0 \<notin> set re"
  shows "match_from re tx \<longleftrightarrow> (\<exists>u v. tx = u @ v \<and> begins re v)"
proof (induction tx)
  case Nil
  show ?case using matchhere_begins [OF assms] by simp
next
  case (Cons t ts)
  have "(\<exists>u v. t # ts = u @ v \<and> begins re v) \<longleftrightarrow> begins re (t # ts) \<or> (\<exists>u v. ts = u @ v \<and> begins re v)"
    by (auto simp: Cons_eq_append_conv)
  then show ?case using Cons matchhere_begins [OF assms] by simp
qed

section \<open>Splitting into lines\<close>

text \<open>The complete lines of an input, without their newlines, and the bytes after the last newline.\<close>

fun cut_lines :: "byte list \<Rightarrow> byte list list \<times> byte list" where
  "cut_lines [] = ([], [])"
| "cut_lines (c # cs) = (case cut_lines cs of (lns, r) \<Rightarrow>
     if c = 10 then ([] # lns, r) else (case lns of [] \<Rightarrow> ([], c # r) | l # lns \<Rightarrow> ((c # l) # lns, r)))"

definition matching :: "byte list \<Rightarrow> byte list list \<Rightarrow> byte list" where
  "matching pattern lns = concat (map (\<lambda>l. if match pattern l then l @ [10] else []) lns)"

lemma cut_lines_none: "10 \<notin> set cs \<Longrightarrow> cut_lines cs = ([], cs)"
  by (induction cs) auto

lemma cut_lines_line: "10 \<notin> set l \<Longrightarrow> cut_lines (l @ 10 # cs) = (l # fst (cut_lines cs), snd (cut_lines cs))"
  by (induction l) (auto split: prod.splits)

lemma cut_lines_append:
  "cut_lines (as @ bs) = (fst (cut_lines as) @ fst (cut_lines (snd (cut_lines as) @ bs)), snd (cut_lines (snd (cut_lines as) @ bs)))"
proof (induction "length as" arbitrary: as rule: less_induct)
  case less
  show ?case
  proof (cases "10 \<in> set as")
    case False
    then show ?thesis by (simp add: cut_lines_none)
  next
    case True
    then obtain l cs where l: "as = l @ 10 # cs" "10 \<notin> set l" by (meson split_list_first)
    then have "length cs < length as" by simp
    from less [OF this] show ?thesis using l by (simp add: cut_lines_line)
  qed
qed

lemma cut_lines_rest: "10 \<notin> set (snd (cut_lines cs)) \<and> (\<exists>as. cs = as @ snd (cut_lines cs))"
proof (induction cs)
  case (Cons c cs)
  obtain lns r where e: "cut_lines cs = (lns, r)" by fastforce
  obtain as where as: "cs = as @ r" "10 \<notin> set r" using Cons e by auto
  show ?case
  proof (cases "c = 10 \<or> lns \<noteq> []")
    case True
    then have "snd (cut_lines (c # cs)) = r" using e by (auto split: list.splits)
    then show ?thesis using as by (metis append_Cons)
  next
    case False
    then have "snd (cut_lines (c # cs)) = c # r" using e by simp
    moreover have "as = []" if "cs = r" using as that by simp
    moreover have "cs = r" using e False cut_lines_none [of cs] Cons by (cases "10 \<in> set cs") (auto dest!: split_list_first simp: cut_lines_line)
    ultimately show ?thesis using as False by auto
  qed
qed simp

lemma strchr_first:
  assumes "10 \<notin> set l"
  shows "strchr (l @ 10 # cs) 10 = Some (length l)"
  using assms by (induction l) auto

lemma grep_lines_spec:
  assumes s: "stdio sys fd inp out" and "0 \<notin> set p"
  shows "\<exists>w'. grep_lines sys pattern p w = (snd (cut_lines p), w') \<and> inp w' = inp w
    \<and> out w' = out w @ matching pattern (fst (cut_lines p))"
  using assms(2)
proof (induction "length p" arbitrary: p w rule: less_induct)
  case less
  have cp: "cstr p = p" using less.prems by (rule cstr_id)
  show ?case
  proof (cases "10 \<in> set p")
    case False
    then have "strchr (cstr p) 10 = None" by (simp add: strchr_set cp)
    then show ?thesis using False by (subst grep_lines.simps) (simp add: cut_lines_none matching_def)
  next
    case True
    then obtain l cs where l: "p = l @ 10 # cs" "10 \<notin> set l" by (meson split_list_first)
    obtain v where v: "s_write sys 1 (l @ [10]) w = (int (length (l @ [10])), v)" "inp v = inp w" "out v = out w @ l @ [10]"
      by (rule stdio_write [OF s])
    define u where "u = (if match pattern l then snd (s_write sys 1 (l @ [10]) w) else w)"
    have u: "inp u = inp w" "out u = out w @ (if match pattern l then l @ [10] else [])" using v by (simp_all add: u_def)
    have "length cs < length p" "0 \<notin> set cs" using l less.prems by auto
    from less.hyps [OF this, of u] obtain w' where w': "grep_lines sys pattern cs u = (snd (cut_lines cs), w')" "inp w' = inp u"
        "out w' = out u @ matching pattern (fst (cut_lines cs))" by blast
    have "strchr (cstr p) 10 = Some (length l)" unfolding cp unfolding l(1) by (rule strchr_first [OF l(2)])
    then have "grep_lines sys pattern p w = grep_lines sys pattern cs u"
      by (subst grep_lines.simps) (simp add: l(1) u_def)
    then show ?thesis using w' u l by (simp add: cut_lines_line matching_def)
  qed
qed

lemma grep_loop_spec:
  assumes s: "stdio sys fd inp out" and "0 \<notin> set (inp w)" "0 \<notin> set buf" "10 \<notin> set buf"
    and "\<And>as l bs. buf @ inp w = as @ l @ bs \<Longrightarrow> 10 \<notin> set l \<Longrightarrow> length l < 1023"
  shows "\<exists>w'. grep_loop sys pattern fd buf w = Some (Ret () w') \<and> out w' = out w @ matching pattern (fst (cut_lines (buf @ inp w)))"
  using assms(2-)
proof (induction "length (inp w)" arbitrary: w buf rule: less_induct)
  case less
  have "length buf < 1023" using less.prems(4) [of "[]" buf "inp w"] less.prems(3) by simp
  then have "0 < 1024 - length buf - 1" by simp
  then obtain n u where r: "s_read sys fd (1024 - length buf - 1) w = (int n, take n (inp w), u)" "n \<le> length (inp w)"
    "n = 0 \<Longrightarrow> inp w = []" "inp u = drop n (inp w)" "out u = out w"
    by (rule stdio_read [OF s, of _ w]) auto
  show ?case
  proof (cases "n = 0")
    case True
    then show ?thesis using r less.prems(3) by (subst grep_loop.simps) (simp add: cut_lines_none matching_def)
  next
    case False
    define p where "p = buf @ take n (inp w)"
    define rest where "rest = snd (cut_lines p)"
    have pz: "0 \<notin> set p" using less.prems(1,2) by (auto simp: p_def dest: in_set_takeD)
    from grep_lines_spec [OF s this] obtain v where v: "grep_lines sys pattern p u = (rest, v)" "inp v = inp u"
        "out v = out u @ matching pattern (fst (cut_lines p))" unfolding rest_def by blast
    obtain as where as: "p = as @ rest" "10 \<notin> set rest" using cut_lines_rest [of p] unfolding rest_def by blast
    have pi: "buf @ inp w = p @ inp v" by (simp add: p_def v(2) r(4))
    have "length (inp v) < length (inp w)" using v(2) r(2,4) False by simp
    moreover have "0 \<notin> set (inp v)" using less.prems(1) v(2) r(4) by (auto dest: in_set_dropD)
    moreover have "0 \<notin> set rest" using pz as(1) by simp
    moreover note as(2)
    moreover have "length l < 1023" if "rest @ inp v = as' @ l @ bs" "10 \<notin> set l" for as' l bs
      using less.prems(4) [of "as @ as'" l bs] that pi as(1) by simp
    ultimately obtain w' where w': "grep_loop sys pattern fd rest v = Some (Ret () w')"
        "out w' = out v @ matching pattern (fst (cut_lines (rest @ inp v)))"
      using less.hyps [of v rest] by blast
    have "grep_loop sys pattern fd buf w = grep_loop sys pattern fd rest v"
      using r(1) v(1) False by (subst grep_loop.simps) (simp add: p_def)
    moreover have "fst (cut_lines (buf @ inp w)) = fst (cut_lines p) @ fst (cut_lines (rest @ inp v))"
      unfolding pi rest_def by (subst cut_lines_append) simp
    ultimately show ?thesis using w' v(3) r(5) by (simp add: matching_def)
  qed
qed

section \<open>Properties\<close>

text \<open>C26: the matcher of \<open>grep\<close> is correct.  For every pattern and text it ends, and finds a match exactly when
  a piece of the text is in the language of the pattern, at its beginning for a pattern that starts with \<open>^\<close> and
  up to its end for one that ends with \<open>$\<close>.\<close>

theorem match_correct:
  assumes "0 \<notin> set re"
  shows "match re tx \<longleftrightarrow> found re tx"
proof (cases re)
  case Nil
  then show ?thesis by (cases tx) (simp_all add: match_def found_def at0_def chr_ops matchhere.simps)
next
  case (Cons c re')
  then show ?thesis
    using assms matchhere_begins [of re' tx] match_from_begins [OF assms, of tx]
    by (simp add: match_def found_def at0_def chr_ops)
qed

text \<open>The pattern \<open>a.*c$\<close> in \<open>xabcc\<close>.\<close>

theorem match_correct_witness:
  "match (txt_of ''a.*c$'') (txt_of ''xabcc'') \<and> found (txt_of ''a.*c$'') (txt_of ''xabcc'')"
proof -
  have "match (txt_of ''a.*c$'') (txt_of ''xabcc'')"
    by (simp add: match_def txt_of_def chr_def at0_def matchhere_Nil matchhere_run matchstar_run)
  moreover have "0 \<notin> set (txt_of ''a.*c$'')" by (simp add: txt_of_def chr_def)
  ultimately show ?thesis using match_correct by blast
qed


text \<open>C27: \<open>grep\<close> prints the matching lines.  For a text without NUL bytes whose lines fit its buffer, and however
  the kernel cuts the file into reads, \<open>grep\<close> ends and has printed exactly the complete lines that match, in
  order.  Bytes after the last newline are never looked at.\<close>

theorem grep_prints_matching_lines:
  assumes "stdio sys fd inp out" "0 \<notin> set (inp w)"
    and "\<forall>as l bs. inp w = as @ l @ bs \<and> 10 \<notin> set l \<longrightarrow> length l < 1023"
  shows "\<exists>w'. grep sys pattern fd w = Some (Ret () w')
    \<and> out w' = out w @ concat (map (\<lambda>l. l @ [10]) (filter (match pattern) (fst (cut_lines (inp w)))))"
proof -
  have m: "matching pattern lns = concat (map (\<lambda>l. l @ [10]) (filter (match pattern) lns))" for lns
    by (induction lns) (simp_all add: matching_def)
  have "\<exists>w'. grep_loop sys pattern fd [] w = Some (Ret () w') \<and> out w' = out w @ matching pattern (fst (cut_lines ([] @ inp w)))"
  proof (rule grep_loop_spec [OF assms(1,2)])
    show "length l < 1023" if "[] @ inp w = as @ l @ bs" "10 \<notin> set l" for as l bs
      using assms(3) [rule_format, of as l bs] that by simp
  qed simp_all
  then show ?thesis by (simp only: grep_def m append_Nil)
qed

text \<open>The pattern \<open>^a\<close> on three lines, of which the last is not complete.\<close>

theorem grep_prints_matching_lines_witness:
  "\<exists>w'. grep tape_sys [94, 97] 0 ([97, 98, 10, 98, 97, 10, 97, 99], []) = Some (Ret () w') \<and> snd w' = [97, 98, 10]"
proof -
  let ?i = "[97, 98, 10, 98, 97, 10, 97, 99] :: byte list"
  have z: "0 \<notin> set (fst (?i, [] :: byte list))" by simp
  have l: "\<forall>as l bs. fst (?i, [] :: byte list) = as @ l @ bs \<and> 10 \<notin> set l \<longrightarrow> length l < 1023"
  proof (intro allI impI)
    fix as l bs :: "byte list"
    assume "fst (?i, [] :: byte list) = as @ l @ bs \<and> 10 \<notin> set l"
    from arg_cong [OF conjunct1 [OF this], of length] show "length l < 1023" by simp
  qed
  have m: "match [94, 97] [97, 98]" "\<not> match [94, 97] [98, 97]" by (simp_all add: match_def at0_def chr_def matchhere_run)
  have c: "concat (map (\<lambda>l. l @ [10]) (filter (match [94, 97]) (fst (cut_lines ?i)))) = [97, 98, 10]"
    by (simp add: m)
  show ?thesis
    using grep_prints_matching_lines [where fd = 0 and inp = fst and out = snd and sys = tape_sys and w = "(?i, [])"
        and pattern = "[94, 97]", OF stdio_tape z l]
    by (simp only: fst_conv snd_conv c append_Nil)
qed

end
