(* ===== verification/Ulab.thy ===== *)
theory Ulab
  imports Uprogs
begin

text \<open>
  The programs of the course: \<open>sixfive\<close>, \<open>find\<close> and \<open>memdump\<close>.  \<open>sixfive\<close> is compared with a description of
  what it prints as a function of the tokens of its input.
\<close>

section \<open>sixfive\<close>

definition TOKEN_SIZE :: nat where "TOKEN_SIZE = 128"

definition is_digit :: "byte \<Rightarrow> bool" where "is_digit ch \<longleftrightarrow> 48 \<le> ch \<and> ch \<le> 57"

fun token_value :: "byte list \<Rightarrow> uint \<Rightarrow> uint option" where
  "token_value [] value = Some value"
| "token_value (c # cs) value = (if \<not> is_digit c then None else token_value cs (value * 10 + ucast c - 48))"

definition process_token :: "'w sys \<Rightarrow> byte list \<Rightarrow> 'w \<Rightarrow> (unit, 'w) prog" where
  "process_token sys token w =
    (if length token = 0 then Some (Ret () w)
     else case token_value token 0 of
       None \<Rightarrow> Some (Ret () w)
     | Some value \<Rightarrow>
         if sint value mod 5 = 0 \<or> sint value mod 6 = 0 then printf_u sys (ln_of ''%d'') [VWord (scast value)] w
         else Some (Ret () w))"

definition separators :: "byte list" where "separators = [32, 45, 13, 9, 10, 46, 47, 44]"

partial_function (option) sixfive_loop :: "'w sys \<Rightarrow> int \<Rightarrow> byte list \<Rightarrow> 'w \<Rightarrow> (int \<times> byte list, 'w) prog" where
  "sixfive_loop sys fd token w =
    (case s_read sys fd 1 w of (n, bs, w) \<Rightarrow>
     if n > 0
     then let ch = at0 bs 0 in
       if strchr separators ch \<noteq> None
       then ubnd (process_token sys token w) (\<lambda>_ w. sixfive_loop sys fd [] w)
       else sixfive_loop sys fd (if length token < TOKEN_SIZE then token @ [ch] else token) w
     else Some (Ret (n, token) w))"

definition sixfive_file :: "'w sys \<Rightarrow> byte list \<Rightarrow> 'w \<Rightarrow> (unit, 'w) prog" where
  "sixfive_file sys filename w =
    (case s_open sys filename O_RDONLY w of (fd, w) \<Rightarrow>
     if fd < 0 then fprintf sys 2 (ln_of ''sixfive: cannot open %s'') [VStr (Some filename)] w
     else ubnd (sixfive_loop sys fd [] w) (\<lambda>(n, token) w.
       ubnd (process_token sys token w) (\<lambda>_ w.
       ubnd (if n < 0 then fprintf sys 2 (ln_of ''sixfive: read error in %s'') [VStr (Some filename)] w
             else Some (Ret () w)) (\<lambda>_ w.
       Some (Ret () (snd (s_close sys fd w)))))))"

definition sixfive_main :: "'w sys \<Rightarrow> byte list list \<Rightarrow> 'w \<Rightarrow> (int, 'w) prog" where
  "sixfive_main sys argv w =
    (if length argv < 2 then fail sys (ln_of ''Usage: sixfive file...'') [] w
     else ubnd (each (sixfive_file sys) (tl argv) w) (\<lambda>_ w. uexit 0 w))"

section \<open>find\<close>

definition PATH_SIZE :: nat where "PATH_SIZE = 512"

definition base_name :: "byte list \<Rightarrow> byte list" where
  "base_name path = drop (base_from path (strlen_u path)) path"

definition dir_name_equal :: "byte list \<Rightarrow> byte list \<Rightarrow> bool" where
  "dir_name_equal dir_name target \<longleftrightarrow> strcmp (cstr (take DIRSIZ dir_name)) target = 0"

definition is_dot_directory :: "byte list \<Rightarrow> bool" where
  "is_dot_directory dir_name \<longleftrightarrow> dir_name_equal dir_name (txt_of ''.'') \<or> dir_name_equal dir_name (txt_of ''..'')"

fun copy_argv :: "nat \<Rightarrow> byte list list \<Rightarrow> byte list list option" where
  "copy_argv i [] = Some []"
| "copy_argv i (a # as) = (if i \<ge> MAXARG - 2 then None else map_option (Cons a) (copy_argv (i + 1) as))"

definition execute_command :: "'w sys \<Rightarrow> byte list \<Rightarrow> byte list list \<Rightarrow> 'w \<Rightarrow> (unit, 'w) prog" where
  "execute_command sys path command_argv w =
    (case copy_argv 0 command_argv of
      None \<Rightarrow> fprintf sys 2 (ln_of ''find: too many exec arguments'') [] w
    | Some as \<Rightarrow>
        let exec_argv = as @ [path] in
        case s_fork sys w of (pid, w) \<Rightarrow>
        if pid < 0 then fprintf sys 2 (ln_of ''find: fork failed'') [] w
        else if pid = 0
        then ubnd (uexec sys (hd exec_argv) exec_argv w) (\<lambda>_ w.
          fail sys (ln_of ''find: exec %s failed'') [VStr (Some (hd exec_argv))] w)
        else Some (Ret () (snd (s_wait sys w))))"

definition handle_match :: "'w sys \<Rightarrow> byte list \<Rightarrow> byte list list option \<Rightarrow> 'w \<Rightarrow> (unit, 'w) prog" where
  "handle_match sys path command w =
    (case command of Some command_argv \<Rightarrow> execute_command sys path command_argv w
     | None \<Rightarrow> printf_u sys (ln_of ''%s'') [VStr (Some path)] w)"

text \<open>
  The two loops of \<open>find\<close> in one recursive function: \<open>Inl path\<close> is a call of \<open>find\<close>, \<open>Inr (fd, pre)\<close> the loop over
  the entries of the directory open as \<open>fd\<close>, whose path with a slash at its end is \<open>pre\<close>.\<close>

partial_function (option) find_run :: "'w sys \<Rightarrow> byte list \<Rightarrow> byte list list option \<Rightarrow> byte list + int \<times> byte list \<Rightarrow> 'w \<Rightarrow> (unit, 'w) prog" where
  "find_run sys target command job w =
    (case job of
      Inl path \<Rightarrow>
        (case s_open sys path O_RDONLY w of (fd, w) \<Rightarrow>
         if fd < 0 then fprintf sys 2 (ln_of ''find: cannot open %s'') [VStr (Some path)] w
         else case s_fstat sys fd w of (r, st, w) \<Rightarrow>
           if r < 0
           then ubnd (fprintf sys 2 (ln_of ''find: cannot stat %s'') [VStr (Some path)] w)
             (\<lambda>_ w. Some (Ret () (snd (s_close sys fd w))))
           else ubnd (if st_type st = T_FILE \<or> st_type st = T_DEVICE
               then if strcmp (base_name path) target = 0 then handle_match sys path command w else Some (Ret () w)
               else if st_type st = T_DIR
               then if strlen_u path + 1 + DIRSIZ + 1 > PATH_SIZE then fprintf sys 2 (ln_of ''find: path too long'') [] w
                 else find_run sys target command
                   (Inr (fd, if path \<noteq> [] \<and> path ! (length path - 1) \<noteq> 47 then path @ [47] else path)) w
               else Some (Ret () w))
             (\<lambda>_ w. Some (Ret () (snd (s_close sys fd w)))))
    | Inr (fd, pre) \<Rightarrow>
        (case s_read sys fd DIRENT_SIZE w of (n, de, w) \<Rightarrow>
         if n = int DIRENT_SIZE
         then if de_inum de = 0 \<or> is_dot_directory (de_name de) then find_run sys target command (Inr (fd, pre)) w
           else ubnd (find_run sys target command (Inl (pre @ cstr (de_name de))) w)
             (\<lambda>_ w. find_run sys target command (Inr (fd, pre)) w)
         else Some (Ret () w)))"

definition find_files :: "'w sys \<Rightarrow> byte list \<Rightarrow> byte list \<Rightarrow> byte list list option \<Rightarrow> 'w \<Rightarrow> (unit, 'w) prog" where
  "find_files sys path target command w = find_run sys target command (Inl path) w"

definition find_main :: "'w sys \<Rightarrow> byte list list \<Rightarrow> 'w \<Rightarrow> (int, 'w) prog" where
  "find_main sys argv w =
    (if length argv = 3 then ubnd (find_files sys (argv ! 1) (argv ! 2) None w) (\<lambda>_ w. uexit 0 w)
     else if length argv \<ge> 5 \<and> strcmp (argv ! 3) (txt_of ''-exec'') = 0
     then ubnd (find_files sys (argv ! 1) (argv ! 2) (Some (drop 4 argv)) w) (\<lambda>_ w. uexit 0 w)
     else fail sys (ln_of ''Usage: find path name [-exec command args...]'') [] w)"

section \<open>memdump\<close>

text \<open>The data is read from the program's memory; a string without NUL is read forever.\<close>

partial_function (option) mem_str :: "pmem \<Rightarrow> nat \<Rightarrow> byte list option" where
  "mem_str m p = (if m p = 0 then Some [] else Option.bind (mem_str m (p + 1)) (\<lambda>cs. Some (m p # cs)))"

fun memdump :: "'w sys \<Rightarrow> pmem \<Rightarrow> byte list \<Rightarrow> nat \<Rightarrow> 'w \<Rightarrow> (unit, 'w) prog" where
  "memdump sys m [] data w = Some (Ret () w)"
| "memdump sys m (c # fmt) data w =
    (if c = chr CHR ''i''
     then ubnd (printf_u sys (ln_of ''%d'') [VWord (scast (of_bytes (rd m data 4) :: uint))] w) (\<lambda>_ w. memdump sys m fmt (data + 4) w)
     else if c = chr CHR ''p''
     then ubnd (printf_u sys (ln_of ''%lx'') [VWord (load64 m data)] w) (\<lambda>_ w. memdump sys m fmt (data + 8) w)
     else if c = chr CHR ''h''
     then ubnd (printf_u sys (ln_of ''%d'') [VWord (scast (of_bytes (rd m data 2) :: ushort))] w) (\<lambda>_ w. memdump sys m fmt (data + 2) w)
     else if c = chr CHR ''c''
     then ubnd (printf_u sys (ln_of ''%c'') [VWord (ucast (m data))] w) (\<lambda>_ w. memdump sys m fmt (data + 1) w)
     else if c = chr CHR ''s''
     then (let p = load64 m data in
       if p = 0 then ubnd (printf_u sys (ln_of ''%s'') [VStr None] w) (\<lambda>_ w. memdump sys m fmt (data + 8) w)
       else case mem_str m (unat p) of None \<Rightarrow> None
         | Some cs \<Rightarrow> ubnd (printf_u sys (ln_of ''%s'') [VStr (Some cs)] w) (\<lambda>_ w. memdump sys m fmt (data + 8) w))
     else if c = chr CHR ''S''
     then (case mem_str m data of None \<Rightarrow> None
       | Some cs \<Rightarrow> ubnd (printf_u sys (ln_of ''%s'') [VStr (Some cs)] w) (\<lambda>_ w. memdump sys m fmt (data + length cs + 1) w))
     else fprintf sys 2 (ln_of ''memdump: unknown format character %c'') [VWord (ucast c)] w)"

text \<open>The input of the second form of the program: up to 512 bytes, in a buffer of zeros.\<close>

function memdump_input :: "'w sys \<Rightarrow> byte list \<Rightarrow> nat \<Rightarrow> 'w \<Rightarrow> byte list \<times> 'w" where
  "memdump_input sys data n w =
    (if n < 512
     then case s_read sys 0 (512 - n) w of (nn, bs, w) \<Rightarrow>
       if nn \<le> 0 then (data, w) else memdump_input sys (splice data n bs) (n + nat nn) w
     else (data, w))"
  by pat_completeness auto
termination
  by (relation "measure (\<lambda>(_, _, n, _). 512 - n)") auto

declare memdump_input.simps [simp del]

section \<open>What sixfive prints\<close>

text \<open>The pieces of a text between separators.\<close>

fun tokens :: "byte list \<Rightarrow> byte list list" where
  "tokens [] = [[]]"
| "tokens (c # cs) = (if c \<in> set separators then [] # tokens cs
     else case tokens cs of [] \<Rightarrow> [] | t # ts \<Rightarrow> (c # t) # ts)"

lemma tokens_nonempty: "tokens cs \<noteq> []"
  by (induction cs) (auto split: list.splits)

lemma tokens_sep: "set t \<inter> set separators = {} \<Longrightarrow> c \<in> set separators \<Longrightarrow> tokens (t @ c # cs) = t # tokens cs"
  by (induction t) auto

lemma tokens_last: "set t \<inter> set separators = {} \<Longrightarrow> tokens t = [t]"
  by (induction t) auto

definition dec_val :: "byte list \<Rightarrow> nat" where "dec_val t = digits_val 10 (rev t)"

lemma digits_val_snoc: "digits_val b (xs @ [c]) = digits_val b xs + b ^ length xs * digit_val c"
  by (induction xs) (simp_all add: algebra_simps)

lemma dec_val_Cons: "dec_val (c # t) = digit_val c * 10 ^ length t + dec_val t"
  by (simp add: dec_val_def digits_val_snoc)

lemma digit_ucast:
  assumes "is_digit c"
  shows "(ucast c :: uint) - 48 = of_nat (digit_val c)"
proof -
  have c: "48 \<le> unat c" "unat c \<le> 57" using assms by (simp_all add: is_digit_def word_le_nat_alt)
  then have "c < 58" by (simp add: word_less_nat_alt)
  then have "digit_val c = unat c - 48" by (simp add: digit_val_def)
  moreover have "(ucast c :: uint) = of_nat (unat c)" by simp
  ultimately show ?thesis using c(1) by (simp add: of_nat_diff del: of_nat_unat)
qed

lemma token_value_dec:
  "token_value t x = (if list_all is_digit t then Some (x * 10 ^ length t + of_nat (dec_val t)) else None)"
proof (induction t arbitrary: x)
  case Nil
  show ?case by (simp add: dec_val_def)
next
  case (Cons c t)
  have "(x * 10 + ucast c - 48) * 10 ^ length t + of_nat (dec_val t)
      = x * 10 ^ length (c # t) + (of_nat (dec_val (c # t)) :: uint)" if "is_digit c"
    using digit_ucast [OF that] by (simp add: dec_val_Cons algebra_simps)
  then show ?case using Cons by simp
qed

text \<open>What is printed for a token: its value in decimal, when it is a number divisible by 5 or 6.\<close>

definition token_line :: "byte list \<Rightarrow> byte list" where
  "token_line t = (if t \<noteq> [] \<and> list_all is_digit t \<and> (5 dvd dec_val t \<or> 6 dvd dec_val t)
     then rev (uprint_digits (of_nat (dec_val t)) 10) @ [10] else [])"

definition fair_token :: "byte list \<Rightarrow> bool" where
  "fair_token t \<longleftrightarrow> length t \<le> TOKEN_SIZE \<and> (list_all is_digit t \<longrightarrow> dec_val t < 2 ^ 31)"

lemma sint_small: "n < 2 ^ 31 \<Longrightarrow> sint (of_nat n :: uint) = int n"
  by (simp add: signed_of_nat signed_take_bit_int_eq_self)

lemma process_token_wrote:
  assumes s: "stdio sys fd inp out" and f: "fair_token t"
  shows "\<exists>w'. process_token sys t w = Some (Ret () w') \<and> wrote inp out (token_line t) w w'"
proof (cases "t \<noteq> [] \<and> list_all is_digit t")
  case False
  then show ?thesis by (auto simp: process_token_def token_value_dec token_line_def)
next
  case True
  define v :: uint where "v = of_nat (dec_val t)"
  have l: "dec_val t < 2 ^ 31" using f True by (simp add: fair_token_def)
  then have sv: "sint v = int (dec_val t)" by (simp add: v_def sint_small)
  have val: "token_value t 0 = Some v" using True by (simp add: token_value_dec v_def)
  have d: "sint v mod 5 = 0 \<longleftrightarrow> 5 dvd dec_val t" "sint v mod 6 = 0 \<longleftrightarrow> 6 dvd dec_val t"
    unfolding sv by presburger+
  have cast: "ucast (scast v :: uint64) = v" by (rule bit_word_eqI) (auto simp: bit_simps)
  then have ia: "int_arg (scast v) = scast v" by (simp add: int_arg_def)
  have "sint (scast v :: uint64) = sint v"
    using sv l by (simp add: signed_scast_eq signed_take_bit_int_eq_self)
  then have "\<not> sint (scast v :: uint64) < 0" using sv by simp
  then have ub: "uprint_buf (scast v) 10 True = uprint_digits v 10" by (simp add: uprint_buf_def cast)
  have ft: "ufmt_text False (ln_of ''%d'') [VWord (scast v)] = Some (rev (uprint_digits v 10) @ [10])"
    by (simp add: ln_of_def txt_of_def chr_def ufmt_text.simps uconv_text_def at0_def ia ub)
  show ?thesis
  proof (cases "5 dvd dec_val t \<or> 6 dvd dec_val t")
    case dv: True
    then have "process_token sys t w = printf_u sys (ln_of ''%d'') [VWord (scast v)] w"
      using True val d by (auto simp: process_token_def)
    moreover have "token_line t = rev (uprint_digits v 10) @ [10]" using dv True by (simp add: token_line_def v_def)
    ultimately show ?thesis using printf_u_wrote [OF s ft, of w] by simp
  next
    case False
    then show ?thesis using val d by (auto simp: process_token_def token_line_def)
  qed
qed

lemma sixfive_loop_spec:
  assumes s: "stdio sys fd inp out"
    and "set token \<inter> set separators = {}" "\<forall>t \<in> set (tokens (token @ inp w)). fair_token t"
  shows "\<exists>token' w'. sixfive_loop sys fd token w = Some (Ret (0, token') w') \<and> fair_token token'
    \<and> out w' @ token_line token' = out w @ concat (map token_line (tokens (token @ inp w)))"
  using assms(2-)
proof (induction "length (inp w)" arbitrary: token w rule: less_induct)
  case less
  obtain n u where r: "s_read sys fd 1 w = (int n, take n (inp w), u)" "n \<le> 1" "n \<le> length (inp w)"
    "n = 0 \<Longrightarrow> inp w = []" "inp u = drop n (inp w)" "out u = out w"
    by (rule stdio_read [OF s, of 1 w]) auto
  show ?case
  proof (cases "n = 0")
    case True
    then have "sixfive_loop sys fd token w = Some (Ret (0, token) u)" using r(1) by (subst sixfive_loop.simps) simp
    moreover have "tokens (token @ inp w) = [token]" using True r(4) less.prems(1) by (simp add: tokens_last)
    ultimately show ?thesis using less.prems(2) r(6) by simp
  next
    case False
    then have n: "n = 1" using r(2) by simp
    then obtain c cs where c: "inp w = c # cs" using r(3) by (cases "inp w") auto
    have u: "inp u = cs" using r(5) n c by simp
    have step: "sixfive_loop sys fd token w = (if c \<in> set separators
        then ubnd (process_token sys token u) (\<lambda>_ w. sixfive_loop sys fd [] w)
        else sixfive_loop sys fd (if length token < TOKEN_SIZE then token @ [c] else token) u)"
      using r(1) n c by (subst sixfive_loop.simps) (simp add: at0_def strchr_set)
    show ?thesis
    proof (cases "c \<in> set separators")
      case True
      have tk: "tokens (token @ inp w) = token # tokens cs" unfolding c by (rule tokens_sep [OF less.prems(1) True])
      then have "fair_token token" using less.prems(2) by simp
      from process_token_wrote [OF s this] obtain v where
        v: "process_token sys token u = Some (Ret () v)" "wrote inp out (token_line token) u v" by blast
      have iv: "inp v = cs" "out v = out w @ token_line token" using v(2) u r(6) by (simp_all add: wrote_def)
      have "\<exists>token' w'. sixfive_loop sys fd [] v = Some (Ret (0, token') w') \<and> fair_token token'
          \<and> out w' @ token_line token' = out v @ concat (map token_line (tokens ([] @ inp v)))"
        by (rule less.hyps) (use iv tk less.prems(2) c in auto)
      then show ?thesis using step True v(1) iv tk by simp
    next
      case False
      have "length token < TOKEN_SIZE"
      proof -
        have "\<exists>t ts. tokens (token @ inp w) = (token @ c # t) # ts"
          using less.prems(1) tokens_nonempty [of cs] False unfolding c by (induction token) (auto split: list.splits simp: neq_Nil_conv)
        then show ?thesis using less.prems(2) by (auto simp: fair_token_def)
      qed
      then have st: "sixfive_loop sys fd token w = sixfive_loop sys fd (token @ [c]) u" using step False by simp
      have "\<exists>token' w'. sixfive_loop sys fd (token @ [c]) u = Some (Ret (0, token') w') \<and> fair_token token'
          \<and> out w' @ token_line token' = out u @ concat (map token_line (tokens ((token @ [c]) @ inp u)))"
        by (rule less.hyps) (use u less.prems c False in auto)
      then show ?thesis using st u r(6) c by simp
    qed
  qed
qed

section \<open>Properties\<close>

text \<open>C30: \<open>sixfive\<close> prints, in the order of the file and one per line, exactly the numbers of the file that are
  divisible by 5 or 6, a number being a piece between separators made of digits only; the last piece needs no
  separator after it.  Pieces have at most 128 bytes and numbers are below \<open>2 ^ 31\<close>.\<close>

theorem sixfive_prints_multiples:
  assumes "stdio sys fd inp out" "s_open sys name O_RDONLY w0 = (fd, w)" "0 \<le> fd"
    and "\<And>v. out (snd (s_close sys fd v)) = out v" "\<forall>t \<in> set (tokens (inp w)). fair_token t"
  shows "\<exists>w'. sixfive_file sys name w0 = Some (Ret () w') \<and> out w' = out w @ concat (map token_line (tokens (inp w)))"
proof -
  obtain token v where v: "sixfive_loop sys fd [] w = Some (Ret (0, token) v)" "fair_token token"
    "out v @ token_line token = out w @ concat (map token_line (tokens (inp w)))"
    using sixfive_loop_spec [OF assms(1), of "[]" w] assms(5) by auto
  obtain u where "process_token sys token v = Some (Ret () u)" "wrote inp out (token_line token) v u"
    using process_token_wrote [OF assms(1) v(2)] by blast
  then show ?thesis using v assms(2-4) by (simp add: sixfive_file_def wrote_def)
qed

text \<open>The text \<open>30,7 x5\<close>.\<close>

theorem sixfive_prints_multiples_witness:
  "\<exists>w'. sixfive_file tape_sys [] ([51, 48, 44, 55, 32, 120, 53], []) = Some (Ret () w') \<and> snd w' = [51, 48, 10]"
proof -
  let ?i = "[51, 48, 44, 55, 32, 120, 53] :: byte list"
  have tk: "tokens ?i = [[51, 48], [55], [120, 53]]" by (simp add: separators_def)
  have v: "dec_val [51, 48] = 30" "dec_val [55] = 7" by (simp_all add: dec_val_def digit_val_def)
  have d: "uprint_digits 30 10 = [48, 51]" by (simp add: uprint_digits.simps upper_digits_eq)
  have o: "s_open tape_sys [] O_RDONLY (?i, []) = (0, (?i, []))" by (simp add: tape_sys_def)
  have f: "\<forall>t \<in> set (tokens (fst (?i, [] :: byte list))). fair_token t"
    unfolding fst_conv tk by (simp add: fair_token_def TOKEN_SIZE_def v is_digit_def)
  have c: "snd (snd (s_close tape_sys 0 w)) = snd w" for w by (simp add: tape_sys_def)
  have l: "concat (map token_line (tokens ?i)) = [51, 48, 10]"
    unfolding tk by (simp add: token_line_def v is_digit_def d)
  show ?thesis
    using sixfive_prints_multiples [where inp = fst and out = snd, OF stdio_tape o _ c f]
    by (simp only: fst_conv snd_conv l append_Nil order_refl simp_thms)
qed

end
