(* ===== verification/Spec2Isabelle.thy ===== *)
theory Spec2Isabelle
  imports Prelude Ring Riscv Strings Spinlock Kstate Kalloc Vm Pagetable Usermem Sched Sleeplock Numfmt Uart Printf Bio Log Logtx Fs Console Pipe File Proc Exec Args Sysproc Sysfile Syscall Virtio Trap Boot Ulib Stdio Uprogs Grep Ulab
begin

text \<open>
  A verification library for the xv6 teaching kernel for RISC-V and its user programs.

  Theories: \<open>Prelude\<close> (outcomes, little-endian bytes, physical memory), \<open>Riscv\<close> (constants, page-table
  macros, control registers), \<open>Strings\<close> (\<open>kernel/string.c\<close>).
\<close>

end
